(* ===== verification/Nbp_Prelude.thy ===== *)
theory Nbp_Prelude
  imports Main "HOL-Library.Word"
begin

text \<open>
  Shared ground of the development: the machine types of the firmware (32-bit Xtensa/RISC-V, so
  \<open>size_t\<close> has 32 bits), the index searches the C++ loops of every table amount to, bounded copies
  (\<open>memcpy\<close> with a clamp), and lemmas on words and lists that several components use.
  Three \<open>named_theorems\<close> collections carry them into the component proofs: \<open>scan_simps\<close> (linear
  searches), \<open>word_norm\<close> (unsigned readings of word arithmetic) and \<open>call_simps\<close> (facts about
  the lists of external calls an operation makes).
\<close>

unbundle bit_operations_syntax

type_synonym u8 = "8 word"
type_synonym u16 = "16 word"
type_synonym u32 = "32 word"
type_synonym u64 = "64 word"

named_theorems scan_simps "facts about linear searches through a table"
named_theorems word_norm "unsigned readings of word arithmetic"
named_theorems call_simps "facts about recorded external calls"

section \<open>Linear searches\<close>

text \<open>The shape of \<^verbatim>\<open>for (i...) if (P(t[i])) return i;\<close>: the first index that satisfies the test.\<close>

fun find_idx :: "('a \<Rightarrow> bool) \<Rightarrow> 'a list \<Rightarrow> nat option" where
  "find_idx P [] = None"
| "find_idx P (x # xs) = (if P x then Some 0 else map_option Suc (find_idx P xs))"

lemma find_idx_None [scan_simps]: "find_idx P xs = None \<longleftrightarrow> (\<forall>x\<in>set xs. \<not> P x)"
  by (induction xs) auto

lemma find_idx_SomeD:
  "find_idx P xs = Some i \<Longrightarrow> i < length xs \<and> P (xs ! i) \<and> (\<forall>j<i. \<not> P (xs ! j))"
proof (induction xs arbitrary: i)
  case (Cons x xs)
  then show ?case by (auto split: if_splits simp: less_Suc_eq_0_disj)
qed simp

lemma find_idx_Some [scan_simps]:
  "find_idx P xs = Some i \<longleftrightarrow> i < length xs \<and> P (xs ! i) \<and> (\<forall>j<i. \<not> P (xs ! j))"
proof (rule iffI)
  assume "find_idx P xs = Some i"
  then show "i < length xs \<and> P (xs ! i) \<and> (\<forall>j<i. \<not> P (xs ! j))" by (rule find_idx_SomeD)
next
  assume r: "i < length xs \<and> P (xs ! i) \<and> (\<forall>j<i. \<not> P (xs ! j))"
  then have "find_idx P xs \<noteq> None" by (auto simp: find_idx_None)
  then obtain k where k: "find_idx P xs = Some k" by blast
  from find_idx_SomeD [OF k] r have "k = i" by (metis nat_neq_iff)
  with k show "find_idx P xs = Some i" by simp
qed

lemma find_idx_cong_Some:
  "find_idx P xs = Some i \<Longrightarrow> xs ! i \<in> set xs \<and> P (xs ! i)"
  by (auto dest: find_idx_SomeD)

lemma find_idx_exists: "x \<in> set xs \<Longrightarrow> P x \<Longrightarrow> \<exists>i. find_idx P xs = Some i"
  by (metis find_idx_None option.exhaust)

section \<open>Lists updated by index\<close>

lemma set_list_update_iff:
  assumes "i < length xs"
  shows "set (xs[i := y]) = insert y {xs ! j |j. j < length xs \<and> j \<noteq> i}"
  using assms by (auto simp: in_set_conv_nth nth_list_update split: if_splits)

lemma count_filter_update:
  assumes "i < length xs"
  shows "length (filter P (xs[i := y])) + (if P (xs ! i) then 1 else 0)
       = length (filter P xs) + (if P y then 1 else 0)"
  using assms
proof (induction xs arbitrary: i)
  case (Cons x xs)
  then show ?case by (cases i) auto
qed simp

lemma distinct_map_update_new:
  assumes "distinct (map f xs)" "i < length xs" "f y \<notin> f ` (set xs)"
  shows "distinct (map f (xs[i := y]))"
  using assms by (auto simp: map_update intro: distinct_list_update)

lemma distinct_map_update_same:
  assumes "distinct (map f xs)" "i < length xs" "f y = f (xs ! i)"
  shows "distinct (map f (xs[i := y]))"
  using assms by (metis list_update_id map_update nth_map)

lemma distinct_map_eqD:
  "distinct (map f xs) \<Longrightarrow> i < length xs \<Longrightarrow> j < length xs \<Longrightarrow> f (xs ! i) = f (xs ! j) \<Longrightarrow> i = j"
  by (metis distinct_conv_nth length_map nth_map)

section \<open>Index of a least element\<close>

text \<open>
  The eviction loops \<^verbatim>\<open>lru = 0; for (i = 1..) if (t[i].last_ms < t[lru].last_ms) lru = i;\<close>.
  \<open>argmin_from f xs best i rest\<close> is the loop with the rows \<open>rest\<close> still to visit from index \<open>i\<close>.
\<close>

fun argmin_from :: "('a \<Rightarrow> 'b::linorder) \<Rightarrow> nat \<Rightarrow> 'a \<Rightarrow> nat \<Rightarrow> 'a list \<Rightarrow> nat" where
  "argmin_from f best b i [] = best"
| "argmin_from f best b i (x # xs) =
     (if f x < f b then argmin_from f i x (Suc i) xs else argmin_from f best b (Suc i) xs)"

definition argmin_idx :: "('a \<Rightarrow> 'b::linorder) \<Rightarrow> 'a list \<Rightarrow> nat" where
  "argmin_idx f xs = (case xs of [] \<Rightarrow> 0 | x # rest \<Rightarrow> argmin_from f 0 x 1 rest)"

lemma argmin_from_spec:
  assumes "pre @ rest = xs" "best < length pre" "b = xs ! best" "\<forall>x\<in>set pre. f b \<le> f x"
    and "i = length pre"
  shows "argmin_from f best b i rest < length xs \<and>
    (\<forall>x\<in>set xs. f (xs ! argmin_from f best b i rest) \<le> f x)"
  using assms
proof (induction rest arbitrary: pre best b i)
  case Nil
  then show ?case by auto
next
  case (Cons x rest)
  have xs: "(pre @ [x]) @ rest = xs" using Cons.prems(1) by simp
  have x: "x = xs ! length pre" using Cons.prems(1) by (metis nth_append_length)
  show ?case
  proof (cases "f x < f b")
    case True
    have le: "\<forall>y\<in>set (pre @ [x]). f x \<le> f y"
    proof
      fix y assume "y \<in> set (pre @ [x])"
      then show "f x \<le> f y"
        using Cons.prems(4) True by (cases "y = x") (auto dest: order.strict_trans1)
    qed
    have "argmin_from f (length pre) x (Suc (length pre)) rest < length xs \<and>
      (\<forall>z\<in>set xs. f (xs ! argmin_from f (length pre) x (Suc (length pre)) rest) \<le> f z)"
      by (rule Cons.IH [OF xs _ x le]) simp_all
    with True Cons.prems(5) show ?thesis by simp
  next
    case False
    with Cons.prems(4) have le: "\<forall>y\<in>set (pre @ [x]). f b \<le> f y" by auto
    have "argmin_from f best b (Suc (length pre)) rest < length xs \<and>
      (\<forall>z\<in>set xs. f (xs ! argmin_from f best b (Suc (length pre)) rest) \<le> f z)"
      using Cons.prems(2) by (intro Cons.IH [OF xs _ Cons.prems(3) le]) simp_all
    with False Cons.prems(5) show ?thesis by simp
  qed
qed

lemma argmin_idx_spec:
  assumes "xs \<noteq> []"
  shows "argmin_idx f xs < length xs" and "x \<in> set xs \<Longrightarrow> f (xs ! argmin_idx f xs) \<le> f x"
proof -
  obtain y rest where xs: "xs = y # rest" using assms by (cases xs) auto
  have "argmin_from f 0 y 1 rest < length xs \<and>
    (\<forall>x\<in>set xs. f (xs ! argmin_from f 0 y 1 rest) \<le> f x)"
    by (rule argmin_from_spec [of "[y]"]) (auto simp: xs)
  then show "argmin_idx f xs < length xs"
    and "x \<in> set xs \<Longrightarrow> f (xs ! argmin_idx f xs) \<le> f x"
    by (auto simp: argmin_idx_def xs)
qed

section \<open>Words\<close>

lemma unat_drop_bit [word_norm]: "unat (drop_bit n (w :: 'a::len word)) = unat w div 2 ^ n"
  by (metis drop_bit_eq_div unat_drop_bit_eq)

lemma mask7_u8: "(0x7F :: u8) = mask 7"
  by (simp add: mask_eq_exp_minus_1)

lemma mask7_u32: "(0x7F :: u32) = mask 7"
  by (simp add: mask_eq_exp_minus_1)

lemma bit7_u8: "(0x80 :: u8) = push_bit 7 1"
  by simp

lemma mask8_u64: "(0xFF :: u64) = mask 8"
  by (simp add: mask_eq_exp_minus_1)

lemma ucast_u16_u32_u16 [word_norm]: "ucast (ucast (w :: u16) :: u32) = w"
  by (rule bit_word_eqI) (auto simp: bit_simps)

lemma unat_ucast_u16_u32 [word_norm]: "unat (ucast (w :: u16) :: u32) = unat w"
  using unsigned_less [of w, where 'a = nat] by (simp add: unsigned_ucast_eq take_bit_nat_eq_self)

lemma unat_of_nat_u32 [word_norm]: "n < 2 ^ 32 \<Longrightarrow> unat (of_nat n :: u32) = n"
  by (simp add: unat_of_nat)

section \<open>The last items of a list\<close>

definition last_n :: "nat \<Rightarrow> 'a list \<Rightarrow> 'a list" where
  "last_n n xs = drop (length xs - n) xs"

lemma last_n_rev: "last_n n xs = rev (take n (rev xs))"
  by (simp add: last_n_def take_rev)

lemma take_take_append: "take n (take n xs @ ys) = take n (xs @ ys)" "take n (xs @ take n ys) = take n (xs @ ys)"
  by (cases "length xs \<le> n"; simp add: take_append)+

lemma last_n_append [simp]: "last_n n (last_n n xs @ ys) = last_n n (xs @ ys)" "last_n n (xs @ last_n n ys) = last_n n (xs @ ys)"
  by (simp_all add: last_n_rev take_take_append del: take_append)

lemma last_n_last_n [simp]: "last_n n (last_n n xs) = last_n n xs"
  using last_n_append(1) [of n xs "[]"] by simp

lemma length_last_n [simp]: "length (last_n n xs) = min n (length xs)"
  by (simp add: last_n_def)

lemma last_n_all [simp]: "length xs \<le> n \<Longrightarrow> last_n n xs = xs"
  by (simp add: last_n_def)

section \<open>Tables with a used flag\<close>

text \<open>A fixed array of records, each in use or not, at most one in use for each key.\<close>

definition keyed_ok :: "('a \<Rightarrow> bool) \<Rightarrow> ('a \<Rightarrow> 'k) \<Rightarrow> 'a list \<Rightarrow> bool" where
  "keyed_ok used key xs \<longleftrightarrow> (\<forall>i<length xs. \<forall>j<length xs. used (xs ! i) \<and> used (xs ! j) \<and> key (xs ! i) = key (xs ! j) \<longrightarrow> i = j)"

definition keyed_find :: "('a \<Rightarrow> bool) \<Rightarrow> ('a \<Rightarrow> 'k) \<Rightarrow> 'a list \<Rightarrow> 'k \<Rightarrow> nat option" where
  "keyed_find used key xs k = find_idx (\<lambda>e. used e \<and> key e = k) xs"

definition keyed_get :: "('a \<Rightarrow> bool) \<Rightarrow> ('a \<Rightarrow> 'k) \<Rightarrow> 'a list \<Rightarrow> 'k \<Rightarrow> 'a option" where
  "keyed_get used key xs k = map_option (\<lambda>i. xs ! i) (keyed_find used key xs k)"

lemma keyed_okD: "keyed_ok used key xs \<Longrightarrow> i < length xs \<Longrightarrow> j < length xs \<Longrightarrow> used (xs ! i) \<Longrightarrow> used (xs ! j) \<Longrightarrow> key (xs ! i) = key (xs ! j) \<Longrightarrow> i = j"
  unfolding keyed_ok_def by blast

lemma keyed_find_Some: "keyed_ok used key xs \<Longrightarrow> keyed_find used key xs k = Some i \<longleftrightarrow> i < length xs \<and> used (xs ! i) \<and> key (xs ! i) = k"
proof -
  assume ok: "keyed_ok used key xs"
  have "\<not> (used (xs ! j) \<and> key (xs ! j) = k)" if "i < length xs" "used (xs ! i)" "key (xs ! i) = k" "j < i" for j
    using keyed_okD [OF ok that(1), of j] that by auto
  then show ?thesis by (auto simp: keyed_find_def find_idx_Some)
qed

lemma keyed_find_None: "keyed_find used key xs k = None \<longleftrightarrow> (\<forall>x\<in>set xs. used x \<longrightarrow> key x \<noteq> k)"
  by (auto simp: keyed_find_def find_idx_None)

lemma keyed_get_None: "keyed_get used key xs k = None \<longleftrightarrow> (\<forall>x\<in>set xs. used x \<longrightarrow> key x \<noteq> k)"
  by (simp add: keyed_get_def keyed_find_None)

lemma keyed_get_Some: "keyed_ok used key xs \<Longrightarrow> keyed_get used key xs k = Some e \<longleftrightarrow> e \<in> set xs \<and> used e \<and> key e = k"
  by (auto simp: keyed_get_def keyed_find_Some in_set_conv_nth)

lemma keyed_get_eqI:
  assumes "keyed_ok used key xs" "keyed_ok used key ys"
    and "\<And>e. used e \<Longrightarrow> key e = k \<Longrightarrow> e \<in> set xs \<longleftrightarrow> e \<in> set ys"
  shows "keyed_get used key xs k = keyed_get used key ys k"
proof (cases "keyed_get used key ys k")
  case None
  then have "keyed_get used key xs k = None" using assms(3) unfolding keyed_get_None by blast
  with None show ?thesis by simp
next
  case (Some e)
  then have "keyed_get used key xs k = Some e"
    using assms(3) unfolding keyed_get_Some [OF assms(1)] keyed_get_Some [OF assms(2)] by blast
  with Some show ?thesis by simp
qed

lemma keyed_set_other:
  "i < length xs \<Longrightarrow> e \<noteq> y \<Longrightarrow> e \<noteq> xs ! i \<Longrightarrow> e \<in> set (xs[i := y]) \<longleftrightarrow> e \<in> set xs"
  by (auto simp: set_list_update_iff in_set_conv_nth)

text \<open>Writing slot \<open>i\<close>: the slot of the key, or any slot when the key has none.\<close>

lemma keyed_put:
  assumes ok: "keyed_ok used key xs" and i: "i < length xs"
    and f: "keyed_find used key xs (key y) = None \<or> keyed_find used key xs (key y) = Some i"
  shows keyed_put_ok: "keyed_ok used key (xs[i := y])"
    and keyed_put_other: "k \<noteq> key y \<Longrightarrow>
      keyed_get used key (xs[i := y]) k = (if used (xs ! i) \<and> key (xs ! i) = k then None else keyed_get used key xs k)"
    and keyed_put_same: "used y \<Longrightarrow> keyed_get used key (xs[i := y]) (key y) = Some y"
    and keyed_put_unused: "\<not> used y \<Longrightarrow> keyed_get used key (xs[i := y]) (key y) = None"
proof -
  have uniq: "j = i" if "j < length xs" "used (xs ! j)" "key (xs ! j) = key y" for j
    using f keyed_okD [OF ok that(1) i that(2)] that by (auto simp: keyed_find_None keyed_find_Some [OF ok])
  show ok': "keyed_ok used key (xs[i := y])"
    unfolding keyed_ok_def
  proof (intro allI impI)
    fix a b assume l: "a < length (xs[i := y])" "b < length (xs[i := y])"
      and u: "used (xs[i := y] ! a) \<and> used (xs[i := y] ! b) \<and> key (xs[i := y] ! a) = key (xs[i := y] ! b)"
    consider "a = i" "b = i" | "a = i" "b \<noteq> i" | "a \<noteq> i" "b = i" | "a \<noteq> i" "b \<noteq> i" by blast
    then show "a = b"
    proof cases
      case 2
      then show ?thesis using uniq [of b] l u i by simp
    next
      case 3
      then show ?thesis using uniq [of a] l u i by simp
    next
      case 4
      then show ?thesis using keyed_okD [OF ok, of a b] l u by simp
    qed simp
  qed
  show "used y \<Longrightarrow> keyed_get used key (xs[i := y]) (key y) = Some y"
    using i by (simp add: keyed_get_Some [OF ok'] set_update_memI)
  show "\<not> used y \<Longrightarrow> keyed_get used key (xs[i := y]) (key y) = None"
    using i uniq by (auto simp: keyed_get_None in_set_conv_nth nth_list_update split: if_splits)
  assume k: "k \<noteq> key y"
  show "keyed_get used key (xs[i := y]) k = (if used (xs ! i) \<and> key (xs ! i) = k then None else keyed_get used key xs k)"
  proof (cases "used (xs ! i) \<and> key (xs ! i) = k")
    case True
    have "\<not> (used (xs[i := y] ! j) \<and> key (xs[i := y] ! j) = k)" if "j < length xs" for j
      using keyed_okD [OF ok that i] that k True by (cases "j = i") auto
    then show ?thesis using True by (auto simp: keyed_get_None in_set_conv_nth)
  next
    case False
    have "keyed_get used key (xs[i := y]) k = keyed_get used key xs k"
    proof (rule keyed_get_eqI [OF ok' ok])
      fix e assume "used e" "key e = k"
      then have "e \<noteq> y" "e \<noteq> xs ! i" using k False by auto
      then show "e \<in> set (xs[i := y]) \<longleftrightarrow> e \<in> set xs" by (rule keyed_set_other [OF i])
    qed
    then show ?thesis using False by auto
  qed
qed

text \<open>The writer of such a table: the slot of the key, else a free one, else \<open>victim\<close> when there is one.\<close>

definition keyed_slot :: "('a \<Rightarrow> bool) \<Rightarrow> ('a \<Rightarrow> 'k) \<Rightarrow> 'a list \<Rightarrow> 'k \<Rightarrow> nat option" where
  "keyed_slot used key xs k = (case keyed_find used key xs k of Some i \<Rightarrow> Some i | None \<Rightarrow> find_idx (\<lambda>e. \<not> used e) xs)"

lemma keyed_slotD:
  assumes "keyed_ok used key xs" "keyed_slot used key xs k = Some i"
  shows "i < length xs \<and> (keyed_find used key xs k = None \<or> keyed_find used key xs k = Some i) \<and>
    (used (xs ! i) \<longrightarrow> key (xs ! i) = k)"
  using assms(2) by (auto simp: keyed_slot_def keyed_find_Some [OF assms(1)] find_idx_Some split: option.splits)

end
