(* ===== verification/Frame_Codec.thy ===== *)
theory Frame_Codec
  imports Nbp_Prelude
begin

text \<open>
  The plaintext aioesphomeapi frame codec, \<^verbatim>\<open>components/api_server/frame_codec.{h,cpp}\<close>:
  base-128 varints, the streaming frame reader over a caller-supplied \<open>ReadFn\<close>, and the in-place
  header writer. A \<open>ReadFn\<close> is a parameter \<open>'c \<Rightarrow> nat \<Rightarrow> read_result \<times> 'c\<close> (its context is threaded
  through); its documented contract is the locale \<open>stream_reader\<close>, in which the reader's behaviour on
  a byte stream is proved once, whatever the segmentation of the stream. Writes into the transmit
  buffer are bounds checked: \<open>None\<close> stands for a write outside the buffer, and \<open>size_t\<close> arithmetic
  wraps at 32 bits.
\<close>

section \<open>Data\<close>

datatype frame_error = Eof | SocketError | BadIndicator | VarintTooLong | MessageTooLarge

text \<open>What one \<open>ReadFn\<close> call reports: \<open>Rd bs\<close> is the return value \<open>length bs\<close> with those bytes
  stored (\<open>Rd []\<close> is the return value 0), \<open>Rd_fail\<close> a negative return value.\<close>

datatype read_result = Rd "u8 list" | Rd_fail

definition MAX_HEADER_LEN :: nat where "MAX_HEADER_LEN = 6"

record varint_parse =
  vp_value :: u32
  vp_consumed :: nat

section \<open>Varints\<close>

function encode_varint :: "u32 \<Rightarrow> u8 list" where
  "encode_varint v =
     (if v \<ge> 0x80 then ucast (v OR 0x80) # encode_varint (drop_bit 7 v) else [ucast v])"
  by auto

lemma drop_bit_7_less: "(v :: u32) \<ge> 0x80 \<Longrightarrow> unat (drop_bit 7 v) < unat v"
  by (simp add: unat_drop_bit word_le_nat_alt)

termination encode_varint
  by (relation "measure unat") (auto simp: drop_bit_7_less)

function varint_len :: "u32 \<Rightarrow> nat" where
  "varint_len v = (if v \<ge> 0x80 then Suc (varint_len (drop_bit 7 v)) else 1)"
  by auto

termination varint_len
  by (relation "measure unat") (auto simp: drop_bit_7_less)

declare encode_varint.simps [simp del] varint_len.simps [simp del]

text \<open>The loop of \<open>decode_varint\<close>: \<open>i\<close> bytes consumed so far, the bytes below \<open>cap\<close> still to visit.\<close>

fun decode_varint_loop :: "u32 \<Rightarrow> nat \<Rightarrow> nat \<Rightarrow> u8 list \<Rightarrow> varint_parse" where
  "decode_varint_loop v sh i [] = \<lparr>vp_value = 0, vp_consumed = 0\<rparr>"
| "decode_varint_loop v sh i (b # bs) =
     (let v' = v OR push_bit sh (ucast (b AND 0x7F)) in
      if b AND 0x80 = 0 then \<lparr>vp_value = v', vp_consumed = i + 1\<rparr>
      else if sh + 7 \<ge> 32 then \<lparr>vp_value = 0, vp_consumed = 0\<rparr>
      else decode_varint_loop v' (sh + 7) (i + 1) bs)"

definition decode_varint :: "u8 list \<Rightarrow> nat \<Rightarrow> varint_parse" where
  "decode_varint bs max_bytes =
     (let cap = (if length bs < max_bytes then length bs else max_bytes)
      in decode_varint_loop 0 0 0 (take cap bs))"

section \<open>The streaming reader\<close>

function read_exact :: "('c \<Rightarrow> nat \<Rightarrow> read_result \<times> 'c) \<Rightarrow> 'c \<Rightarrow> nat \<Rightarrow> (frame_error + u8 list) \<times> 'c" where
  "read_exact rf c n =
     (if n = 0 then (Inr [], c)
      else case rf c n of
        (Rd_fail, c') \<Rightarrow> (Inl SocketError, c')
      | (Rd bs, c') \<Rightarrow>
          if bs = [] then (Inl Eof, c')
          else (case read_exact rf c' (n - length bs) of
                  (Inl e, c'') \<Rightarrow> (Inl e, c'')
                | (Inr rest, c'') \<Rightarrow> (Inr (bs @ rest), c'')))"
  by pat_completeness auto

termination read_exact
  by (relation "measure (\<lambda>(rf, c, n). n)") (auto simp: Suc_le_eq)

declare read_exact.simps [simp del]

text \<open>\<open>k\<close> is the part of the byte budget \<open>max_bytes\<close> that is left.\<close>

fun read_varint_loop ::
  "('c \<Rightarrow> nat \<Rightarrow> read_result \<times> 'c) \<Rightarrow> 'c \<Rightarrow> u32 \<Rightarrow> nat \<Rightarrow> nat \<Rightarrow> (frame_error + u32) \<times> 'c" where
  "read_varint_loop rf c v sh 0 = (Inl VarintTooLong, c)"
| "read_varint_loop rf c v sh (Suc k) =
     (case read_exact rf c 1 of
        (Inl e, c') \<Rightarrow> (Inl e, c')
      | (Inr bs, c') \<Rightarrow>
          (let b = hd bs; v' = v OR push_bit sh (ucast (b AND 0x7F)) in
           if b AND 0x80 = 0 then (Inr v', c')
           else if sh + 7 \<ge> 32 then (Inl VarintTooLong, c')
           else read_varint_loop rf c' v' (sh + 7) k))"

definition read_varint_streaming ::
  "('c \<Rightarrow> nat \<Rightarrow> read_result \<times> 'c) \<Rightarrow> 'c \<Rightarrow> nat \<Rightarrow> (frame_error + u32) \<times> 'c" where
  "read_varint_streaming rf c max_bytes = read_varint_loop rf c 0 0 max_bytes"

definition read_frame ::
  "('c \<Rightarrow> nat \<Rightarrow> read_result \<times> 'c) \<Rightarrow> 'c \<Rightarrow> nat \<Rightarrow> (frame_error + u16 \<times> u8 list) \<times> 'c" where
  "read_frame rf c payload_cap =
     (case read_exact rf c 1 of
        (Inl e, c1) \<Rightarrow> (Inl e, c1)
      | (Inr ind, c1) \<Rightarrow>
          if hd ind \<noteq> 0 then (Inl BadIndicator, c1)
          else (case read_varint_streaming rf c1 3 of
            (Inl e, c2) \<Rightarrow> (Inl e, c2)
          | (Inr sz, c2) \<Rightarrow>
              (case read_varint_streaming rf c2 2 of
                 (Inl e, c3) \<Rightarrow> (Inl e, c3)
               | (Inr ty, c3) \<Rightarrow>
                   if ty > 0xFFFF then (Inl VarintTooLong, c3)
                   else if unat sz > payload_cap then (Inl MessageTooLarge, c3)
                   else (case read_exact rf c3 (unat sz) of
                           (Inl e, c4) \<Rightarrow> (Inl e, c4)
                         | (Inr payload, c4) \<Rightarrow> (Inr (ucast ty, payload), c4)))))"

section \<open>The header writer\<close>

definition write_bytes :: "u8 list \<Rightarrow> nat \<Rightarrow> u8 list \<Rightarrow> u8 list option" where
  "write_bytes buf pos bs =
     (if pos + length bs \<le> length buf then Some (take pos buf @ bs @ drop (pos + length bs) buf)
      else None)"

definition size_sub :: "nat \<Rightarrow> nat \<Rightarrow> nat" where
  "size_sub a b = unat (of_nat a - of_nat b :: u32)"

definition size_add :: "nat \<Rightarrow> nat \<Rightarrow> nat" where
  "size_add a b = unat (of_nat a + of_nat b :: u32)"

definition prepend_header :: "u8 list \<Rightarrow> u16 \<Rightarrow> nat \<Rightarrow> (u8 list \<times> nat) option" where
  "prepend_header buf msg_type payload_len =
     (let size_vl = varint_len (of_nat payload_len);
          type_vl = varint_len (ucast msg_type);
          header_len = 1 + size_vl + type_vl;
          start = size_sub MAX_HEADER_LEN header_len
      in case write_bytes buf start [0] of
           None \<Rightarrow> None
         | Some b1 \<Rightarrow>
             (case write_bytes b1 (size_add start 1) (encode_varint (of_nat payload_len)) of
                None \<Rightarrow> None
              | Some b2 \<Rightarrow>
                  (case write_bytes b2 (size_add (size_add start 1) size_vl) (encode_varint (ucast msg_type)) of
                     None \<Rightarrow> None
                   | Some b3 \<Rightarrow> Some (b3, start))))"

section \<open>Varint lemmas\<close>

lemma encode_varint_length: "length (encode_varint v) = varint_len v"
proof (induction v rule: encode_varint.induct)
  case (1 v)
  then show ?case by (cases "v \<ge> 0x80") (simp_all add: encode_varint.simps [of v] varint_len.simps [of v])
qed

lemma varint_len_le: "unat v < 128 ^ k \<Longrightarrow> 0 < k \<Longrightarrow> varint_len v \<le> k"
proof (induction v arbitrary: k rule: varint_len.induct)
  case (1 v)
  show ?case
  proof (cases "v \<ge> 0x80")
    case True
    then have ge: "unat v \<ge> 128" by (simp add: word_le_nat_alt)
    obtain j where k: "k = Suc j" using 1(3) by (cases k) auto
    have "j \<noteq> 0" using ge 1(2) k by (cases j) auto
    moreover have "unat (drop_bit 7 v) < 128 ^ j"
      using 1(2) k by (simp add: unat_drop_bit less_mult_imp_div_less mult.commute)
    ultimately show ?thesis using 1(1) [OF True, of j] True k by (simp add: varint_len.simps [of v])
  next
    case False
    then show ?thesis using 1(3) by (simp add: varint_len.simps [of v])
  qed
qed

lemma varint_len_pos: "0 < varint_len v"
  by (simp add: varint_len.simps [of v])

lemma varint_len_bounds:
  "varint_len v \<le> 5"
  "unat v < 2 ^ 21 \<Longrightarrow> varint_len v \<le> 3"
  "unat v < 2 ^ 14 \<Longrightarrow> varint_len v \<le> 2"
proof -
  have "unat v < 128 ^ 5" using unsigned_less [of v, where 'a = nat] by simp
  then show "varint_len v \<le> 5" by (rule varint_len_le) simp
next
  show "unat v < 2 ^ 21 \<Longrightarrow> varint_len v \<le> 3" by (rule varint_len_le) simp_all
next
  show "unat v < 2 ^ 14 \<Longrightarrow> varint_len v \<le> 2" by (rule varint_len_le) simp_all
qed

text \<open>The bit facts behind one step of the encoder: the low seven bits travel in the byte, bit 7 says
  whether another byte follows.\<close>

lemma bit_mask7: "bit (0x7F :: 'a::len word) n \<longleftrightarrow> n < 7 \<and> n < LENGTH('a)"
proof -
  have "(0x7F :: 'a word) = mask 7" by (simp add: mask_eq_exp_minus_1)
  then show ?thesis by (metis bit_mask_iff possible_bit_word)
qed

lemma bit_0x80: "bit (0x80 :: 'a::len word) n \<longleftrightarrow> n = 7 \<and> n < LENGTH('a)"
proof -
  have "(0x80 :: 'a word) = 2 ^ 7" by simp
  then show ?thesis by (metis bit_exp_iff possible_bit_word)
qed

lemma cont_payload: "ucast ((ucast (v OR 0x80) :: u8) AND 0x7F) = (v AND 0x7F :: u32)"
  by (rule bit_word_eqI) (auto simp: bit_simps bit_mask7 bit_0x80 simp del: bit_numeral_word_iff)

lemma cont_flag: "(ucast (v OR 0x80 :: u32) :: u8) AND 0x80 \<noteq> 0"
proof -
  have "bit ((ucast (v OR 0x80 :: u32) :: u8) AND 0x80) 7" by (simp add: bit_simps bit_0x80 del: bit_numeral_word_iff)
  then show ?thesis by auto
qed

lemma last_payload: "v < 0x80 \<Longrightarrow> ucast ((ucast v :: u8) AND 0x7F) = (v :: u32)"
  and last_flag: "v < 0x80 \<Longrightarrow> (ucast v :: u8) AND 0x80 = 0"
proof -
  assume v: "v < 0x80"
  have "unat (drop_bit 7 v) = 0" using v by (simp add: unat_drop_bit word_less_nat_alt)
  then have m: "take_bit 7 v = v" by (metis take_bit_eq_self_iff_drop_bit_eq_0 unsigned_eq_0_iff)
  have b: "bit v n \<Longrightarrow> n < 7" for n using m by (metis bit_take_bit_iff)
  show "ucast ((ucast v :: u8) AND 0x7F) = v"
    by (rule bit_word_eqI) (auto simp: bit_simps bit_mask7 simp del: bit_numeral_word_iff dest: b)
  show "(ucast v :: u8) AND 0x80 = 0"
    by (rule bit_word_eqI) (auto simp: bit_simps bit_0x80 simp del: bit_numeral_word_iff dest: b)
qed

lemma low_high_join: "push_bit s (v AND 0x7F) OR push_bit (s + 7) (drop_bit 7 v) = push_bit s (v :: u32)"
proof (rule bit_word_eqI)
  fix n assume "n < LENGTH(32)"
  then show "bit (push_bit s (v AND 0x7F) OR push_bit (s + 7) (drop_bit 7 v)) n \<longleftrightarrow> bit (push_bit s v) n"
    by (cases "n < s + 7") (auto simp: bit_simps bit_mask7 simp del: bit_numeral_word_iff)
qed

lemma high_part_fits: "unat v < 2 ^ (32 - s) \<Longrightarrow> (v :: u32) \<ge> 0x80 \<Longrightarrow> s + 7 < 32"
proof (rule ccontr)
  assume a: "unat v < 2 ^ (32 - s)" "v \<ge> 0x80" "\<not> s + 7 < 32"
  then have "(2::nat) ^ (32 - s) \<le> 2 ^ 7" by (intro power_increasing) auto
  with a show False by (simp add: word_le_nat_alt)
qed

lemma high_part_bound: "unat v < 2 ^ (32 - s) \<Longrightarrow> s + 7 < 32 \<Longrightarrow> unat (drop_bit 7 (v :: u32)) < 2 ^ (32 - (s + 7))"
proof -
  assume "unat v < 2 ^ (32 - s)" "s + 7 < 32"
  moreover have "(2::nat) ^ (32 - s) = 2 ^ (32 - (s + 7)) * 2 ^ 7"
    using \<open>s + 7 < 32\<close> by (subst power_add [symmetric]) (rule arg_cong [where f = "power 2"], simp)
  ultimately show ?thesis by (simp add: unat_drop_bit less_mult_imp_div_less)
qed

lemma decode_encode_loop:
  assumes "unat v < 2 ^ (32 - s)"
  shows "decode_varint_loop acc s i (encode_varint v @ rest)
       = \<lparr>vp_value = acc OR push_bit s v, vp_consumed = i + varint_len v\<rparr>"
  using assms
proof (induction v arbitrary: acc s i rule: encode_varint.induct)
  case (1 v)
  show ?case
  proof (cases "v \<ge> 0x80")
    case True
    have s: "s + 7 < 32" using high_part_fits [OF 1(2) True] .
    show ?thesis
      using 1(1) [OF True high_part_bound [OF 1(2) s]] True s
      by (simp add: encode_varint.simps [of v] varint_len.simps [of v] Let_def cont_payload cont_flag
          or.assoc low_high_join del: One_nat_def push_bit_and)
  next
    case False
    then show ?thesis
      by (simp add: encode_varint.simps [of v] varint_len.simps [of v] last_payload last_flag)
  qed
qed

section \<open>The reader on a byte stream\<close>

text \<open>
  The contract of a \<open>ReadFn\<close> (\<^verbatim>\<open>frame_codec.h\<close>: "returns the number of bytes read, 0 on clean EOF,
  negative on error; may short-read"). \<open>pending c\<close> are the bytes the peer has sent and the reader has
  not consumed. Nothing is said about how many of them one call returns.
\<close>

locale stream_reader =
  fixes rd :: "'c \<Rightarrow> nat \<Rightarrow> read_result \<times> 'c"
    and pending :: "'c \<Rightarrow> u8 list"
  assumes rd_data: "pending c \<noteq> [] \<Longrightarrow> 0 < n \<Longrightarrow>
      \<exists>bs c'. rd c n = (Rd bs, c') \<and> bs \<noteq> [] \<and> length bs \<le> n \<and> pending c = bs @ pending c'"
    and rd_end: "pending c = [] \<Longrightarrow> 0 < n \<Longrightarrow> \<exists>c'. rd c n = (Rd [], c') \<and> pending c' = []"
begin

lemma read_exact_enough:
  "n \<le> length (pending c) \<Longrightarrow>
     \<exists>c'. read_exact rd c n = (Inr (take n (pending c)), c') \<and> pending c' = drop n (pending c)"
proof (induction n arbitrary: c rule: less_induct)
  case (less n)
  show ?case
  proof (cases "n = 0")
    case True
    then show ?thesis by (simp add: read_exact.simps)
  next
    case False
    with less.prems have "pending c \<noteq> []" by auto
    then obtain bs c1 where r: "rd c n = (Rd bs, c1)" "bs \<noteq> []" "length bs \<le> n" "pending c = bs @ pending c1"
      using rd_data [of c n] False by auto
    have lt: "n - length bs < n" using r(2) False by (cases bs) auto
    have le: "n - length bs \<le> length (pending c1)" using less.prems r(4) by simp
    obtain c2 where "read_exact rd c1 (n - length bs) = (Inr (take (n - length bs) (pending c1)), c2)"
      "pending c2 = drop (n - length bs) (pending c1)"
      using less.IH [OF lt le] by blast
    then show ?thesis using False r by (simp add: read_exact.simps [of rd c n])
  qed
qed

lemma read_exact_short:
  "length (pending c) < n \<Longrightarrow> \<exists>c'. read_exact rd c n = (Inl Eof, c') \<and> pending c' = []"
proof (induction n arbitrary: c rule: less_induct)
  case (less n)
  show ?case
  proof (cases "pending c = []")
    case True
    then show ?thesis using rd_end [of c n] less.prems by (auto simp: read_exact.simps [of rd c n])
  next
    case False
    then obtain bs c1 where r: "rd c n = (Rd bs, c1)" "bs \<noteq> []" "length bs \<le> n" "pending c = bs @ pending c1"
      using rd_data [of c n] less.prems by auto
    have lt: "n - length bs < n" using r(2) less.prems by (cases bs) auto
    have le: "length (pending c1) < n - length bs" using less.prems r(4) by simp
    obtain c2 where "read_exact rd c1 (n - length bs) = (Inl Eof, c2)" "pending c2 = []"
      using less.IH [OF lt le] by blast
    then show ?thesis using less.prems r by (simp add: read_exact.simps [of rd c n])
  qed
qed

lemma read_exact_append:
  "pending c = xs @ rest \<Longrightarrow>
     \<exists>c'. read_exact rd c (length xs) = (Inr xs, c') \<and> pending c' = rest"
  using read_exact_enough [of "length xs" c] by auto

lemma read_byte: "pending c = b # rest \<Longrightarrow> \<exists>c'. read_exact rd c 1 = (Inr [b], c') \<and> pending c' = rest"
  using read_exact_append [of c "[b]"] by simp

text \<open>The streaming varint reader consumes exactly the encoding.\<close>

lemma read_varint_loop_encode:
  assumes "unat v < 2 ^ (32 - s)" "pending c = encode_varint v @ rest" "varint_len v \<le> k"
  shows "\<exists>c'. read_varint_loop rd c acc s k = (Inr (acc OR push_bit s v), c') \<and> pending c' = rest"
  using assms
proof (induction v arbitrary: acc s k c rule: encode_varint.induct)
  case (1 v)
  obtain k' where k: "k = Suc k'" using 1(4) varint_len_pos [of v] by (cases k) auto
  show ?case
  proof (cases "v \<ge> 0x80")
    case True
    have s: "s + 7 < 32" using high_part_fits [OF 1(2) True] .
    have pc: "pending c = ucast (v OR 0x80) # encode_varint (drop_bit 7 v) @ rest"
      using 1(3) True by (simp add: encode_varint.simps [of v])
    obtain c1 where c1: "read_exact rd c 1 = (Inr [ucast (v OR 0x80)], c1)"
      "pending c1 = encode_varint (drop_bit 7 v) @ rest"
      using read_byte [OF pc] by blast
    have len: "varint_len (drop_bit 7 v) \<le> k'" using 1(4) True k by (simp add: varint_len.simps [of v])
    obtain c2 where "read_varint_loop rd c1 (acc OR push_bit s (v AND 0x7F)) (s + 7) k'
        = (Inr ((acc OR push_bit s (v AND 0x7F)) OR push_bit (s + 7) (drop_bit 7 v)), c2)" "pending c2 = rest"
      using 1(1) [OF True high_part_bound [OF 1(2) s] c1(2) len] by blast
    then show ?thesis using c1(1) k s
      by (simp add: cont_payload cont_flag or.assoc low_high_join del: push_bit_and One_nat_def)
  next
    case False
    then have "pending c = ucast v # rest" using 1(3) by (simp add: encode_varint.simps [of v])
    then obtain c1 where "read_exact rd c 1 = (Inr [ucast v], c1)" "pending c1 = rest"
      using read_byte by blast
    then show ?thesis using False k by (simp add: last_payload last_flag del: One_nat_def)
  qed
qed

lemma read_varint_encode:
  assumes "pending c = encode_varint v @ rest" "varint_len v \<le> k"
  shows "\<exists>c'. read_varint_streaming rd c k = (Inr v, c') \<and> pending c' = rest"
  using read_varint_loop_encode [of v 0 c rest k 0] assms unsigned_less [of v, where 'a = nat]
  by (simp add: read_varint_streaming_def)

lemma read_frame_encoded:
  assumes "pending c = 0 # encode_varint (of_nat (length payload)) @ encode_varint (ucast ty) @ payload @ rest"
    and "length payload < 2 ^ 21" "unat ty < 2 ^ 14"
  shows "\<exists>c'. read_frame rd c cap =
      (if length payload \<le> cap then Inr (ty, payload) else Inl MessageTooLarge, c') \<and>
      pending c' = (if length payload \<le> cap then rest else payload @ rest)"
proof -
  let ?sz = "of_nat (length payload) :: u32" and ?ty = "ucast (ty :: u16) :: u32"
  have sz: "unat ?sz = length payload" using assms(2) by (simp add: unat_of_nat)
  have ty: "unat ?ty = unat ty" by (rule unat_ucast_u16_u32)
  obtain c1 where c1: "read_exact rd c 1 = (Inr [0], c1)"
    "pending c1 = encode_varint ?sz @ encode_varint ?ty @ payload @ rest"
    using read_byte [OF assms(1)] by blast
  obtain c2 where c2: "read_varint_streaming rd c1 3 = (Inr ?sz, c2)" "pending c2 = encode_varint ?ty @ payload @ rest"
    using read_varint_encode [OF c1(2)] varint_len_bounds(2) [of ?sz] sz assms(2) by auto
  obtain c3 where c3: "read_varint_streaming rd c2 2 = (Inr ?ty, c3)" "pending c3 = payload @ rest"
    using read_varint_encode [OF c2(2)] varint_len_bounds(3) [of ?ty] ty assms(3) by auto
  obtain c4 where c4: "read_exact rd c3 (unat ?sz) = (Inr payload, c4)" "pending c4 = rest"
    using read_exact_append [OF c3(2)] sz by auto
  have "\<not> ?ty > 0xFFFF" using ty assms(3) by (simp add: word_less_nat_alt)
  then show ?thesis using c1(1) c2(1) c3 c4 sz
    by (simp add: read_frame_def ucast_u16_u32_u16 del: One_nat_def)
qed

end

text \<open>The receive side of a TCP socket: the segments that have arrived, in order. One \<open>recv\<close> returns
  at most one segment's worth of bytes, and 0 when the peer has closed and nothing is queued.\<close>

fun seg_recv :: "u8 list list \<Rightarrow> nat \<Rightarrow> read_result \<times> u8 list list" where
  "seg_recv [] n = (Rd [], [])"
| "seg_recv (s # ss) n =
     (if s = [] then seg_recv ss n
      else (Rd (take n s), if drop n s = [] then ss else drop n s # ss))"

lemma seg_recv_data:
  "concat c \<noteq> [] \<Longrightarrow> 0 < n \<Longrightarrow>
     \<exists>bs c'. seg_recv c n = (Rd bs, c') \<and> bs \<noteq> [] \<and> length bs \<le> n \<and> concat c = bs @ concat c'"
proof (induction c)
  case (Cons s ss)
  show ?case
  proof (cases "s = []")
    case True
    with Cons show ?thesis by simp
  next
    case False
    with Cons.prems show ?thesis by (cases "drop n s = []") auto
  qed
qed simp

lemma seg_recv_end: "concat c = [] \<Longrightarrow> \<exists>c'. seg_recv c n = (Rd [], c') \<and> concat c' = []"
  by (induction c) auto

interpretation seg: stream_reader seg_recv concat
  by unfold_locales (auto intro: seg_recv_data seg_recv_end simp del: concat_eq_Nil_conv)

section \<open>Header writer lemmas\<close>

lemma size_sub_le [word_norm]: "b \<le> a \<Longrightarrow> a < 2 ^ 32 \<Longrightarrow> size_sub a b = a - b"
proof -
  assume "b \<le> a" "a < 2 ^ 32"
  then have "of_nat a - of_nat b = (of_nat (a - b) :: u32)" by (simp add: of_nat_diff)
  moreover have "unat (of_nat (a - b) :: u32) = a - b"
    using \<open>a < 2 ^ 32\<close> by (intro unat_of_nat_u32) simp
  ultimately show ?thesis by (simp only: size_sub_def)
qed

lemma size_sub_wraps: "a < b \<Longrightarrow> b < 2 ^ 32 \<Longrightarrow> size_sub a b = a + 2 ^ 32 - b"
proof -
  assume a: "a < b" "b < 2 ^ 32"
  have "of_nat a - of_nat b = (of_nat (a + 2 ^ 32 - b) :: u32)"
    using a by (simp add: of_nat_diff)
  moreover have "unat (of_nat (a + 2 ^ 32 - b) :: u32) = a + 2 ^ 32 - b"
    using a by (intro unat_of_nat_u32) simp
  ultimately show ?thesis by (simp only: size_sub_def)
qed

lemma size_add_le [word_norm]: "a + b < 2 ^ 32 \<Longrightarrow> size_add a b = a + b"
  by (simp add: size_add_def unat_of_nat flip: of_nat_add)

lemma write_bytes_SomeD:
  "write_bytes buf pos bs = Some buf' \<Longrightarrow>
     pos + length bs \<le> length buf \<and> length buf' = length buf \<and> take pos buf' = take pos buf \<and>
     drop pos buf' = bs @ drop (pos + length bs) buf"
  by (auto simp: write_bytes_def split: if_splits)

lemma write_bytes_append:
  assumes "write_bytes buf pos a = Some b1"
  shows "write_bytes b1 (pos + length a) b = write_bytes buf pos (a @ b)"
proof -
  have "pos + length a \<le> length buf" and b1: "b1 = take pos buf @ a @ drop (pos + length a) buf"
    using assms by (auto simp: write_bytes_def split: if_splits)
  then show ?thesis by (auto simp: write_bytes_def min_absorb2 drop_drop ac_simps)
qed

text \<open>Within the byte budgets (3 for the size, 2 for the type) the header ends exactly where the
  payload starts, every write is inside the buffer and the payload is untouched.\<close>

lemma prepend_header_Some:
  assumes "MAX_HEADER_LEN \<le> length buf"
    and "1 + varint_len (of_nat n) + varint_len (ucast ty) \<le> MAX_HEADER_LEN"
  shows "\<exists>buf' start. prepend_header buf ty n = Some (buf', start) \<and>
     start + (1 + varint_len (of_nat n) + varint_len (ucast ty)) = MAX_HEADER_LEN \<and>
     length buf' = length buf \<and> take start buf' = take start buf \<and>
     drop start buf' = 0 # encode_varint (of_nat n) @ encode_varint (ucast ty) @ drop MAX_HEADER_LEN buf"
proof -
  let ?sz = "of_nat n :: u32" and ?ty = "ucast (ty :: u16) :: u32"
  define st where "st = MAX_HEADER_LEN - (1 + varint_len ?sz + varint_len ?ty)"
  have st: "st + (1 + varint_len ?sz + varint_len ?ty) = 6"
    using assms(2) by (simp add: st_def MAX_HEADER_LEN_def)
  have start: "size_sub MAX_HEADER_LEN (1 + varint_len ?sz + varint_len ?ty) = st"
    using assms(2) unfolding st_def by (intro size_sub_le) (simp_all add: MAX_HEADER_LEN_def)
  have wrap: "size_add st 1 = st + 1" "size_add (st + 1) (varint_len ?sz) = st + 1 + varint_len ?sz"
    using st by (simp_all add: size_add_le)
  have buf: "6 \<le> length buf" using assms(1) by (simp add: MAX_HEADER_LEN_def)
  let ?hd = "0 # encode_varint ?sz @ encode_varint ?ty"
  have len: "st + length ?hd = 6" using st by (simp add: encode_varint_length)
  obtain b1 where b1: "write_bytes buf st [0] = Some b1" using st buf by (simp add: write_bytes_def)
  obtain b2 where b2: "write_bytes b1 (st + 1) (encode_varint ?sz) = Some b2"
    using write_bytes_append [OF b1, of "encode_varint ?sz"] len buf by (simp add: write_bytes_def)
  obtain b3 where b3: "write_bytes b2 (st + 1 + varint_len ?sz) (encode_varint ?ty) = Some b3"
    and b3': "write_bytes buf st ?hd = Some b3"
    using write_bytes_append [OF b2, of "encode_varint ?ty"]
      write_bytes_append [OF b1, of "encode_varint ?sz @ encode_varint ?ty"] len buf
    by (simp add: write_bytes_def encode_varint_length add.assoc)
  have "prepend_header buf ty n = Some (b3, st)"
    unfolding prepend_header_def Let_def start wrap by (simp add: b1 b2 [simplified] b3 [simplified])
  then show ?thesis using write_bytes_SomeD [OF b3'] st len by (auto simp: MAX_HEADER_LEN_def)
qed

lemma prepend_header_fits:
  assumes "MAX_HEADER_LEN \<le> length buf" "n < 2 ^ 21" "unat ty < 2 ^ 14"
  shows "\<exists>buf' start. prepend_header buf ty n = Some (buf', start) \<and>
     start + (1 + varint_len (of_nat n) + varint_len (ucast ty)) = MAX_HEADER_LEN \<and>
     length buf' = length buf \<and> take start buf' = take start buf \<and>
     drop start buf' = 0 # encode_varint (of_nat n) @ encode_varint (ucast ty) @ drop MAX_HEADER_LEN buf"
proof (rule prepend_header_Some [OF assms(1)])
  have "varint_len (of_nat n) \<le> 3"
    using assms(2) by (intro varint_len_bounds(2)) (simp add: unat_of_nat)
  moreover have "varint_len (ucast ty) \<le> 2"
    using assms(3) by (intro varint_len_bounds(3)) (simp add: unat_ucast_u16_u32)
  ultimately show "1 + varint_len (of_nat n) + varint_len (ucast ty) \<le> MAX_HEADER_LEN"
    by (simp add: MAX_HEADER_LEN_def)
qed

section \<open>A reference parser\<close>

text \<open>What a frame reader should make of a byte string, with no streaming in it: the size and the type
  decoded by \<open>decode_varint\<close> within their budgets, the checks in the order the protocol gives them.
  The second component is what is left of the string (nothing after a premature end).\<close>

definition parse_varint :: "nat \<Rightarrow> u8 list \<Rightarrow> (frame_error + u32) \<times> u8 list" where
  "parse_varint k bs =
     (let p = decode_varint bs k in
      if 0 < vp_consumed p then (Inr (vp_value p), drop (vp_consumed p) bs)
      else if length bs < k then (Inl Eof, []) else (Inl VarintTooLong, drop k bs))"

definition parse_frame :: "u8 list \<Rightarrow> nat \<Rightarrow> (frame_error + u16 \<times> u8 list) \<times> u8 list" where
  "parse_frame bs cap =
     (if bs = [] then (Inl Eof, [])
      else if hd bs \<noteq> 0 then (Inl BadIndicator, tl bs)
      else case parse_varint 3 (tl bs) of
        (Inl e, r) \<Rightarrow> (Inl e, r)
      | (Inr sz, r) \<Rightarrow>
          (case parse_varint 2 r of
             (Inl e, r) \<Rightarrow> (Inl e, r)
           | (Inr ty, r) \<Rightarrow>
               if ty > 0xFFFF then (Inl VarintTooLong, r)
               else if unat sz > cap then (Inl MessageTooLarge, r)
               else if length r < unat sz then (Inl Eof, [])
               else (Inr (ucast ty, take (unat sz) r), drop (unat sz) r)))"

text \<open>The loop invariant that ties the streaming reader to \<open>decode_varint_loop\<close>; the shift stays
  below 32 because the budget does.\<close>

lemma drop_Cons_shift: "i + 1 < m \<Longrightarrow> drop (m - i) (b # xs) = drop (m - (i + 1)) xs"
proof -
  assume "i + 1 < m"
  then have "m - i = Suc (m - (i + 1))" by simp
  then show ?thesis by simp
qed

lemma take_if_less: "take (if length bs < k then length bs else k) bs = take k bs"
  by simp

context stream_reader
begin

lemma read_varint_loop_ref:
  assumes "s + 7 * k < 32"
  shows "\<exists>c'. read_varint_loop rd c v s k =
      ((let p = decode_varint_loop v s i (take k (pending c)) in
        if 0 < vp_consumed p then Inr (vp_value p)
        else if length (pending c) < k then Inl Eof else Inl VarintTooLong), c') \<and>
      pending c' = (let p = decode_varint_loop v s i (take k (pending c)) in
        if 0 < vp_consumed p then drop (vp_consumed p - i) (pending c)
        else if length (pending c) < k then [] else drop k (pending c)) \<and>
      (0 < vp_consumed (decode_varint_loop v s i (take k (pending c))) \<longrightarrow>
        i < vp_consumed (decode_varint_loop v s i (take k (pending c))))"
  using assms
proof (induction k arbitrary: c v s i)
  case (Suc k)
  show ?case
  proof (cases "pending c")
    case Nil
    then show ?thesis using read_exact_short [of c 1] by auto
  next
    case (Cons b rest)
    obtain c1 where c1: "read_exact rd c 1 = (Inr [b], c1)" "pending c1 = rest"
      using read_byte [OF Cons] by blast
    let ?v = "v OR push_bit s (ucast (b AND 0x7F))"
    show ?thesis
    proof (cases "b AND 0x80 = 0")
      case True
      then show ?thesis using c1 [simplified] Cons by (simp add: Let_def)
    next
      case False
      have "s + 7 + 7 * k < 32" "\<not> 32 \<le> s + 7" using Suc.prems by auto
      with Suc.IH [of "s + 7" c1 ?v "i + 1"] c1 Cons False show ?thesis
        by (auto simp: Let_def drop_Cons_shift simp del: One_nat_def split: if_splits)
    qed
  qed
qed simp

lemma read_varint_ref:
  assumes "k \<le> 4"
  shows "\<exists>c'. read_varint_streaming rd c k = (fst (parse_varint k (pending c)), c') \<and>
     pending c' = snd (parse_varint k (pending c))"
  using read_varint_loop_ref [of 0 k c 0 0] assms
  by (auto simp: read_varint_streaming_def parse_varint_def decode_varint_def take_if_less Let_def
      simp del: take_all_iff split: if_splits)

lemma read_exact_ref:
  "\<exists>c'. read_exact rd c n =
      (if length (pending c) < n then Inl Eof else Inr (take n (pending c)), c') \<and>
      pending c' = (if length (pending c) < n then [] else drop n (pending c))"
  using read_exact_short [of c n] read_exact_enough [of n c] by (cases "length (pending c) < n") auto

lemma read_frame_ref:
  "\<exists>c'. read_frame rd c cap = (fst (parse_frame (pending c) cap), c') \<and>
      pending c' = snd (parse_frame (pending c) cap)"
proof (cases "pending c")
  case Nil
  then show ?thesis using read_exact_short [of c 1] by (auto simp: read_frame_def parse_frame_def)
next
  case (Cons b bs)
  obtain c1 where c1: "read_exact rd c 1 = (Inr [b], c1)" "pending c1 = bs"
    using read_byte [OF Cons] by blast
  obtain c2 where c2: "read_varint_streaming rd c1 3 = (fst (parse_varint 3 bs), c2)"
    "pending c2 = snd (parse_varint 3 bs)"
    using read_varint_ref [of 3 c1] c1(2) by auto
  obtain c3 where c3: "read_varint_streaming rd c2 2 = (fst (parse_varint 2 (pending c2)), c3)"
    "pending c3 = snd (parse_varint 2 (pending c2))"
    using read_varint_ref [of 2 c2] by auto
  show ?thesis
  proof (cases "\<exists>sz r ty r'. parse_varint 3 bs = (Inr sz, r) \<and> parse_varint 2 r = (Inr ty, r')")
    case True
    then obtain sz r ty r' where p: "parse_varint 3 bs = (Inr sz, r)" "parse_varint 2 r = (Inr ty, r')" by blast
    obtain c4 where "read_exact rd c3 (unat sz) =
        (if length r' < unat sz then Inl Eof else Inr (take (unat sz) r'), c4)"
      "pending c4 = (if length r' < unat sz then [] else drop (unat sz) r')"
      using read_exact_ref [of c3 "unat sz"] c3(2) c2(2) p by auto
    then show ?thesis using Cons c1 c2 c3 p
      by (auto simp: read_frame_def parse_frame_def simp del: One_nat_def)
  next
    case False
    then show ?thesis using Cons c1 c2 c3
      by (auto simp: read_frame_def parse_frame_def simp del: One_nat_def split: prod.splits sum.splits)
  qed
qed

end

section \<open>Properties\<close>

text \<open>C2: frames survive the wire. A payload that sits behind the reserved header space is framed in
  place by \<open>prepend_header\<close>; whoever reads the bytes from the frame's start with \<open>read_frame\<close>, over any
  reader that meets the \<open>ReadFn\<close> contract and hence for every segmentation of the stream, gets back
  exactly the message type and the payload, and the stream is left at the next frame.\<close>

theorem frame_roundtrip:
  assumes "stream_reader rd pending"
    and "MAX_HEADER_LEN + n \<le> length buf" "n \<le> cap" "n < 2 ^ 21" "unat ty < 2 ^ 14"
    and "prepend_header buf ty n = Some (buf', start)"
    and "pending c = take (MAX_HEADER_LEN - start + n) (drop start buf') @ rest"
  shows "\<exists>c'. read_frame rd c cap = (Inr (ty, take n (drop MAX_HEADER_LEN buf)), c') \<and> pending c' = rest"
proof -
  let ?h = "0 # encode_varint (of_nat n) @ encode_varint (ucast ty)"
  have *: "start + length ?h = MAX_HEADER_LEN" "drop start buf' = ?h @ drop MAX_HEADER_LEN buf"
    using prepend_header_fits [of buf n ty] assms by (auto simp: encode_varint_length)
  from *(1) have len: "MAX_HEADER_LEN - start = length ?h" by linarith
  have p: "pending c = ?h @ take n (drop MAX_HEADER_LEN buf) @ rest"
    using assms(7) unfolding *(2) len take_append by simp
  have "length (take n (drop MAX_HEADER_LEN buf)) = n" using assms(2) by simp
  then show ?thesis
    using stream_reader.read_frame_encoded [OF assms(1), of c "take n (drop MAX_HEADER_LEN buf)" ty rest cap]
      p assms(3-5) by simp
qed

definition hello_tx_buf :: "u8 list" where
  "hello_tx_buf = replicate 6 0xEE @ [0x08, 0x01, 0x10, 0x0E]"

theorem frame_roundtrip_witness:
  "\<exists>c'. read_frame seg_recv [[0], [4, 2, 0x08], [0x01, 0x10, 0x0E, 0, 0], [7]] 2048
       = (Inr (2, [0x08, 0x01, 0x10, 0x0E]), c') \<and> concat c' = [0, 0, 7]"
proof -
  have h: "prepend_header hello_tx_buf 2 4 = Some (replicate 3 0xEE @ [0, 4, 2, 0x08, 0x01, 0x10, 0x0E], 3)"
    by code_simp
  show ?thesis
    using frame_roundtrip [OF seg.stream_reader_axioms _ _ _ _ h,
        of 2048 "[[0], [4, 2, 0x08], [0x01, 0x10, 0x0E, 0, 0], [7]]" "[0, 0, 7]"]
    by (simp add: hello_tx_buf_def MAX_HEADER_LEN_def)
qed



text \<open>Every 32-bit value survives the varint codec, with any bytes after it; the decoder consumes
  exactly the bytes the encoder wrote, whose number is \<open>varint_len\<close> and at most five.\<close>

theorem varint_roundtrip:
  assumes "5 \<le> max_bytes"
  shows "decode_varint (encode_varint v @ rest) max_bytes
       = \<lparr>vp_value = v, vp_consumed = length (encode_varint v)\<rparr> \<and>
     length (encode_varint v) = varint_len v \<and> varint_len v \<le> 5"
proof -
  have l: "varint_len v \<le> max_bytes" using varint_len_bounds(1) [of v] assms by simp
  then have "take max_bytes (encode_varint v @ rest) = encode_varint v @ take (max_bytes - varint_len v) rest"
    by (simp add: encode_varint_length)
  then show ?thesis
    using decode_encode_loop [of v 0 0 0] unsigned_less [of v, where 'a = nat] varint_len_bounds(1) [of v]
    unfolding decode_varint_def Let_def take_if_less
    by (simp add: encode_varint_length)
qed

theorem varint_roundtrip_witness:
  "decode_varint (encode_varint 0xFFFFFFFF @ [1]) 5 = \<lparr>vp_value = 0xFFFFFFFF, vp_consumed = 5\<rparr>"
proof -
  have "length (encode_varint 0xFFFFFFFF) = 5" by code_simp
  then show ?thesis using varint_roundtrip [of 5 "0xFFFFFFFF" "[1]"] by simp
qed

text \<open>The header writer stays inside the transmit buffer exactly when the two varints together take
  at most five bytes; otherwise the start offset wraps below zero and the first store is outside it.\<close>

theorem prepend_header_in_bounds:
  assumes "MAX_HEADER_LEN \<le> length buf" "length buf + MAX_HEADER_LEN < 2 ^ 32"
  shows "prepend_header buf ty n \<noteq> None \<longleftrightarrow>
     1 + varint_len (of_nat n) + varint_len (ucast ty) \<le> MAX_HEADER_LEN"
proof (cases "1 + varint_len (of_nat n) + varint_len (ucast ty) \<le> MAX_HEADER_LEN")
  case True
  have "prepend_header buf ty n \<noteq> None" using prepend_header_Some [OF assms(1) True] by auto
  with True show ?thesis by simp
next
  case False
  let ?h = "1 + varint_len (of_nat n) + varint_len (ucast ty)"
  have "?h \<le> 11" using varint_len_bounds(1) [of "of_nat n"] varint_len_bounds(1) [of "ucast ty"] by simp
  then have "size_sub MAX_HEADER_LEN ?h + 5 \<ge> 2 ^ 32" using False
    by (subst size_sub_wraps) (auto simp: MAX_HEADER_LEN_def)
  then have "write_bytes buf (size_sub MAX_HEADER_LEN ?h) [0] = None"
    using assms(2) by (simp add: write_bytes_def MAX_HEADER_LEN_def)
  then show ?thesis using False by (simp add: prepend_header_def Let_def)
qed

theorem prepend_header_in_bounds_witness:
  "prepend_header (replicate 2054 0) 93 2048 \<noteq> None \<and> prepend_header (replicate 2054 0) 0xFFFF 0x200000 = None"
proof -
  have "1 + varint_len (of_nat 2048) + varint_len (ucast (93::u16)) \<le> MAX_HEADER_LEN"
    "\<not> 1 + varint_len (of_nat 0x200000) + varint_len (ucast (0xFFFF::u16)) \<le> MAX_HEADER_LEN"
    by (simp_all add: varint_len.simps MAX_HEADER_LEN_def)
  then show ?thesis
    using prepend_header_in_bounds [of "replicate 2054 0" 93 2048]
      prepend_header_in_bounds [of "replicate 2054 0" "0xFFFF" "0x200000"]
    by (simp add: MAX_HEADER_LEN_def del: not_None_eq)
qed

end
