(* ===== verification/Ble_Address.thy ===== *)
theory Ble_Address
  imports Nbp_Prelude
begin

text \<open>
  Conversions between the three representations of a Bluetooth device address,
  \<^verbatim>\<open>components/ble_backend/address.cpp\<close>: the 64-bit number of the API (MSB first in its low 48 bits),
  the six bytes in display order, and NimBLE's six bytes in wire order (LSB first).
\<close>

section \<open>Conversions\<close>

definition bytes_to_uint64 :: "u8 list \<Rightarrow> u64" where
  "bytes_to_uint64 bytes = foldl (\<lambda>v i. push_bit 8 v OR ucast (bytes ! i)) 0 [0..<6]"

text \<open>The loop for \<open>i = 5\<close> down to 0, with \<open>Suc i\<close> iterations left.\<close>

fun uint64_to_bytes_loop :: "nat \<Rightarrow> u64 \<Rightarrow> u8 list \<Rightarrow> u8 list" where
  "uint64_to_bytes_loop 0 value b = b"
| "uint64_to_bytes_loop (Suc i) value b =
     uint64_to_bytes_loop i (drop_bit 8 value) (b[i := ucast (value AND 0xFF)])"

definition uint64_to_bytes :: "u64 \<Rightarrow> u8 list" where
  "uint64_to_bytes value = uint64_to_bytes_loop 6 value (replicate 6 0)"

definition nimble_le_to_uint64 :: "u8 list \<Rightarrow> u64" where
  "nimble_le_to_uint64 le_bytes = foldl (\<lambda>v i. push_bit 8 v OR ucast (le_bytes ! i)) 0 (rev [0..<6])"

fun uint64_to_nimble_le_loop :: "nat \<Rightarrow> u64 \<Rightarrow> u8 list" where
  "uint64_to_nimble_le_loop 0 value = []"
| "uint64_to_nimble_le_loop (Suc k) value =
     ucast (value AND 0xFF) # uint64_to_nimble_le_loop k (drop_bit 8 value)"

definition uint64_to_nimble_le :: "u64 \<Rightarrow> u8 list" where
  "uint64_to_nimble_le value = uint64_to_nimble_le_loop 6 value"

section \<open>Lemmas\<close>

lemma ex6: "length bs = 6 \<Longrightarrow> \<exists>a b c d e f. bs = [a, b, c, d, e, f]"
  by (auto simp: numeral_eq_Suc length_Suc_conv)

lemma upt_6: "[0..<6] = [0, 1, 2, 3, 4, 5::nat]"
  by (simp add: upt_rec)

lemma bit_mask8: "bit (0xFF :: u64) n \<longleftrightarrow> n < 8"
proof -
  have "(0xFF :: u64) = mask 8" by (simp add: mask_eq_exp_minus_1)
  moreover have "bit (mask 8 :: u64) n \<longleftrightarrow> n < 8" by (subst bit_mask_iff) auto
  ultimately show ?thesis by (simp only:)
qed

text \<open>Horner's scheme on bytes: the value of a little-endian byte string.\<close>

definition le_value :: "u8 list \<Rightarrow> u64" where
  "le_value bs = foldr (\<lambda>b v. push_bit 8 v OR ucast b) bs 0"

lemma le_value_simps [simp]:
  "le_value [] = 0" "le_value (b # bs) = push_bit 8 (le_value bs) OR ucast b"
  by (simp_all add: le_value_def)

lemma bit_le_value_bound: "bit (le_value bs) n \<Longrightarrow> n < 8 * length bs"
proof (induction bs arbitrary: n)
  case (Cons b bs)
  then show ?case by (fastforce simp: bit_simps dest: bit_imp_le_length)
qed simp

lemma low_byte: "ucast ((push_bit 8 v OR ucast b) AND 0xFF :: u64) = (b :: u8)"
  by (rule bit_word_eqI) (auto simp: bit_simps bit_mask8 simp del: bit_numeral_word_iff)

lemma high_bytes: "(\<And>n. bit v n \<Longrightarrow> n < 56) \<Longrightarrow> drop_bit 8 (push_bit 8 v OR ucast (b :: u8)) = (v :: u64)"
  by (rule bit_word_eqI) (auto simp: bit_simps dest: bit_imp_le_length)

lemma loop_le_value: "length bs \<le> 8 \<Longrightarrow> uint64_to_nimble_le_loop (length bs) (le_value bs) = bs"
proof (induction bs)
  case (Cons b bs)
  have "drop_bit 8 (push_bit 8 (le_value bs) OR ucast b) = le_value bs"
    using Cons.prems by (intro high_bytes) (auto dest: bit_le_value_bound)
  with Cons show ?case by (simp add: low_byte)
qed simp

lemma le_value_loop: "k \<le> 8 \<Longrightarrow> le_value (uint64_to_nimble_le_loop k v) = take_bit (8 * k) v"
proof (induction k arbitrary: v)
  case (Suc k)
  have "push_bit 8 (take_bit (8 * k) (drop_bit 8 v)) OR ucast (ucast (v AND 0xFF) :: u8) = take_bit (8 * Suc k) v"
    by (rule bit_word_eqI) (auto simp: bit_simps bit_mask8 simp del: bit_numeral_word_iff)
  with Suc show ?case by simp
qed simp

lemma nimble_le_is_value: "length bs = 6 \<Longrightarrow> nimble_le_to_uint64 bs = le_value bs"
  by (auto dest!: ex6 simp: nimble_le_to_uint64_def upt_6)

lemma bytes_is_value: "length bs = 6 \<Longrightarrow> bytes_to_uint64 bs = le_value (rev bs)"
  by (auto dest!: ex6 simp: bytes_to_uint64_def upt_6)

lemma uint64_to_bytes_rev: "uint64_to_bytes v = rev (uint64_to_nimble_le v)"
  by (simp add: uint64_to_bytes_def uint64_to_nimble_le_def numeral_eq_Suc)

lemma uint64_to_nimble_le_length [simp]: "length (uint64_to_nimble_le v) = 6"
  by (simp add: uint64_to_nimble_le_def numeral_eq_Suc)

section \<open>Properties\<close>

text \<open>Device addresses survive every conversion. Six bytes in display order or in NimBLE's wire order
  come back unchanged from the 64-bit form, a 64-bit value comes back with its low 48 bits, and the two
  byte orders of one address are each other's reverse.\<close>

theorem address_roundtrip:
  "(length bs = 6 \<longrightarrow> uint64_to_bytes (bytes_to_uint64 bs) = bs \<and> uint64_to_nimble_le (nimble_le_to_uint64 bs) = bs) \<and>
   bytes_to_uint64 (uint64_to_bytes v) = take_bit 48 v \<and>
   nimble_le_to_uint64 (uint64_to_nimble_le v) = take_bit 48 v \<and>
   uint64_to_bytes v = rev (uint64_to_nimble_le v)"
proof -
  have "uint64_to_nimble_le (le_value bs) = bs" if "length bs = 6" for bs
    using loop_le_value [of bs] that by (simp add: uint64_to_nimble_le_def)
  moreover have "le_value (uint64_to_nimble_le v) = take_bit 48 v"
    using le_value_loop [of 6 v] by (simp add: uint64_to_nimble_le_def)
  ultimately show ?thesis by (simp add: nimble_le_is_value bytes_is_value uint64_to_bytes_rev)
qed

theorem address_roundtrip_witness:
  "uint64_to_bytes (bytes_to_uint64 [0xAA, 0xBB, 0xCC, 0xDD, 0xEE, 0x01]) = [0xAA, 0xBB, 0xCC, 0xDD, 0xEE, 0x01] \<and>
   bytes_to_uint64 (uint64_to_bytes 0x1234AABBCCDDEE01) = 0xAABBCCDDEE01"
proof -
  have "take_bit 48 (0x1234AABBCCDDEE01 :: u64) = 0xAABBCCDDEE01" by simp
  moreover have "length [0xAA, 0xBB, 0xCC, 0xDD, 0xEE, 0x01 :: u8] = 6" by simp
  ultimately show ?thesis
    using address_roundtrip [of "[0xAA, 0xBB, 0xCC, 0xDD, 0xEE, 0x01]" "0x1234AABBCCDDEE01"] by metis
qed

end
