(* ===== verification/Api_Proto.thy ===== *)
theory Api_Proto
  imports Nbp_Prelude
begin

text \<open>
  The constants of \<^verbatim>\<open>include/proxy_config.h\<close>, the message ids of \<^verbatim>\<open>components/api_proto/api_proto.h\<close> and
  the message structures the firmware fills in and reads (the fields of \<^verbatim>\<open>api_subset.proto\<close>, with the
  static bounds of \<^verbatim>\<open>api_subset.options\<close>). The nanopb encoder and decoders are third-party code: they
  are the functions of a record \<open>pb_codec\<close> that every user of the wire format takes as a parameter.
\<close>

section \<open>Configuration constants\<close>

definition HOSTNAME_MAX :: nat where "HOSTNAME_MAX = 30"
definition MAX_CONNECTIONS :: nat where "MAX_CONNECTIONS = 4"
definition ADV_BATCH_SIZE :: nat where "ADV_BATCH_SIZE = 16"
definition MAX_MESSAGE_SIZE :: nat where "MAX_MESSAGE_SIZE = 2048"
definition MAX_API_CLIENTS :: nat where "MAX_API_CLIENTS = 4"
definition ADV_FLUSH_INTERVAL_MS :: nat where "ADV_FLUSH_INTERVAL_MS = 100"
definition VERSION :: string where "VERSION = ''0.1.0''"
definition FRIENDLY_NAME :: string where "FRIENDLY_NAME = ''NimBLE Proxy''"
definition MODEL :: string where "MODEL = ''esp32-s3-devkitc''"
definition MANUFACTURER :: string where "MANUFACTURER = ''Custom''"
definition FAKE_ESPHOME_VERSION :: string where "FAKE_ESPHOME_VERSION = ''2026.5.0''"
definition API_VERSION_MAJOR :: u32 where "API_VERSION_MAJOR = 1"
definition API_VERSION_MINOR :: u32 where "API_VERSION_MINOR = 14"
definition BT_PROXY_FEATURE_FLAGS :: u32 where
  "BT_PROXY_FEATURE_FLAGS = push_bit 0 1 OR push_bit 1 1 OR push_bit 2 1 OR push_bit 5 1"

lemmas config_defs = HOSTNAME_MAX_def MAX_CONNECTIONS_def ADV_BATCH_SIZE_def MAX_MESSAGE_SIZE_def
  MAX_API_CLIENTS_def

section \<open>Message ids\<close>

datatype message_id =
    MSG_HELLO_REQUEST | MSG_HELLO_RESPONSE | MSG_CONNECT_REQUEST | MSG_CONNECT_RESPONSE
  | MSG_DISCONNECT_REQUEST | MSG_DISCONNECT_RESPONSE | MSG_PING_REQUEST | MSG_PING_RESPONSE
  | MSG_DEVICE_INFO_REQUEST | MSG_DEVICE_INFO_RESPONSE | MSG_LIST_ENTITIES_REQUEST
  | MSG_LIST_ENTITIES_DONE_RESPONSE | MSG_SUBSCRIBE_LOGS_REQUEST
  | MSG_SUBSCRIBE_BLE_ADVERTISEMENTS_REQUEST | MSG_BLUETOOTH_DEVICE_REQUEST
  | MSG_BLUETOOTH_DEVICE_CONNECTION_RESPONSE | MSG_BLUETOOTH_GATT_GET_SERVICES_REQUEST
  | MSG_BLUETOOTH_GATT_GET_SERVICES_RESPONSE | MSG_BLUETOOTH_GATT_GET_SERVICES_DONE_RESPONSE
  | MSG_BLUETOOTH_GATT_READ_REQUEST | MSG_BLUETOOTH_GATT_READ_RESPONSE
  | MSG_BLUETOOTH_GATT_WRITE_REQUEST | MSG_BLUETOOTH_GATT_READ_DESCRIPTOR_REQUEST
  | MSG_BLUETOOTH_GATT_WRITE_DESCRIPTOR_REQUEST | MSG_BLUETOOTH_GATT_NOTIFY_REQUEST
  | MSG_BLUETOOTH_GATT_NOTIFY_DATA_RESPONSE | MSG_SUBSCRIBE_BLUETOOTH_CONNECTIONS_FREE_REQUEST
  | MSG_BLUETOOTH_CONNECTIONS_FREE_RESPONSE | MSG_BLUETOOTH_GATT_ERROR_RESPONSE
  | MSG_BLUETOOTH_GATT_WRITE_RESPONSE | MSG_BLUETOOTH_GATT_NOTIFY_RESPONSE
  | MSG_UNSUBSCRIBE_BLE_ADVERTISEMENTS_REQUEST | MSG_BLUETOOTH_LE_RAW_ADVERTISEMENTS_RESPONSE

primrec msg_num :: "message_id \<Rightarrow> u16" where
  "msg_num MSG_HELLO_REQUEST = 1"
| "msg_num MSG_HELLO_RESPONSE = 2"
| "msg_num MSG_CONNECT_REQUEST = 3"
| "msg_num MSG_CONNECT_RESPONSE = 4"
| "msg_num MSG_DISCONNECT_REQUEST = 5"
| "msg_num MSG_DISCONNECT_RESPONSE = 6"
| "msg_num MSG_PING_REQUEST = 7"
| "msg_num MSG_PING_RESPONSE = 8"
| "msg_num MSG_DEVICE_INFO_REQUEST = 9"
| "msg_num MSG_DEVICE_INFO_RESPONSE = 10"
| "msg_num MSG_LIST_ENTITIES_REQUEST = 11"
| "msg_num MSG_LIST_ENTITIES_DONE_RESPONSE = 19"
| "msg_num MSG_SUBSCRIBE_LOGS_REQUEST = 28"
| "msg_num MSG_SUBSCRIBE_BLE_ADVERTISEMENTS_REQUEST = 66"
| "msg_num MSG_BLUETOOTH_DEVICE_REQUEST = 68"
| "msg_num MSG_BLUETOOTH_DEVICE_CONNECTION_RESPONSE = 69"
| "msg_num MSG_BLUETOOTH_GATT_GET_SERVICES_REQUEST = 70"
| "msg_num MSG_BLUETOOTH_GATT_GET_SERVICES_RESPONSE = 71"
| "msg_num MSG_BLUETOOTH_GATT_GET_SERVICES_DONE_RESPONSE = 72"
| "msg_num MSG_BLUETOOTH_GATT_READ_REQUEST = 73"
| "msg_num MSG_BLUETOOTH_GATT_READ_RESPONSE = 74"
| "msg_num MSG_BLUETOOTH_GATT_WRITE_REQUEST = 75"
| "msg_num MSG_BLUETOOTH_GATT_READ_DESCRIPTOR_REQUEST = 76"
| "msg_num MSG_BLUETOOTH_GATT_WRITE_DESCRIPTOR_REQUEST = 77"
| "msg_num MSG_BLUETOOTH_GATT_NOTIFY_REQUEST = 78"
| "msg_num MSG_BLUETOOTH_GATT_NOTIFY_DATA_RESPONSE = 79"
| "msg_num MSG_SUBSCRIBE_BLUETOOTH_CONNECTIONS_FREE_REQUEST = 80"
| "msg_num MSG_BLUETOOTH_CONNECTIONS_FREE_RESPONSE = 81"
| "msg_num MSG_BLUETOOTH_GATT_ERROR_RESPONSE = 82"
| "msg_num MSG_BLUETOOTH_GATT_WRITE_RESPONSE = 83"
| "msg_num MSG_BLUETOOTH_GATT_NOTIFY_RESPONSE = 84"
| "msg_num MSG_UNSUBSCRIBE_BLE_ADVERTISEMENTS_REQUEST = 87"
| "msg_num MSG_BLUETOOTH_LE_RAW_ADVERTISEMENTS_RESPONSE = 93"

text \<open>Every id fits two varint bytes (and even one byte of seven bits).\<close>

lemma msg_num_bound: "unat (msg_num m) < 128"
  by (cases m) simp_all

lemma msg_num_fits: "unat (msg_num m) < 2 ^ 14"
  using msg_num_bound [of m] by simp

lemma msg_num_nonzero: "msg_num m \<noteq> 0"
  by (cases m) simp_all

section \<open>Message structures\<close>

record device_info =
  di_uses_password :: bool
  di_name :: string
  di_mac_address :: string
  di_esphome_version :: string
  di_compilation_time :: string
  di_model :: string
  di_manufacturer :: string
  di_friendly_name :: string
  di_bluetooth_proxy_feature_flags :: u32
  di_bluetooth_mac_address :: string

record raw_adv =
  ra_address :: u64
  ra_rssi :: int
  ra_address_type :: u32
  ra_data :: "u8 list"

record gatt_descriptor =
  gd_uuid :: "u64 list"
  gd_handle :: u32
  gd_short_uuid :: u32

record gatt_characteristic =
  gc_uuid :: "u64 list"
  gc_handle :: u32
  gc_properties :: u32
  gc_descriptors :: "gatt_descriptor list"
  gc_short_uuid :: u32

record gatt_service =
  gs_uuid :: "u64 list"
  gs_handle :: u32
  gs_characteristics :: "gatt_characteristic list"
  gs_short_uuid :: u32

datatype pb_msg =
    HelloResponse u32 u32 string string
  | ConnectResponse bool
  | DeviceInfoResponse device_info
  | RawAdvertisementsResponse "raw_adv list"
  | DeviceConnectionResponse u64 bool u32 int
  | ConnectionsFreeResponse u32 u32 "u64 list"
  | GetServicesResponse u64 "gatt_service list"
  | GetServicesDoneResponse u64
  | GattReadResponse u64 u32 "u8 list"
  | GattWriteResponse u64 u32
  | GattNotifyResponse u64 u32
  | GattNotifyDataResponse u64 u32 "u8 list"
  | GattErrorResponse u64 u32 int

datatype dev_req_type =
    DEV_CONNECT | DEV_DISCONNECT | DEV_PAIR | DEV_UNPAIR | DEV_CONNECT_V3_WITH_CACHE
  | DEV_CONNECT_V3_WITHOUT_CACHE | DEV_CLEAR_CACHE | DEV_OTHER u32

record device_request =
  dr_address :: u64
  dr_request_type :: dev_req_type
  dr_has_address_type :: bool
  dr_address_type :: u32

record gatt_request =
  gr_address :: u64
  gr_handle :: u32
  gr_flag :: bool          \<comment> \<open>\<open>response\<close> of a write, \<open>enable\<close> of a notify\<close>
  gr_data :: "u8 list"

text \<open>nanopb: \<open>pc_encode m cap\<close> is the encoding into a buffer of \<open>cap\<close> bytes, \<open>None\<close> when \<open>pb_encode\<close>
  fails; the decoders give \<open>None\<close> when \<open>pb_decode\<close> fails.\<close>

record pb_codec =
  pc_encode :: "pb_msg \<Rightarrow> nat \<Rightarrow> u8 list option"
  pc_device_request :: "u8 list \<Rightarrow> device_request option"
  pc_get_services :: "u8 list \<Rightarrow> u64 option"
  pc_read :: "u8 list \<Rightarrow> gatt_request option"
  pc_write :: "u8 list \<Rightarrow> gatt_request option"
  pc_write_descriptor :: "u8 list \<Rightarrow> gatt_request option"
  pc_notify :: "u8 list \<Rightarrow> gatt_request option"

text \<open>What nanopb documents of an output stream: it never holds more than its buffer.\<close>

definition codec_bounded :: "pb_codec \<Rightarrow> bool" where
  "codec_bounded pc \<longleftrightarrow> (\<forall>m cap bs. pc_encode pc m cap = Some bs \<longrightarrow> length bs \<le> cap)"

text \<open>The \<open>encode_one\<close> / \<open>encode_into\<close> / \<open>encode_*\<close> helpers of every component: the bytes written,
  none when the encoder fails.\<close>

definition encode_one :: "pb_codec \<Rightarrow> pb_msg \<Rightarrow> nat \<Rightarrow> u8 list" where
  "encode_one pc m cap = (case pc_encode pc m cap of None \<Rightarrow> [] | Some bs \<Rightarrow> bs)"

lemma encode_one_bounded: "codec_bounded pc \<Longrightarrow> length (encode_one pc m cap) \<le> cap"
  by (auto simp: encode_one_def codec_bounded_def split: option.split)

text \<open>\<open>snprintf(dst, sizeof(dst), "%s", s)\<close> keeps what fits before the terminator.\<close>

definition snprintf_s :: "nat \<Rightarrow> string \<Rightarrow> string" where
  "snprintf_s sz s = take (sz - 1) s"

lemma snprintf_s_length: "0 < sz \<Longrightarrow> length (snprintf_s sz s) < sz"
  by (auto simp: snprintf_s_def min_def)

lemma snprintf_s_id: "length s < sz \<Longrightarrow> snprintf_s sz s = s"
  by (simp add: snprintf_s_def)

end
