(* ===== verification/Handshake.thy ===== *)
theory Handshake
  imports Api_Proto
begin

text \<open>
  Connection-level messages, \<^verbatim>\<open>components/api_server/handshake.cpp\<close>: Hello, Connect, DeviceInfo, Ping,
  ListEntities, Disconnect and SubscribeLogs. What the firmware reads from elsewhere (host name, MAC
  addresses, build time, the BLE build switch) is the record \<open>hs_env\<close>.
\<close>

record hs_env =
  he_hostname :: string
  he_mac_sta :: "u8 list option"     \<comment> \<open>\<open>esp_read_mac(ESP_MAC_WIFI_STA)\<close>; \<open>None\<close> when it fails\<close>
  he_mac_bt :: "u8 list option"
  he_build_time :: string            \<comment> \<open>\<open>__DATE__ __TIME__\<close>\<close>
  he_ble :: bool                     \<comment> \<open>\<open>CONFIG_NBP_BLE\<close>\<close>

record hs_result =
  hr_handled :: bool
  hr_response_type :: u16
  hr_payload :: "u8 list"
  hr_close_after :: bool

text \<open>\<open>%02X\<close> of one byte.\<close>

definition hex_digit :: "nat \<Rightarrow> char" where
  "hex_digit d = (''0123456789ABCDEF'' ! d)"

definition hex_byte :: "u8 \<Rightarrow> string" where
  "hex_byte b = [hex_digit (unat b div 16), hex_digit (unat b mod 16)]"

fun join_colon :: "string list \<Rightarrow> string" where
  "join_colon [] = []"
| "join_colon [x] = x"
| "join_colon (x # y # xs) = x @ '':'' @ join_colon (y # xs)"

text \<open>The destination keeps its zero-initialised (empty) value when the MAC cannot be read.\<close>

definition format_mac :: "u8 list option \<Rightarrow> nat \<Rightarrow> string" where
  "format_mac mac cap = (case mac of None \<Rightarrow> [] | Some m \<Rightarrow> snprintf_s cap (join_colon (map hex_byte m)))"

definition hello_response :: "pb_codec \<Rightarrow> hs_env \<Rightarrow> nat \<Rightarrow> hs_result" where
  "hello_response pc env cap =
     (let resp = HelloResponse API_VERSION_MAJOR API_VERSION_MINOR
                   (snprintf_s 32 (''nimble-ble-proxy '' @ VERSION)) (snprintf_s 31 (he_hostname env))
      in \<lparr>hr_handled = True, hr_response_type = msg_num MSG_HELLO_RESPONSE,
          hr_payload = encode_one pc resp cap, hr_close_after = False\<rparr>)"

definition connect_response :: "pb_codec \<Rightarrow> nat \<Rightarrow> hs_result" where
  "connect_response pc cap =
     \<lparr>hr_handled = True, hr_response_type = msg_num MSG_CONNECT_RESPONSE,
      hr_payload = encode_one pc (ConnectResponse False) cap, hr_close_after = False\<rparr>"

definition device_info_of :: "hs_env \<Rightarrow> device_info" where
  "device_info_of env =
     \<lparr>di_uses_password = False,
      di_name = snprintf_s 32 (he_hostname env),
      di_mac_address = format_mac (he_mac_sta env) 18,
      di_esphome_version = snprintf_s 32 FAKE_ESPHOME_VERSION,
      di_compilation_time = snprintf_s 32 (he_build_time env),
      di_model = snprintf_s 32 MODEL,
      di_manufacturer = snprintf_s 32 MANUFACTURER,
      di_friendly_name = snprintf_s 64 FRIENDLY_NAME,
      di_bluetooth_proxy_feature_flags = (if he_ble env then BT_PROXY_FEATURE_FLAGS else 0),
      di_bluetooth_mac_address = format_mac (he_mac_bt env) 18\<rparr>"

definition device_info_response :: "pb_codec \<Rightarrow> hs_env \<Rightarrow> nat \<Rightarrow> hs_result" where
  "device_info_response pc env cap =
     \<lparr>hr_handled = True, hr_response_type = msg_num MSG_DEVICE_INFO_RESPONSE,
      hr_payload = encode_one pc (DeviceInfoResponse (device_info_of env)) cap, hr_close_after = False\<rparr>"

definition empty_response :: "u16 \<Rightarrow> bool \<Rightarrow> hs_result" where
  "empty_response ty close =
     \<lparr>hr_handled = True, hr_response_type = ty, hr_payload = [], hr_close_after = close\<rparr>"

definition handshake_handle :: "pb_codec \<Rightarrow> hs_env \<Rightarrow> u16 \<Rightarrow> nat \<Rightarrow> hs_result" where
  "handshake_handle pc env request_type response_cap =
     (if request_type = msg_num MSG_HELLO_REQUEST then hello_response pc env response_cap
      else if request_type = msg_num MSG_CONNECT_REQUEST then connect_response pc response_cap
      else if request_type = msg_num MSG_DEVICE_INFO_REQUEST then device_info_response pc env response_cap
      else if request_type = msg_num MSG_PING_REQUEST then empty_response (msg_num MSG_PING_RESPONSE) False
      else if request_type = msg_num MSG_LIST_ENTITIES_REQUEST
        then empty_response (msg_num MSG_LIST_ENTITIES_DONE_RESPONSE) False
      else if request_type = msg_num MSG_DISCONNECT_REQUEST
        then empty_response (msg_num MSG_DISCONNECT_RESPONSE) True
      else if request_type = msg_num MSG_SUBSCRIBE_LOGS_REQUEST then empty_response 0 False
      else \<lparr>hr_handled = False, hr_response_type = 0, hr_payload = [], hr_close_after = False\<rparr>)"

definition handshake_requests :: "message_id list" where
  "handshake_requests = [MSG_HELLO_REQUEST, MSG_CONNECT_REQUEST, MSG_DEVICE_INFO_REQUEST, MSG_PING_REQUEST,
     MSG_LIST_ENTITIES_REQUEST, MSG_DISCONNECT_REQUEST, MSG_SUBSCRIBE_LOGS_REQUEST]"

section \<open>Lemmas\<close>

lemmas handshake_defs = handshake_handle_def hello_response_def connect_response_def device_info_response_def
  empty_response_def Let_def

lemma handshake_payload_bounded:
  "codec_bounded pc \<Longrightarrow> length (hr_payload (handshake_handle pc env ty cap)) \<le> cap"
  by (simp add: handshake_defs encode_one_bounded)

lemma handshake_handled_iff:
  "hr_handled (handshake_handle pc env ty cap) \<longleftrightarrow> ty \<in> msg_num ` set handshake_requests"
  by (simp add: handshake_defs handshake_requests_def)

lemma handshake_response_id:
  "hr_response_type (handshake_handle pc env ty cap) = 0 \<or>
   (\<exists>m. hr_response_type (handshake_handle pc env ty cap) = msg_num m)"
proof -
  have "0 = (0::u16) \<or> (\<exists>m. (0::u16) = msg_num m)" by simp
  then show ?thesis unfolding handshake_defs
    by (auto simp del: msg_num.simps)
qed

lemma handshake_response_fits: "unat (hr_response_type (handshake_handle pc env ty cap)) < 2 ^ 14"
  using handshake_response_id [of pc env ty cap] msg_num_fits by (auto simp: unat_0 simp del: msg_num.simps)

lemma length_join_colon: "length (join_colon xs) = sum_list (map length xs) + (length xs - 1)"
  by (induction xs rule: join_colon.induct) auto

section \<open>Properties\<close>


end
