(* ===== verification/Interfaces.thy ===== *)
theory Interfaces
  imports Nbp_Prelude "HOL-Library.Multiset"
begin

text \<open>
  The contracts several components share, as locales: a table of a fixed number of slots
  (\<open>slot_table\<close>: the API client descriptors and the GATT connection pool), a bounded cache with
  least-recently-used eviction (\<open>lru_table\<close>: the scanner's device table and the BTHome cache), a
  bounded ring that keeps the most recent items (\<open>ring_buffer\<close>: the log ring and the Wi-Fi history)
  and a keyed registry (\<open>registry\<close>: host names by station, port mappings). Each is interpreted on the
  operations of the components that provide it, in their theories.
\<close>

section \<open>Tables of slots\<close>

locale slot_table =
  fixes is_free :: "'s \<Rightarrow> bool"
    and key :: "'s \<Rightarrow> 'k"
    and claim :: "'k \<Rightarrow> 's list \<Rightarrow> 's list option"
    and release_at :: "nat \<Rightarrow> 's list \<Rightarrow> 's list"
  assumes claim_None: "claim k ss = None \<longleftrightarrow> (\<forall>s\<in>set ss. \<not> is_free s)"
    and claim_Some: "claim k ss = Some ss' \<Longrightarrow>
      \<exists>i s. i < length ss \<and> is_free (ss ! i) \<and> ss' = ss[i := s] \<and> \<not> is_free s \<and> key s = k"
    and release_at: "i < length ss \<Longrightarrow> \<exists>s. release_at i ss = ss[i := s] \<and> is_free s"
begin

definition used :: "'s list \<Rightarrow> 'k list" where
  "used ss = map key (filter (\<lambda>s. \<not> is_free s) ss)"

definition free_count :: "'s list \<Rightarrow> nat" where
  "free_count ss = length (filter is_free ss)"

lemma used_plus_free: "length (used ss) + free_count ss = length ss"
  by (induction ss) (auto simp: used_def free_count_def)

lemma used_bounded: "length (used ss) \<le> length ss"
  by (metis used_plus_free le_add1)

lemma used_append: "used (xs @ ys) = used xs @ used ys"
  by (simp add: used_def)

lemma used_Cons: "used (x # xs) = (if is_free x then used xs else key x # used xs)"
  by (simp add: used_def)

lemma used_update:
  assumes "i < length ss"
  shows "mset (used (ss[i := s])) + (if is_free (ss ! i) then {#} else {#key (ss ! i)#})
       = mset (used ss) + (if is_free s then {#} else {#key s#})"
proof -
  have "mset (used ss) = mset (used (take i ss @ ss ! i # drop (Suc i) ss))"
    using id_take_nth_drop [OF assms] by simp
  moreover have "ss[i := s] = take i ss @ s # drop (Suc i) ss"
    by (rule upd_conv_take_nth_drop [OF assms])
  ultimately show ?thesis by (simp add: used_append used_Cons)
qed

lemma claim_used: "claim k ss = Some ss' \<Longrightarrow> mset (used ss') = add_mset k (mset (used ss)) \<and> length ss' = length ss"
proof -
  assume "claim k ss = Some ss'"
  then obtain i s where "i < length ss" "is_free (ss ! i)" "ss' = ss[i := s]" "\<not> is_free s" "key s = k"
    using claim_Some by blast
  then show ?thesis using used_update [of i ss s] by simp
qed

lemma claim_distinct:
  "claim k ss = Some ss' \<Longrightarrow> distinct (used ss) \<Longrightarrow> k \<notin> set (used ss) \<Longrightarrow> distinct (used ss')"
  using claim_used [of k ss ss']
  by (metis distinct.simps(2) mset.simps(2) mset_eq_imp_distinct_iff)

lemma claim_succeeds: "claim k ss \<noteq> None \<longleftrightarrow> length (used ss) < length ss"
proof -
  have "claim k ss \<noteq> None \<longleftrightarrow> free_count ss > 0"
    unfolding claim_None free_count_def by (auto simp: filter_empty_conv)
  then show ?thesis using used_plus_free [of ss] by linarith
qed

lemma release_used:
  assumes "i < length ss" "\<not> is_free (ss ! i)"
  shows "mset (used ss) = add_mset (key (ss ! i)) (mset (used (release_at i ss)))"
proof -
  obtain s where "release_at i ss = ss[i := s]" "is_free s" using release_at [OF assms(1)] by blast
  then show ?thesis using used_update [OF assms(1), of s] assms(2) by simp
qed

lemma release_unused:
  assumes "i < length ss" "is_free (ss ! i)"
  shows "mset (used (release_at i ss)) = mset (used ss)"
proof -
  obtain s where "release_at i ss = ss[i := s]" "is_free s" using release_at [OF assms(1)] by blast
  then show ?thesis using used_update [OF assms(1), of s] assms(2) by simp
qed

lemma release_length: "i < length ss \<Longrightarrow> length (release_at i ss) = length ss"
  using release_at by fastforce

lemma release_distinct: "i < length ss \<Longrightarrow> distinct (used ss) \<Longrightarrow> distinct (used (release_at i ss))"
proof (cases "is_free (ss ! i)")
  case True
  then show "i < length ss \<Longrightarrow> distinct (used ss) \<Longrightarrow> distinct (used (release_at i ss))"
    by (metis release_unused mset_eq_imp_distinct_iff)
next
  case False
  then show "i < length ss \<Longrightarrow> distinct (used ss) \<Longrightarrow> distinct (used (release_at i ss))"
    by (metis release_used distinct.simps(2) mset.simps(2) mset_eq_imp_distinct_iff)
qed

end

section \<open>Bounded caches with eviction\<close>

text \<open>A cache of at most \<open>cap\<close> rows, one per key. Recording an item \<open>x\<close> for a key rewrites the key's row, or
  appends a new one, or, when the cache is full, takes over a row whose stamp no other row's is below;
  \<open>upd k x old\<close> is the row that results (\<open>old\<close> the key's previous row, if any).\<close>

locale lru_table =
  fixes key :: "'r \<Rightarrow> 'k"
    and stamp :: "'r \<Rightarrow> 'n::linorder"
    and cap :: nat
    and upd :: "'k \<Rightarrow> 'x \<Rightarrow> 'r option \<Rightarrow> 'r"
    and put :: "'k \<Rightarrow> 'x \<Rightarrow> 'r list \<Rightarrow> 'r list"
  assumes key_upd_None [simp]: "key (upd k x None) = k"
    and key_upd: "key r = k \<Longrightarrow> key (upd k x (Some r)) = k"
    and put_hit: "k \<in> key ` set rs \<Longrightarrow>
      \<exists>i. i < length rs \<and> key (rs ! i) = k \<and> put k x rs = rs[i := upd k x (Some (rs ! i))]"
    and put_room: "k \<notin> key ` set rs \<Longrightarrow> length rs < cap \<Longrightarrow> put k x rs = rs @ [upd k x None]"
    and put_evict: "k \<notin> key ` set rs \<Longrightarrow> length rs = cap \<Longrightarrow>
      \<exists>i. i < length rs \<and> put k x rs = rs[i := upd k x None] \<and> (\<forall>q\<in>set rs. stamp (rs ! i) \<le> stamp q)"
begin

definition table_ok :: "'r list \<Rightarrow> bool" where
  "table_ok rs \<longleftrightarrow> distinct (map key rs) \<and> length rs \<le> cap"

definition lookup :: "'k \<Rightarrow> 'r list \<Rightarrow> 'r option" where
  "lookup k rs = List.find (\<lambda>r. key r = k) rs"

lemma lookup_None: "lookup k rs = None \<longleftrightarrow> k \<notin> key ` set rs"
  by (auto simp: lookup_def find_None_iff)

lemma lookup_nth: "distinct (map key rs) \<Longrightarrow> i < length rs \<Longrightarrow> lookup (key (rs ! i)) rs = Some (rs ! i)"
proof -
  assume d: "distinct (map key rs)" and i: "i < length rs"
  have "key (rs ! j) \<noteq> key (rs ! i)" if "j < i" for j
    using distinct_map_eqD [OF d, of j i] i that by auto
  then show ?thesis using i by (auto simp: lookup_def find_Some_iff)
qed

lemma lookup_Some:
  "distinct (map key rs) \<Longrightarrow> lookup k rs = Some r \<longleftrightarrow> r \<in> set rs \<and> key r = k"
proof -
  assume d: "distinct (map key rs)"
  have "lookup k rs = Some r \<Longrightarrow> r \<in> set rs \<and> key r = k" by (auto simp: lookup_def find_Some_iff)
  moreover have "r \<in> set rs \<and> key r = k \<Longrightarrow> lookup k rs = Some r"
    using lookup_nth [OF d] by (auto simp: in_set_conv_nth)
  ultimately show ?thesis by blast
qed

lemma put_cases:
  assumes "table_ok rs"
  obtains (hit) i where "i < length rs" "key (rs ! i) = k" "put k x rs = rs[i := upd k x (Some (rs ! i))]"
      "lookup k rs = Some (rs ! i)"
  | (room) "lookup k rs = None" "length rs < cap" "put k x rs = rs @ [upd k x None]"
  | (evict) i where "lookup k rs = None" "length rs = cap" "i < length rs" "put k x rs = rs[i := upd k x None]"
      "\<forall>q\<in>set rs. stamp (rs ! i) \<le> stamp q"
proof (cases "k \<in> key ` set rs")
  case True
  from put_hit [OF this] show ?thesis using hit assms lookup_nth by (metis table_ok_def)
next
  case False
  then have l: "lookup k rs = None" by (simp add: lookup_None)
  show ?thesis
  proof (cases "length rs < cap")
    case True
    from put_room [OF False this] show ?thesis using room l True by blast
  next
    case full: False
    with assms have c: "length rs = cap" by (simp add: table_ok_def)
    from put_evict [OF False this] show ?thesis using evict l c by blast
  qed
qed

lemma put_ok: "table_ok rs \<Longrightarrow> table_ok (put k x rs)"
proof -
  assume ok: "table_ok rs"
  then show ?thesis
  proof (cases rule: put_cases [of rs k x])
    case (hit i)
    then show ?thesis using ok by (auto simp: table_ok_def key_upd intro!: distinct_map_update_same)
  next
    case room
    then show ?thesis using ok by (auto simp: table_ok_def lookup_None)
  next
    case (evict i)
    then show ?thesis using ok by (simp add: table_ok_def distinct_map_update_new lookup_None)
  qed
qed

lemma lookup_put: "table_ok rs \<Longrightarrow> lookup k (put k x rs) = Some (upd k x (lookup k rs))"
proof -
  assume ok: "table_ok rs"
  then have d: "distinct (map key (put k x rs))" using put_ok by (simp add: table_ok_def)
  from ok show ?thesis
  proof (cases rule: put_cases [of rs k x])
    case (hit i)
    then have "upd k x (Some (rs ! i)) \<in> set (put k x rs)" by (simp add: set_update_memI)
    then show ?thesis using hit lookup_Some [OF d] by (auto simp: key_upd)
  next
    case room
    then show ?thesis using lookup_Some [OF d] by auto
  next
    case (evict i)
    then have "upd k x None \<in> set (put k x rs)" by (simp add: set_update_memI)
    then show ?thesis using evict lookup_Some [OF d] by auto
  qed
qed

text \<open>Nothing else changes while there is room or the key is known; otherwise only one least row goes.\<close>

lemma lookup_update_other:
  assumes "distinct (map key rs)" "distinct (map key (rs[i := r]))" "i < length rs" "b \<noteq> key r" "b \<noteq> key (rs ! i)"
  shows "lookup b (rs[i := r]) = lookup b rs"
proof -
  have "lookup b (rs[i := r]) = Some q \<longleftrightarrow> lookup b rs = Some q" for q
    unfolding lookup_Some [OF assms(1)] lookup_Some [OF assms(2)]
    using assms(3-5) by (auto simp: in_set_conv_nth nth_list_update)
  then show ?thesis by (metis not_Some_eq)
qed

lemma lookup_put_other:
  assumes "table_ok rs" "b \<noteq> k"
  shows "lookup b (put k x rs) = lookup b rs \<or>
     (lookup k rs = None \<and> length rs = cap \<and> lookup b (put k x rs) = None \<and>
      (\<exists>q. lookup b rs = Some q \<and> (\<forall>q'\<in>set rs. stamp q \<le> stamp q')))"
proof -
  have d: "distinct (map key rs)" "distinct (map key (put k x rs))"
    using assms(1) put_ok [OF assms(1)] by (simp_all add: table_ok_def)
  from assms(1) show ?thesis
  proof (cases rule: put_cases [of rs k x])
    case (hit i)
    then show ?thesis using lookup_update_other [OF d(1), of i] d(2) assms(2) by (auto simp: key_upd)
  next
    case room
    then have "lookup b (put k x rs) = Some q \<longleftrightarrow> lookup b rs = Some q" for q
      unfolding lookup_Some [OF d(1)] lookup_Some [OF d(2)] using assms(2) by auto
    then show ?thesis by (metis not_Some_eq)
  next
    case (evict i)
    show ?thesis
    proof (cases "b = key (rs ! i)")
      case False
      then show ?thesis using lookup_update_other [OF d(1), of i] d(2) assms(2) evict by auto
    next
      case True
      have "b \<notin> key ` set (put k x rs)"
      proof
        assume "b \<in> key ` set (put k x rs)"
        then obtain j where j: "j < length rs" "key (put k x rs ! j) = b"
          using evict(4) by (auto simp: in_set_conv_nth)
        with evict(3,4) assms(2) have "j \<noteq> i" "key (rs ! j) = b" by (auto simp: nth_list_update split: if_splits)
        then show False using distinct_map_eqD [OF d(1) j(1) evict(3)] True by simp
      qed
      then show ?thesis using evict lookup_nth [OF d(1) evict(3)] True by (auto simp: lookup_None)
    qed
  qed
qed

end

section \<open>Rings of the most recent items\<close>

text \<open>A ring represents the history of everything ever appended, of which it still holds the last \<open>cap\<close> items; a
  block longer than the ring leaves only its tail.\<close>

locale ring_buffer =
  fixes cap :: nat
    and room :: "nat \<Rightarrow> bool"
    and holds :: "'r \<Rightarrow> 'a list \<Rightarrow> bool"
    and add :: "'a list \<Rightarrow> 'r \<Rightarrow> 'r"
    and recent :: "'r \<Rightarrow> 'a list"
  assumes room_less: "m \<le> n \<Longrightarrow> room n \<Longrightarrow> room m"
    and holds_add: "holds r h \<Longrightarrow> room (length h + min cap (length xs)) \<Longrightarrow> holds (add xs r) (h @ last_n cap xs)"
    and holds_recent: "holds r h \<Longrightarrow> recent r = last_n cap h"
begin

lemma recent_bounded: "holds r h \<Longrightarrow> length (recent r) \<le> cap"
  by (simp add: holds_recent)

lemma holds_adds:
  "holds r h \<Longrightarrow> room (length (h @ concat xss)) \<Longrightarrow> holds (fold add xss r) (h @ concat (map (last_n cap) xss))"
proof (induction xss arbitrary: r h)
  case Nil
  then show ?case by simp
next
  case (Cons xs xss)
  have "room (length h + min cap (length xs))" "room (length ((h @ last_n cap xs) @ concat xss))"
    by (rule room_less [OF _ Cons.prems(2)], simp)+
  from Cons.IH [OF holds_add [OF Cons.prems(1) this(1)] this(2)] show ?case by simp
qed

lemma last_n_concat: "last_n cap (h @ concat (map (last_n cap) xss)) = last_n cap (h @ concat xss)"
proof (induction xss arbitrary: h)
  case Nil
  then show ?case by simp
next
  case (Cons xs xss)
  have "last_n cap (h @ concat (map (last_n cap) (xs # xss))) = last_n cap ((h @ last_n cap xs) @ concat xss)"
    using Cons.IH [of "h @ last_n cap xs"] by simp
  also have "\<dots> = last_n cap (last_n cap (h @ last_n cap xs) @ concat xss)"
    by (rule last_n_append(1) [symmetric])
  also have "\<dots> = last_n cap (last_n cap (h @ xs) @ concat xss)"
    by (rule arg_cong [where f = "\<lambda>z. last_n cap (z @ concat xss)", OF last_n_append(2)])
  also have "\<dots> = last_n cap (h @ concat (xs # xss))"
    by (simp only: last_n_append(1)) simp
  finally show ?case .
qed

text \<open>After any appends the ring gives back exactly the last items of everything appended.\<close>

lemma recent_adds:
  "holds r h \<Longrightarrow> room (length (h @ concat xss)) \<Longrightarrow> recent (fold add xss r) = last_n cap (h @ concat xss)"
  by (simp add: holds_recent [OF holds_adds] last_n_concat)

end

section \<open>Registries\<close>

text \<open>A registry maps keys to values and may be full. An accepted entry is found under its key; an update of a key that is present
  touches no other key; a new key may cost another one its entry but never changes it.\<close>

locale registry =
  fixes ok :: "'t \<Rightarrow> bool"
    and lookup :: "'t \<Rightarrow> 'k \<Rightarrow> 'v option"
    and put :: "'k \<Rightarrow> 'v \<Rightarrow> 't \<Rightarrow> 't option"
  assumes put_ok: "ok t \<Longrightarrow> put k v t = Some t' \<Longrightarrow> ok t'"
    and put_same: "ok t \<Longrightarrow> put k v t = Some t' \<Longrightarrow> lookup t' k = Some v"
    and put_hit: "ok t \<Longrightarrow> put k v t = Some t' \<Longrightarrow> lookup t k \<noteq> None \<Longrightarrow> k' \<noteq> k \<Longrightarrow> lookup t' k' = lookup t k'"
    and put_other: "ok t \<Longrightarrow> put k v t = Some t' \<Longrightarrow> k' \<noteq> k \<Longrightarrow> lookup t' k' = lookup t k' \<or> lookup t' k' = None"
begin

text \<open>A sequence of entries, those refused being skipped.\<close>

fun put_all :: "('k \<times> 'v) list \<Rightarrow> 't \<Rightarrow> 't" where
  "put_all [] t = t"
| "put_all ((k, v) # kvs) t = put_all kvs (case put k v t of Some t' \<Rightarrow> t' | None \<Rightarrow> t)"

lemma put_all_append: "put_all (xs @ ys) t = put_all ys (put_all xs t)"
  by (induction xs t rule: put_all.induct) auto

lemma put_all_ok: "ok t \<Longrightarrow> ok (put_all kvs t)"
  by (induction kvs t rule: put_all.induct) (auto split: option.split dest: put_ok)

lemma put_all_lookup:
  "ok t \<Longrightarrow> lookup (put_all kvs t) k = Some v \<Longrightarrow> (k, v) \<in> set kvs \<or> lookup t k = Some v"
proof (induction kvs t rule: put_all.induct)
  case (2 k' v' kvs t)
  define t1 where "t1 = (case put k' v' t of Some t' \<Rightarrow> t' | None \<Rightarrow> t)"
  have "ok t1" using "2.prems"(1) by (auto simp: t1_def split: option.split intro: put_ok)
  with "2.IH" "2.prems"(2) have c: "(k, v) \<in> set kvs \<or> lookup t1 k = Some v" by (simp add: t1_def)
  have "lookup t1 k = Some v \<Longrightarrow> lookup t k = Some v \<or> (k, v) = (k', v')"
  proof (cases "put k' v' t")
    case (Some t')
    assume l: "lookup t1 k = Some v"
    have "lookup t' k' = Some v'" by (rule put_same [OF "2.prems"(1) Some])
    then show ?thesis using l Some put_other [OF "2.prems"(1) Some, of k] by (cases "k = k'") (auto simp: t1_def)
  qed (simp add: t1_def)
  with c show ?case by auto
qed simp

lemma put_all_last: "ok t \<Longrightarrow> put k v (put_all kvs t) = Some t' \<Longrightarrow> lookup (put_all (kvs @ [(k, v)]) t) k = Some v"
  using put_same [OF put_all_ok] by (simp add: put_all_append)

end

end
