(* ===== verification/Connection.thy ===== *)
theory Connection
  imports Interfaces Api_Proto
begin

text \<open>
  The pool of GATT client connections, \<^verbatim>\<open>components/ble_backend/connection.cpp\<close>. A pool is the array of
  slots with the registered free-change callback and the passkey. Everything an operation makes the rest
  of the system do (callbacks, NimBLE calls, scan control) is a list of \<open>conn_event\<close>s in program order; a
  free-change event carries the slots at that moment, which is what the callback reads. NimBLE's answers
  are the record \<open>conn_env\<close>.
\<close>

section \<open>State\<close>

datatype conn_state = Conn_Free | Connecting | Connected | Disconnecting

record conn_slot =
  cs_state :: conn_state
  cs_address :: u64
  cs_address_type :: u8
  cs_client :: "nat option"      \<comment> \<open>the \<open>NimBLEClient*\<close>\<close>
  cs_cb :: "nat option"          \<comment> \<open>the \<open>ConnectCallback\<close>\<close>

record conn_pool =
  cp_slots :: "conn_slot list"
  cp_free_cb :: bool             \<comment> \<open>\<open>g_free_cb\<close> is set\<close>
  cp_passkey :: u32

record conn_result =
  res_connected :: bool
  res_mtu :: u16
  res_error :: int

datatype conn_event =
    Result_cb nat u64 conn_result
  | Free_change "conn_slot list"
  | Create_client nat
  | Connect_client nat u64 u8
  | Disconnect_client nat
  | Scan_stop
  | Scan_resume

record conn_env =
  ce_create :: "nat option"      \<comment> \<open>what \<open>createClient()\<close> returns\<close>
  ce_scanning :: bool            \<comment> \<open>a scan object exists and \<open>isScanning()\<close>\<close>
  ce_issued :: bool              \<comment> \<open>what \<open>client->connect()\<close> returns\<close>

definition free_slot :: conn_slot where
  "free_slot = \<lparr>cs_state = Conn_Free, cs_address = 0, cs_address_type = 0, cs_client = None, cs_cb = None\<rparr>"

definition initial_pool :: conn_pool where
  "initial_pool = \<lparr>cp_slots = replicate MAX_CONNECTIONS free_slot, cp_free_cb = False, cp_passkey = 123456\<rparr>"

section \<open>Operations\<close>

definition find_by_addr_locked :: "u64 \<Rightarrow> conn_slot list \<Rightarrow> nat option" where
  "find_by_addr_locked a ss = find_idx (\<lambda>s. cs_state s \<noteq> Conn_Free \<and> cs_address s = a) ss"

definition find_by_client_locked :: "nat \<Rightarrow> conn_slot list \<Rightarrow> nat option" where
  "find_by_client_locked c ss = find_idx (\<lambda>s. cs_client s = Some c) ss"

definition alloc_locked :: "conn_slot list \<Rightarrow> nat option" where
  "alloc_locked ss = find_idx (\<lambda>s. cs_state s = Conn_Free) ss"

definition notify_free_change :: "conn_pool \<Rightarrow> conn_event list" where
  "notify_free_change p = (if cp_free_cb p then [Free_change (cp_slots p)] else [])"

definition result_events :: "nat option \<Rightarrow> u64 \<Rightarrow> conn_result \<Rightarrow> conn_event list" where
  "result_events cb a r = (case cb of None \<Rightarrow> [] | Some f \<Rightarrow> [Result_cb f a r])"

text \<open>Back to free; the client object stays with the slot for the next connect.\<close>

definition release_slot :: "nat \<Rightarrow> conn_slot list \<Rightarrow> conn_slot list" where
  "release_slot i ss =
     ss[i := (ss ! i)\<lparr>cs_state := Conn_Free, cs_address := 0, cs_address_type := 0, cs_cb := None\<rparr>]"

definition claim_slot :: "nat \<Rightarrow> u8 \<Rightarrow> nat option \<Rightarrow> u64 \<Rightarrow> conn_slot list \<Rightarrow> conn_slot list option" where
  "claim_slot new_client t cb a ss =
     (case alloc_locked ss of
        None \<Rightarrow> None
      | Some i \<Rightarrow> Some (ss[i := \<lparr>cs_state = Connecting, cs_address = a, cs_address_type = t,
          cs_client = Some (case cs_client (ss ! i) of None \<Rightarrow> new_client | Some c \<Rightarrow> c), cs_cb = cb\<rparr>]))"

definition on_connect :: "nat \<Rightarrow> u16 \<Rightarrow> conn_pool \<Rightarrow> conn_pool \<times> conn_event list" where
  "on_connect c mtu p =
     (case find_by_client_locked c (cp_slots p) of
        Some i \<Rightarrow>
          let s = cp_slots p ! i in
          if cs_state s = Connecting then
            let p' = p\<lparr>cp_slots := (cp_slots p)[i := s\<lparr>cs_state := Connected\<rparr>]\<rparr> in
            (p', result_events (cs_cb s) (cs_address s) \<lparr>res_connected = True, res_mtu = mtu, res_error = 0\<rparr>
                 @ notify_free_change p' @ [Scan_resume])
          else (p, notify_free_change p @ [Scan_resume])
      | None \<Rightarrow> (p, notify_free_change p @ [Scan_resume]))"

definition on_connect_fail :: "nat \<Rightarrow> int \<Rightarrow> conn_pool \<Rightarrow> conn_pool \<times> conn_event list" where
  "on_connect_fail c reason p =
     (case find_by_client_locked c (cp_slots p) of
        Some i \<Rightarrow>
          let s = cp_slots p ! i; p' = p\<lparr>cp_slots := release_slot i (cp_slots p)\<rparr> in
          (p', result_events (cs_cb s) (cs_address s) \<lparr>res_connected = False, res_mtu = 0, res_error = reason\<rparr>
               @ notify_free_change p' @ [Scan_resume])
      | None \<Rightarrow> (p, notify_free_change p @ [Scan_resume]))"

definition on_disconnect :: "nat \<Rightarrow> int \<Rightarrow> conn_pool \<Rightarrow> conn_pool \<times> conn_event list" where
  "on_disconnect c reason p =
     (case find_by_client_locked c (cp_slots p) of
        Some i \<Rightarrow>
          let s = cp_slots p ! i; p' = p\<lparr>cp_slots := release_slot i (cp_slots p)\<rparr> in
          (p', result_events (cs_cb s) (cs_address s) \<lparr>res_connected = False, res_mtu = 0, res_error = reason\<rparr>
               @ notify_free_change p' @ [Scan_resume])
      | None \<Rightarrow> (p, []))"

definition on_pass_key_entry :: "conn_pool \<Rightarrow> u32" where
  "on_pass_key_entry p = cp_passkey p"

definition set_passkey :: "u32 \<Rightarrow> conn_pool \<Rightarrow> conn_pool" where
  "set_passkey pin p = p\<lparr>cp_passkey := pin\<rparr>"

definition register_free_change_cb :: "conn_pool \<Rightarrow> conn_pool" where
  "register_free_change_cb p = p\<lparr>cp_free_cb := True\<rparr>"

text \<open>The outcomes of the first critical section of \<open>connect\<close>: refused, a null client dereferenced, or a
  slot claimed (with its index, its client and whether the client is new).\<close>

datatype claim_outcome = Refused | Null_client | Claimed nat nat bool conn_pool

definition connect_claim :: "conn_env \<Rightarrow> u64 \<Rightarrow> u8 \<Rightarrow> nat option \<Rightarrow> conn_pool \<Rightarrow> claim_outcome" where
  "connect_claim env a t cb p =
     (if find_by_addr_locked a (cp_slots p) \<noteq> None then Refused
      else case alloc_locked (cp_slots p) of
        None \<Rightarrow> Refused
      | Some i \<Rightarrow>
          (case cs_client (cp_slots p ! i) of
             Some c \<Rightarrow> Claimed i c False (p\<lparr>cp_slots := the (claim_slot c t cb a (cp_slots p))\<rparr>)
           | None \<Rightarrow>
               (case ce_create env of
                  None \<Rightarrow> Null_client
                | Some c \<Rightarrow> Claimed i c True (p\<lparr>cp_slots := the (claim_slot c t cb a (cp_slots p))\<rparr>))))"

text \<open>The second critical section, entered when the stack refuses to start the connect.\<close>

definition connect_unissued :: "nat \<Rightarrow> u64 \<Rightarrow> conn_pool \<Rightarrow> conn_pool \<times> conn_event list" where
  "connect_unissued i a p =
     (let s = cp_slots p ! i; p' = p\<lparr>cp_slots := release_slot i (cp_slots p)\<rparr> in
      (p', notify_free_change p' @
           result_events (cs_cb s) a \<lparr>res_connected = False, res_mtu = 0, res_error = -1\<rparr>))"

definition conn_connect ::
  "conn_env \<Rightarrow> u64 \<Rightarrow> u8 \<Rightarrow> nat option \<Rightarrow> conn_pool \<Rightarrow> (bool \<times> conn_pool \<times> conn_event list) option" where
  "conn_connect env a t cb p =
     (case connect_claim env a t cb p of
        Refused \<Rightarrow> Some (False, p, [])
      | Null_client \<Rightarrow> None
      | Claimed i c new p1 \<Rightarrow>
          let ev = (if new then [Create_client c] else []) @ notify_free_change p1
                   @ (if ce_scanning env then [Scan_stop] else []) @ [Connect_client c a t] in
          if ce_issued env then Some (True, p1, ev)
          else let (p2, ev2) = connect_unissued i a p1 in Some (True, p2, ev @ ev2))"

definition conn_disconnect :: "u64 \<Rightarrow> conn_pool \<Rightarrow> conn_pool \<times> conn_event list" where
  "conn_disconnect a p =
     (case find_by_addr_locked a (cp_slots p) of
        Some i \<Rightarrow>
          let s = cp_slots p ! i in
          if cs_state s = Connected then
            (p\<lparr>cp_slots := (cp_slots p)[i := s\<lparr>cs_state := Disconnecting\<rparr>]\<rparr>,
             case cs_client s of None \<Rightarrow> [] | Some c \<Rightarrow> [Disconnect_client c])
          else (p, [])
      | None \<Rightarrow> (p, []))"

definition free_slots :: "conn_pool \<Rightarrow> nat" where
  "free_slots p = length (filter (\<lambda>s. cs_state s = Conn_Free) (cp_slots p))"

definition in_use_addresses :: "nat \<Rightarrow> conn_pool \<Rightarrow> u64 list" where
  "in_use_addresses cap p = take cap (map cs_address (filter (\<lambda>s. cs_state s \<noteq> Conn_Free) (cp_slots p)))"

text \<open>The loop of \<open>disconnect_all\<close> over the slot indices; each visit reads the slot as it is then.\<close>

fun disconnect_slots :: "nat list \<Rightarrow> conn_pool \<Rightarrow> conn_pool \<times> conn_event list" where
  "disconnect_slots [] p = (p, [])"
| "disconnect_slots (i # is) p =
     (let s = cp_slots p ! i;
          (p1, e1) = (if cs_state s \<noteq> Conn_Free then conn_disconnect (cs_address s) p else (p, []));
          (p2, e2) = disconnect_slots is p1
      in (p2, e1 @ e2))"

definition disconnect_all :: "conn_pool \<Rightarrow> conn_pool \<times> conn_event list" where
  "disconnect_all p = disconnect_slots [0..<length (cp_slots p)] p"

definition client_for :: "u64 \<Rightarrow> conn_pool \<Rightarrow> nat option" where
  "client_for a p =
     (case find_by_addr_locked a (cp_slots p) of
        Some i \<Rightarrow> if cs_state (cp_slots p ! i) = Connected then cs_client (cp_slots p ! i) else None
      | None \<Rightarrow> None)"

section \<open>The pool as a slot table\<close>

abbreviation conn_is_free :: "conn_slot \<Rightarrow> bool" where
  "conn_is_free s \<equiv> cs_state s = Conn_Free"

interpretation ct: slot_table conn_is_free cs_address "claim_slot c t cb" release_slot for c t cb
proof unfold_locales
  show "claim_slot c t cb k ss = None \<longleftrightarrow> (\<forall>s\<in>set ss. \<not> conn_is_free s)" for k ss
    by (auto simp: claim_slot_def alloc_locked_def find_idx_None split: option.split dest!: find_idx_cong_Some)
next
  show "\<exists>i s. i < length ss \<and> conn_is_free (ss ! i) \<and> ss' = ss[i := s] \<and> \<not> conn_is_free s \<and> cs_address s = k"
    if "claim_slot c t cb k ss = Some ss'" for k ss ss'
    using that by (fastforce simp: claim_slot_def alloc_locked_def split: option.splits dest: find_idx_SomeD)
next
  show "\<exists>s. release_slot i ss = ss[i := s] \<and> conn_is_free s" if "i < length ss" for i ss
    using that by (auto simp: release_slot_def)
qed

lemma free_slots_count: "free_slots p = ct.free_count (cp_slots p)"
  by (simp add: free_slots_def ct.free_count_def)

lemma in_use_used: "length (cp_slots p) \<le> cap \<Longrightarrow> in_use_addresses cap p = ct.used (cp_slots p)"
  by (auto simp: in_use_addresses_def ct.used_def intro: order_trans [OF length_filter_le])

section \<open>Invariant\<close>

text \<open>A free slot carries no address and no callback, a slot in use has a client; no two slots share a
  client, and no two slots in use share an address.\<close>

definition slot_ok :: "conn_slot \<Rightarrow> bool" where
  "slot_ok s \<longleftrightarrow>
     (if cs_state s = Conn_Free then cs_address s = 0 \<and> cs_address_type s = 0 \<and> cs_cb s = None
      else cs_client s \<noteq> None)"

definition conn_inv :: "conn_pool \<Rightarrow> bool" where
  "conn_inv p \<longleftrightarrow>
     length (cp_slots p) = MAX_CONNECTIONS \<and> (\<forall>s\<in>set (cp_slots p). slot_ok s) \<and>
     distinct (ct.used (cp_slots p)) \<and>
     (\<forall>i<length (cp_slots p). \<forall>j<length (cp_slots p).
        cs_client (cp_slots p ! i) \<noteq> None \<longrightarrow> cs_client (cp_slots p ! i) = cs_client (cp_slots p ! j) \<longrightarrow> i = j)"

text \<open>Every operation rewrites one slot; this is what has to be checked of the new contents.\<close>

lemma conn_inv_update:
  assumes "conn_inv p" "i < length (cp_slots p)" "slot_ok s"
    and "distinct (ct.used ((cp_slots p)[i := s]))"
    and "\<And>j. j < length (cp_slots p) \<Longrightarrow> j \<noteq> i \<Longrightarrow> cs_client s \<noteq> None \<Longrightarrow> cs_client s \<noteq> cs_client (cp_slots p ! j)"
  shows "conn_inv (p\<lparr>cp_slots := (cp_slots p)[i := s]\<rparr>)"
proof -
  let ?ss = "cp_slots p" and ?ss' = "(cp_slots p)[i := s]"
  have ok: "\<forall>x\<in>set ?ss'. slot_ok x"
    using assms(1,3) set_update_subset_insert [of ?ss i s] unfolding conn_inv_def by blast
  have cl: "a = b" if "a < length ?ss" "b < length ?ss" "cs_client (?ss' ! a) \<noteq> None"
    "cs_client (?ss' ! a) = cs_client (?ss' ! b)" for a b
  proof (cases "a = i \<or> b = i")
    case True
    then show ?thesis using that assms(2) assms(5) [of a] assms(5) [of b]
      by (auto simp: nth_list_update split: if_splits)
  next
    case False
    then show ?thesis using that assms(1) by (simp add: conn_inv_def)
  qed
  have "length ?ss = MAX_CONNECTIONS" using assms(1) by (simp add: conn_inv_def)
  then show ?thesis using ok cl assms(4) unfolding conn_inv_def by (auto simp del: not_None_eq)
qed

lemma conn_inv_same_client:
  assumes "conn_inv p" "i < length (cp_slots p)" "cs_client s = cs_client (cp_slots p ! i)"
    and "j < length (cp_slots p)" "j \<noteq> i" "cs_client s \<noteq> None"
  shows "cs_client s \<noteq> cs_client (cp_slots p ! j)"
  using assms unfolding conn_inv_def by metis

lemma used_keep:
  assumes "i < length ss" "\<not> conn_is_free (ss ! i)" "\<not> conn_is_free s" "cs_address s = cs_address (ss ! i)"
  shows "distinct (ct.used (ss[i := s])) \<longleftrightarrow> distinct (ct.used ss)"
proof -
  have "mset (ct.used (ss[i := s])) = mset (ct.used ss)"
    using ct.used_update [OF assms(1), of s] assms(2-4) by simp
  then show ?thesis by (rule mset_eq_imp_distinct_iff)
qed

lemma conn_inv_release:
  assumes "conn_inv p" "i < length (cp_slots p)"
  shows "conn_inv (p\<lparr>cp_slots := release_slot i (cp_slots p)\<rparr>)"
proof -
  let ?s = "(cp_slots p ! i)\<lparr>cs_state := Conn_Free, cs_address := 0, cs_address_type := 0, cs_cb := None\<rparr>"
  have "distinct (ct.used ((cp_slots p)[i := ?s]))"
    using ct.release_distinct [OF assms(2)] assms(1) by (simp add: conn_inv_def release_slot_def)
  then show ?thesis unfolding release_slot_def
    using assms by (intro conn_inv_update) (auto simp: slot_ok_def dest: conn_inv_same_client)
qed

lemma conn_inv_state:
  assumes "conn_inv p" "i < length (cp_slots p)" "\<not> conn_is_free (cp_slots p ! i)" "st \<noteq> Conn_Free"
  shows "conn_inv (p\<lparr>cp_slots := (cp_slots p)[i := (cp_slots p ! i)\<lparr>cs_state := st\<rparr>]\<rparr>)"
proof (rule conn_inv_update [OF assms(1,2)])
  show "slot_ok ((cp_slots p ! i)\<lparr>cs_state := st\<rparr>)"
    using assms by (auto simp: slot_ok_def conn_inv_def split: if_splits)
  show "distinct (ct.used ((cp_slots p)[i := (cp_slots p ! i)\<lparr>cs_state := st\<rparr>]))"
    using assms by (simp add: used_keep conn_inv_def)
qed (use assms in \<open>auto dest: conn_inv_same_client\<close>)

lemma find_client_bound: "find_by_client_locked c ss = Some i \<Longrightarrow> i < length ss"
  and find_addr_bound: "find_by_addr_locked a ss = Some i \<Longrightarrow> i < length ss \<and> \<not> conn_is_free (ss ! i) \<and> cs_address (ss ! i) = a"
  and alloc_bound: "alloc_locked ss = Some i \<Longrightarrow> i < length ss \<and> conn_is_free (ss ! i)"
  by (auto simp: find_by_client_locked_def find_by_addr_locked_def alloc_locked_def dest: find_idx_SomeD)

lemma find_addr_None: "find_by_addr_locked a ss = None \<longleftrightarrow> a \<notin> set (ct.used ss)"
  by (auto simp: find_by_addr_locked_def find_idx_None ct.used_def)

lemma on_connect_inv: "conn_inv p \<Longrightarrow> conn_inv (fst (on_connect c mtu p))"
  by (auto simp: on_connect_def Let_def intro!: conn_inv_state dest: find_client_bound split: option.split)

lemma on_connect_fail_inv: "conn_inv p \<Longrightarrow> conn_inv (fst (on_connect_fail c r p))"
  and on_disconnect_inv: "conn_inv p \<Longrightarrow> conn_inv (fst (on_disconnect c r p))"
  by (auto simp: on_connect_fail_def on_disconnect_def Let_def intro!: conn_inv_release
      dest: find_client_bound split: option.split)

lemma connect_unissued_inv: "conn_inv p \<Longrightarrow> i < length (cp_slots p) \<Longrightarrow> conn_inv (fst (connect_unissued i a p))"
  by (simp add: connect_unissued_def Let_def conn_inv_release)

lemma conn_disconnect_inv: "conn_inv p \<Longrightarrow> conn_inv (fst (conn_disconnect a p))"
  by (auto simp: conn_disconnect_def Let_def intro!: conn_inv_state dest: find_addr_bound split: option.split)

lemma connect_claim_inv:
  assumes "conn_inv p" "connect_claim env a t cb p = Claimed i c new p'"
    and "\<And>c'. ce_create env = Some c' \<Longrightarrow> c' \<notin> Option.these (cs_client ` set (cp_slots p))"
  shows "conn_inv p' \<and> i < length (cp_slots p') \<and> cs_state (cp_slots p' ! i) = Connecting \<and>
     cs_address (cp_slots p' ! i) = a \<and> cs_cb (cp_slots p' ! i) = cb \<and> cs_client (cp_slots p' ! i) = Some c"
proof -
  let ?ss = "cp_slots p"
  have a: "find_by_addr_locked a ?ss = None" and i: "alloc_locked ?ss = Some i"
    and c: "cs_client (?ss ! i) = Some c \<or> cs_client (?ss ! i) = None \<and> ce_create env = Some c"
    and p': "p' = p\<lparr>cp_slots := the (claim_slot c t cb a ?ss)\<rparr>"
    using assms(2) by (auto simp: connect_claim_def split: if_splits option.splits)
  let ?s = "\<lparr>cs_state = Connecting, cs_address = a, cs_address_type = t, cs_client = Some c, cs_cb = cb\<rparr>"
  have cl: "claim_slot c t cb a ?ss = Some (?ss[i := ?s])"
    using i c by (auto simp: claim_slot_def)
  have b: "i < length ?ss" using alloc_bound [OF i] by simp
  have "distinct (ct.used (?ss[i := ?s]))"
    using ct.claim_distinct [OF cl] a assms(1) by (simp add: find_addr_None conn_inv_def)
  moreover have "Some c \<noteq> cs_client (?ss ! j)" if "j < length ?ss" "j \<noteq> i" for j
  proof
    assume j: "Some c = cs_client (?ss ! j)"
    from c show False
    proof
      assume "cs_client (?ss ! i) = Some c"
      then show False using conn_inv_same_client [OF assms(1) b refl that] j by (metis option.distinct(1))
    next
      assume "cs_client (?ss ! i) = None \<and> ce_create env = Some c"
      with assms(3) [of c] have "c \<notin> Option.these (cs_client ` set ?ss)" by simp
      with j that(1) show False by (metis image_eqI in_these_eq nth_mem)
    qed
  qed
  ultimately have "conn_inv (p\<lparr>cp_slots := ?ss[i := ?s]\<rparr>)"
    using assms(1) b by (intro conn_inv_update) (auto simp: slot_ok_def)
  then show ?thesis using p' cl b by simp
qed

section \<open>Interleavings\<close>

text \<open>Tasks interleave at the critical sections: the API task's connect (claiming, and undoing the claim
  when the stack refuses), its disconnect, and the callbacks of the NimBLE host task, in any order. The
  undo may hit any slot, since the slot may have moved on between the two sections.\<close>

inductive conn_step :: "conn_pool \<Rightarrow> conn_pool \<Rightarrow> bool" where
  step_claim: "connect_claim env a t cb p = Claimed i c new p' \<Longrightarrow>
     (\<And>c'. ce_create env = Some c' \<Longrightarrow> c' \<notin> Option.these (cs_client ` set (cp_slots p))) \<Longrightarrow> conn_step p p'"
| step_unissued: "i < length (cp_slots p) \<Longrightarrow> conn_step p (fst (connect_unissued i a p))"
| step_on_connect: "conn_step p (fst (on_connect c mtu p))"
| step_on_connect_fail: "conn_step p (fst (on_connect_fail c r p))"
| step_on_disconnect: "conn_step p (fst (on_disconnect c r p))"
| step_disconnect: "conn_step p (fst (conn_disconnect a p))"
| step_register: "conn_step p (register_free_change_cb p)"
| step_passkey: "conn_step p (set_passkey pin p)"

inductive conn_reachable :: "conn_pool \<Rightarrow> bool" where
  conn_init: "conn_reachable initial_pool"
| conn_next: "conn_reachable p \<Longrightarrow> conn_step p p' \<Longrightarrow> conn_reachable p'"

inductive_cases conn_stepE: "conn_step p p'"

lemma conn_inv_initial: "conn_inv initial_pool"
  by (auto simp: conn_inv_def initial_pool_def slot_ok_def free_slot_def ct.used_def)

lemma conn_step_inv: "conn_step p p' \<Longrightarrow> conn_inv p \<Longrightarrow> conn_inv p'"
proof (induction rule: conn_step.induct)
  case (step_claim env a t cb p i c new p')
  then show ?case using connect_claim_inv by blast
qed (auto simp: connect_unissued_inv on_connect_inv on_connect_fail_inv on_disconnect_inv conn_disconnect_inv
      register_free_change_cb_def set_passkey_def, auto simp: conn_inv_def)

lemma conn_reachable_inv: "conn_reachable p \<Longrightarrow> conn_inv p"
  by (induction rule: conn_reachable.induct) (auto simp: conn_inv_initial conn_step_inv)

section \<open>Behaviour of the operations\<close>

lemma conn_inv_length: "conn_inv p \<Longrightarrow> length (cp_slots p) = MAX_CONNECTIONS"
  by (simp add: conn_inv_def)

lemma find_by_client_unique:
  assumes "conn_inv p" "i < length (cp_slots p)" "cs_client (cp_slots p ! i) = Some c"
  shows "find_by_client_locked c (cp_slots p) = Some i"
proof -
  have "cs_client (cp_slots p ! j) \<noteq> Some c" if "j < i" for j
    using conn_inv_same_client [OF assms(1,2) refl, of j] assms(2,3) that by auto
  then show ?thesis using assms(2,3) by (simp add: find_by_client_locked_def find_idx_Some)
qed

lemma used_mem: "i < length ss \<Longrightarrow> \<not> conn_is_free (ss ! i) \<Longrightarrow> cs_address (ss ! i) \<in> set (ct.used ss)"
  by (auto simp: ct.used_def)

lemma used_unique:
  assumes "distinct (ct.used ss)" "i < length ss" "j < length ss" "\<not> conn_is_free (ss ! i)"
    "\<not> conn_is_free (ss ! j)" "cs_address (ss ! i) = cs_address (ss ! j)"
  shows "i = j"
  using assms
proof (induction ss arbitrary: i j)
  case (Cons x ss)
  show ?case
  proof (cases i; cases j)
    fix i' j' assume "i = Suc i'" "j = Suc j'"
    then show ?thesis using Cons by (auto simp: ct.used_Cons split: if_splits)
  next
    fix j' assume "i = 0" "j = Suc j'"
    then show ?thesis using Cons.prems used_mem [of _ ss] by (fastforce simp: ct.used_Cons split: if_splits)
  next
    fix i' assume "i = Suc i'" "j = 0"
    then show ?thesis using Cons.prems used_mem [of _ ss] by (fastforce simp: ct.used_Cons split: if_splits)
  qed simp
qed simp

lemma find_by_addr_unique:
  assumes "conn_inv p" "i < length (cp_slots p)" "\<not> conn_is_free (cp_slots p ! i)" "cs_address (cp_slots p ! i) = a"
  shows "find_by_addr_locked a (cp_slots p) = Some i"
proof -
  have "\<not> (\<not> conn_is_free (cp_slots p ! j) \<and> cs_address (cp_slots p ! j) = a)" if "j < i" for j
  proof
    assume j: "\<not> conn_is_free (cp_slots p ! j) \<and> cs_address (cp_slots p ! j) = a"
    have "distinct (ct.used (cp_slots p))" using assms(1) by (simp add: conn_inv_def)
    then have "j = i" by (rule used_unique) (use j that assms in auto)
    with that show False by simp
  qed
  then show ?thesis using assms(2-4) unfolding find_by_addr_locked_def find_idx_Some by blast
qed

lemma connect_claim_Refused:
  "connect_claim env a t cb p = Refused \<longleftrightarrow> a \<in> set (ct.used (cp_slots p)) \<or> free_slots p = 0"
proof -
  have "free_slots p = 0 \<longleftrightarrow> alloc_locked (cp_slots p) = None"
    by (simp add: free_slots_def alloc_locked_def find_idx_None filter_empty_conv)
  then show ?thesis
    using find_addr_None [of a "cp_slots p"] by (auto simp: connect_claim_def split: option.split)
qed

lemma disconnect_slots_states:
  assumes "conn_inv p" "\<forall>i\<in>set is. i < length (cp_slots p)"
  shows "conn_inv (fst (disconnect_slots is p)) \<and>
     map (\<lambda>s. (cs_address s, cs_client s, conn_is_free s, cs_cb s)) (cp_slots (fst (disconnect_slots is p)))
       = map (\<lambda>s. (cs_address s, cs_client s, conn_is_free s, cs_cb s)) (cp_slots p) \<and>
     (\<forall>i\<in>set is. cs_state (cp_slots (fst (disconnect_slots is p)) ! i) \<noteq> Connected) \<and>
     (\<forall>i<length (cp_slots p). cs_state (cp_slots p ! i) \<noteq> Connected \<longrightarrow>
        cs_state (cp_slots (fst (disconnect_slots is p)) ! i) = cs_state (cp_slots p ! i))"
  using assms
proof (induction "is" arbitrary: p)
  case (Cons i "is")
  let ?s = "cp_slots p ! i"
  define p1 where "p1 = fst (if cs_state ?s \<noteq> Conn_Free then conn_disconnect (cs_address ?s) p else (p, []))"
  have i: "i < length (cp_slots p)" using Cons.prems by simp
  have p1: "p1 = (if cs_state ?s = Connected then p\<lparr>cp_slots := (cp_slots p)[i := ?s\<lparr>cs_state := Disconnecting\<rparr>]\<rparr> else p)"
    using find_by_addr_unique [OF Cons.prems(1) i _ refl]
    by (auto simp: p1_def conn_disconnect_def Let_def)
  have inv: "conn_inv p1" using Cons.prems(1) by (simp add: p1_def conn_disconnect_inv)
  have len: "length (cp_slots p1) = length (cp_slots p)" by (simp add: p1)
  have fst: "fst (disconnect_slots (i # is) p) = fst (disconnect_slots is p1)"
    by (simp add: p1_def Let_def split: prod.split)
  have IH: "\<forall>j\<in>set is. j < length (cp_slots p1)" using Cons.prems len by simp
  have m: "map (\<lambda>s. (cs_address s, cs_client s, conn_is_free s, cs_cb s)) (cp_slots p1)
      = map (\<lambda>s. (cs_address s, cs_client s, conn_is_free s, cs_cb s)) (cp_slots p)"
    using i by (auto simp: p1 map_update list_update_same_conv)
  have "cs_state (cp_slots p1 ! i) \<noteq> Connected" using i by (simp add: p1)
  with Cons.IH [OF inv IH] i len
  have "cs_state (cp_slots (fst (disconnect_slots is p1)) ! i) \<noteq> Connected" by simp
  moreover have "cs_state (cp_slots p1 ! j) = cs_state (cp_slots p ! j)"
    if "cs_state (cp_slots p ! j) \<noteq> Connected" for j
    using that i by (auto simp: p1 nth_list_update)
  ultimately show ?case using Cons.IH [OF inv IH] m len unfolding fst by auto
qed simp

section \<open>Properties\<close>

text \<open>C3: the connection pool is consistent in every reachable state, whatever the interleaving of the
  API tasks and the NimBLE host task at the critical sections: the advertised limit is the free count plus
  the addresses in use, no address is in use twice, a free slot is wiped, and a slot in use owns a client
  that no other slot has.\<close>

theorem pool_consistent:
  assumes "conn_reachable p"
  shows "free_slots p + length (in_use_addresses MAX_CONNECTIONS p) = MAX_CONNECTIONS \<and>
     distinct (in_use_addresses MAX_CONNECTIONS p) \<and> conn_inv p"
proof -
  have inv: "conn_inv p" by (rule conn_reachable_inv [OF assms])
  then have u: "in_use_addresses MAX_CONNECTIONS p = ct.used (cp_slots p)"
    by (intro in_use_used) (simp add: conn_inv_length)
  show ?thesis using inv ct.used_plus_free [of "cp_slots p"]
    by (simp add: u free_slots_count conn_inv_length) (simp add: conn_inv_def)
qed

definition demo_env :: conn_env where
  "demo_env = \<lparr>ce_create = Some 7, ce_scanning = True, ce_issued = True\<rparr>"

definition demo_pool :: conn_pool where
  "demo_pool = initial_pool\<lparr>cp_slots := the (claim_slot 7 1 (Some 0) 0xAABBCCDDEE01 (cp_slots initial_pool))\<rparr>"

lemma demo_claim: "connect_claim demo_env 0xAABBCCDDEE01 1 (Some 0) initial_pool = Claimed 0 7 True demo_pool"
  by (simp add: demo_env_def demo_pool_def connect_claim_def initial_pool_def find_by_addr_locked_def
      alloc_locked_def free_slot_def MAX_CONNECTIONS_def numeral_eq_Suc)

lemma demo_reachable: "conn_reachable demo_pool"
proof (rule conn_next [OF conn_init step_claim [OF demo_claim]])
  fix c' assume "ce_create demo_env = Some c'"
  show "c' \<notin> Option.these (cs_client ` set (cp_slots initial_pool))"
    by (auto simp: initial_pool_def free_slot_def in_these_eq)
qed

lemma demo_slots: "cp_slots demo_pool =
    \<lparr>cs_state = Connecting, cs_address = 0xAABBCCDDEE01, cs_address_type = 1, cs_client = Some 7, cs_cb = Some 0\<rparr>
      # [free_slot, free_slot, free_slot]"
  by (simp add: demo_pool_def claim_slot_def alloc_locked_def initial_pool_def free_slot_def
      MAX_CONNECTIONS_def numeral_eq_Suc)

lemma demo_in_use: "in_use_addresses MAX_CONNECTIONS demo_pool = [0xAABBCCDDEE01]"
  and demo_free: "free_slots demo_pool = 3"
  by (simp_all add: in_use_addresses_def free_slots_def demo_slots free_slot_def MAX_CONNECTIONS_def)

theorem pool_consistent_witness:
  "free_slots demo_pool + 1 = MAX_CONNECTIONS \<and> distinct (in_use_addresses MAX_CONNECTIONS demo_pool)"
  using pool_consistent [OF demo_reachable] by (simp add: demo_in_use)



text \<open>The life of a connection as the API sees it. When the stack reports that the client of a slot that
  is connecting has connected, the address becomes usable (\<open>client_for\<close> gives its client) and the slot's
  callback hears of it with the MTU; when the client of a slot in use fails or disconnects, the address
  leaves the pool, is no longer usable, and the callback hears of it with the reason.\<close>

theorem connection_lifecycle:
  assumes "conn_reachable p" "i < length (cp_slots p)" "cs_state (cp_slots p ! i) = Connecting"
    "cs_client (cp_slots p ! i) = Some c" "cs_address (cp_slots p ! i) = a" "cs_cb (cp_slots p ! i) = Some f"
    "on_connect c mtu p = (p1, ev1)" "on_disconnect c r p1 = (p2, ev2)" "on_connect_fail c r p = (p3, ev3)"
  shows "client_for a p1 = Some c \<and>
     Result_cb f a \<lparr>res_connected = True, res_mtu = mtu, res_error = 0\<rparr> \<in> set ev1 \<and>
     client_for a p2 = None \<and> a \<notin> set (ct.used (cp_slots p2)) \<and>
     Result_cb f a \<lparr>res_connected = False, res_mtu = 0, res_error = r\<rparr> \<in> set ev2 \<and>
     a \<notin> set (ct.used (cp_slots p3)) \<and>
     Result_cb f a \<lparr>res_connected = False, res_mtu = 0, res_error = r\<rparr> \<in> set ev3"
proof -
  have inv: "conn_inv p" by (rule conn_reachable_inv [OF assms(1)])
  have fc: "find_by_client_locked c (cp_slots p) = Some i" by (rule find_by_client_unique [OF inv assms(2,4)])
  let ?s = "cp_slots p ! i"
  have p1: "p1 = p\<lparr>cp_slots := (cp_slots p)[i := ?s\<lparr>cs_state := Connected\<rparr>]\<rparr>"
    and e1: "Result_cb f a \<lparr>res_connected = True, res_mtu = mtu, res_error = 0\<rparr> \<in> set ev1"
    using assms(3,5,6,7) fc by (auto simp: on_connect_def result_events_def Let_def)
  have inv1: "conn_inv p1" using on_connect_inv [OF inv, of c mtu] assms(7) by simp
  have s1: "i < length (cp_slots p1)" "cs_client (cp_slots p1 ! i) = Some c" "cs_address (cp_slots p1 ! i) = a"
    "cs_state (cp_slots p1 ! i) = Connected" "cs_cb (cp_slots p1 ! i) = Some f"
    using assms(2,4,5,6) by (auto simp: p1)
  have cf1: "client_for a p1 = Some c"
    using find_by_addr_unique [OF inv1 s1(1) _ s1(3)] s1 by (simp add: client_for_def)
  have gone: "a \<notin> set (ct.used (release_slot i (cp_slots q)))"
    if "conn_inv q" "i < length (cp_slots q)" "\<not> conn_is_free (cp_slots q ! i)" "cs_address (cp_slots q ! i) = a" for q
  proof -
    have "distinct (ct.used (cp_slots q))" using that(1) by (simp add: conn_inv_def)
    then have "distinct (a # ct.used (release_slot i (cp_slots q)))"
      using ct.release_used [OF that(2,3)] that(4) by (metis mset.simps(2) mset_eq_imp_distinct_iff)
    then show ?thesis by simp
  qed
  have fc1: "find_by_client_locked c (cp_slots p1) = Some i" by (rule find_by_client_unique [OF inv1 s1(1,2)])
  have p2: "p2 = p1\<lparr>cp_slots := release_slot i (cp_slots p1)\<rparr>"
    and e2: "Result_cb f a \<lparr>res_connected = False, res_mtu = 0, res_error = r\<rparr> \<in> set ev2"
    using assms(8) fc1 s1 by (auto simp: on_disconnect_def result_events_def Let_def)
  have p3: "p3 = p\<lparr>cp_slots := release_slot i (cp_slots p)\<rparr>"
    and e3: "Result_cb f a \<lparr>res_connected = False, res_mtu = 0, res_error = r\<rparr> \<in> set ev3"
    using assms(5,6,9) fc by (auto simp: on_connect_fail_def result_events_def Let_def)
  have a2: "a \<notin> set (ct.used (cp_slots p2))" using gone [OF inv1 s1(1)] s1 by (simp add: p2)
  then have "client_for a p2 = None" by (simp add: client_for_def find_addr_None [THEN iffD2])
  moreover have "a \<notin> set (ct.used (cp_slots p3))" using gone [OF inv assms(2)] assms(3,5) by (simp add: p3)
  ultimately show ?thesis using cf1 e1 e2 e3 a2 by blast
qed

theorem connection_lifecycle_witness:
  "client_for 0xAABBCCDDEE01 (fst (on_connect 7 247 demo_pool)) = Some 7"
proof -
  have "0 < length (cp_slots demo_pool)" "cs_state (cp_slots demo_pool ! 0) = Connecting"
    "cs_client (cp_slots demo_pool ! 0) = Some 7" "cs_address (cp_slots demo_pool ! 0) = 0xAABBCCDDEE01"
    "cs_cb (cp_slots demo_pool ! 0) = Some 0"
    by (simp_all add: demo_slots)
  from connection_lifecycle [OF demo_reachable this surjective_pairing surjective_pairing surjective_pairing]
  show ?thesis by blast
qed

text \<open>A connect that the stack refuses to start leaves the scan stopped. The scan is cancelled before
  the attempt, and on this path nothing asks for it to be resumed, although every way in which an attempt
  that was started can end does.\<close>

theorem refused_connect_stops_scan:
  assumes "conn_connect env a t cb p = Some (True, p', ev)" "ce_scanning env" "\<not> ce_issued env"
  shows "Scan_stop \<in> set ev \<and> Scan_resume \<notin> set ev \<and>
     Scan_resume \<in> set (snd (on_connect c mtu p')) \<and> Scan_resume \<in> set (snd (on_connect_fail c r p'))"
  using assms
  by (auto simp: conn_connect_def connect_unissued_def notify_free_change_def result_events_def on_connect_def
      on_connect_fail_def Let_def split: claim_outcome.splits if_splits option.splits)

theorem refused_connect_stops_scan_witness:
  "\<exists>p' ev. conn_connect (demo_env\<lparr>ce_issued := False\<rparr>) 5 0 (Some 3) initial_pool = Some (True, p', ev) \<and>
     Scan_stop \<in> set ev \<and> Scan_resume \<notin> set ev"
proof -
  let ?env = "demo_env\<lparr>ce_issued := False\<rparr>"
  obtain p' ev where r: "conn_connect ?env 5 0 (Some 3) initial_pool = Some (True, p', ev)"
    by (simp add: conn_connect_def connect_claim_def initial_pool_def find_by_addr_locked_def alloc_locked_def
        free_slot_def demo_env_def connect_unissued_def Let_def MAX_CONNECTIONS_def numeral_eq_Suc)
  then show ?thesis
    using refused_connect_stops_scan [OF r] by (simp add: demo_env_def)
qed

text \<open>Tearing everything down. After \<open>disconnect_all\<close> no slot is connected any more, slots that were not
  connected (in particular those still connecting) are exactly as before, and no slot has been freed yet:
  that is left to the disconnect callbacks.\<close>

theorem disconnect_all_effect:
  assumes "conn_reachable p" "disconnect_all p = (p', ev)"
  shows "(\<forall>s\<in>set (cp_slots p'). cs_state s \<noteq> Connected) \<and>
     (\<forall>i<length (cp_slots p). cs_state (cp_slots p ! i) \<noteq> Connected \<longrightarrow>
        cs_state (cp_slots p' ! i) = cs_state (cp_slots p ! i)) \<and>
     free_slots p' = free_slots p \<and> in_use_addresses MAX_CONNECTIONS p' = in_use_addresses MAX_CONNECTIONS p"
proof -
  have inv: "conn_inv p" by (rule conn_reachable_inv [OF assms(1)])
  let ?f = "\<lambda>s. (cs_address s, cs_client s, conn_is_free s, cs_cb s)"
  have p': "p' = fst (disconnect_slots [0..<length (cp_slots p)] p)" using assms(2) by (simp add: disconnect_all_def)
  have *: "map ?f (cp_slots p') = map ?f (cp_slots p)"
    "\<forall>i\<in>set [0..<length (cp_slots p)]. cs_state (cp_slots p' ! i) \<noteq> Connected"
    "\<forall>i<length (cp_slots p). cs_state (cp_slots p ! i) \<noteq> Connected \<longrightarrow>
        cs_state (cp_slots p' ! i) = cs_state (cp_slots p ! i)"
    using disconnect_slots_states [OF inv, of "[0..<length (cp_slots p)]"] unfolding p' by auto
  from arg_cong [OF *(1), of length] have len: "length (cp_slots p') = length (cp_slots p)" by simp
  have fr: "length (filter conn_is_free ss) = length (filter (\<lambda>x. fst (snd (snd x))) (map ?f ss))" for ss
    by (simp add: filter_map o_def)
  have us: "map cs_address (filter (\<lambda>s. \<not> conn_is_free s) ss) = map fst (filter (\<lambda>x. \<not> fst (snd (snd x))) (map ?f ss))" for ss
    by (simp add: filter_map o_def)
  have "free_slots p' = free_slots p" unfolding free_slots_def fr *(1) ..
  moreover have "in_use_addresses MAX_CONNECTIONS p' = in_use_addresses MAX_CONNECTIONS p"
    unfolding in_use_addresses_def us *(1) ..
  ultimately show ?thesis using *(2,3) len by (auto simp: in_set_conv_nth)
qed

theorem disconnect_all_effect_witness: "free_slots (fst (disconnect_all demo_pool)) = 3"
  using disconnect_all_effect [OF demo_reachable surjective_pairing] by (simp add: demo_free)

end
