(* ===== verification/Bthome.thy ===== *)
theory Bthome
  imports Interfaces
begin

text \<open>
  The BTHome v2 decoder and its cache, \<^verbatim>\<open>components/ble_backend/bthome.cpp\<close>. A \<open>have_*\<close> flag and its value
  are one optional field of the record (the value is zeroed when the flag is); the rows below \<open>g_count\<close>
  are a list. The millisecond clock is an argument.
\<close>

section \<open>State\<close>

record reading =
  bt_addr :: u64
  bt_last_ms :: u32
  bt_encrypted :: bool
  bt_packet_id :: "u8 option"
  bt_battery :: "u8 option"
  bt_temperature :: "int option"        \<comment> \<open>hundredths of a degree, an \<open>int16_t\<close>\<close>
  bt_humidity :: "u16 option"           \<comment> \<open>hundredths of a percent\<close>
  bt_voltage :: "u16 option"
  bt_illuminance :: "u32 option"
  bt_motion :: "u8 option"
  bt_button :: "u8 option"
  bt_power :: "u32 option"
  bt_co2 :: "u16 option"

definition bt_CACHE_SIZE :: nat where "bt_CACHE_SIZE = 32"

definition blank_reading :: "u64 \<Rightarrow> u32 \<Rightarrow> bool \<Rightarrow> reading" where
  "blank_reading a now enc = \<lparr>bt_addr = a, bt_last_ms = now, bt_encrypted = enc, bt_packet_id = None,
     bt_battery = None, bt_temperature = None, bt_humidity = None, bt_voltage = None, bt_illuminance = None,
     bt_motion = None, bt_button = None, bt_power = None, bt_co2 = None\<rparr>"

text \<open>Payload bytes per object id; -1 is unknown, -2 means a length byte comes first.\<close>

definition kObjSize :: "int list" where
  "kObjSize = [
     1, 1, 2, 2, 3, 3, 2, 2, 2, 1, 3, 3, 2, 2, 2, 1,
     1, 1, 2, 2, 2, 1, 1, 1, 1, 1, 1, 1, 1, 1, 1, 1,
     1, 1, 1, 1, 1, 1, 1, 1, 1, 1, 1, 1, 1, 1, 1, 1,
     1, 1, 1, 1, 1, 1, 1, 1, 1, 1, 1, -1, 2, 2, 4, 2,
     2, 2, 3, 2, 2, 2, 1, 2, 2, 2, 2, 3, 4, 4, 4, 4,
     4, 2, 2, -2, -2, 4, 2, 1, 1, 1, 2, 1, 1, -1, -1, -1]"

section \<open>Decoding\<close>

definition rd_u16 :: "u8 list \<Rightarrow> u16" where
  "rd_u16 p = ucast (p ! 0) OR push_bit 8 (ucast (p ! 1))"

definition rd_s16 :: "u8 list \<Rightarrow> int" where
  "rd_s16 p = sint (rd_u16 p)"

definition rd_u24 :: "u8 list \<Rightarrow> u32" where
  "rd_u24 p = ucast (p ! 0) OR push_bit 8 (ucast (p ! 1)) OR push_bit 16 (ucast (p ! 2))"

definition store_object :: "u8 \<Rightarrow> u8 list \<Rightarrow> reading \<Rightarrow> reading" where
  "store_object oid p r =
     (if oid = 0x00 then r\<lparr>bt_packet_id := Some (p ! 0)\<rparr>
      else if oid = 0x01 then r\<lparr>bt_battery := Some (p ! 0)\<rparr>
      else if oid = 0x02 then r\<lparr>bt_temperature := Some (rd_s16 p)\<rparr>
      else if oid = 0x03 then r\<lparr>bt_humidity := Some (rd_u16 p)\<rparr>
      else if oid = 0x05 then r\<lparr>bt_illuminance := Some (rd_u24 p)\<rparr>
      else if oid = 0x0B then r\<lparr>bt_power := Some (rd_u24 p)\<rparr>
      else if oid = 0x0C then r\<lparr>bt_voltage := Some (rd_u16 p)\<rparr>
      else if oid = 0x12 then r\<lparr>bt_co2 := Some (rd_u16 p)\<rparr>
      else if oid = 0x21 then r\<lparr>bt_motion := Some (p ! 0)\<rparr>
      else if oid = 0x2E then r\<lparr>bt_humidity := Some (ucast (p ! 0) * 100)\<rparr>
      else if oid = 0x3A then r\<lparr>bt_button := Some (p ! 0)\<rparr>
      else if oid = 0x45 then r\<lparr>bt_temperature := Some (sint (word_of_int (rd_s16 p * 10) :: u16))\<rparr>
      else r)"

text \<open>The cursor loop of \<open>ingest\<close>: the bytes from \<open>p\<close> to \<open>end\<close>.\<close>

function walk_objects :: "u8 list \<Rightarrow> reading \<Rightarrow> reading" where
  "walk_objects bs r =
     (case bs of
        [] \<Rightarrow> r
      | oid # p \<Rightarrow>
          if unat oid \<ge> length kObjSize then r
          else let sz = kObjSize ! unat oid in
            if sz = -1 then r
            else if sz = -2 then
              (case p of
                 [] \<Rightarrow> r
               | l # q \<Rightarrow>
                   if unat l > length q then r
                   else walk_objects (drop (unat l) q) (store_object oid q r))
            else if nat sz > length p then r
            else walk_objects (drop (nat sz) p) (store_object oid p r))"
  by pat_completeness auto

termination walk_objects
  by (relation "measure (\<lambda>(bs, r). length bs)") auto

declare walk_objects.simps [simp del]

section \<open>The cache\<close>

definition get_slot :: "u64 \<Rightarrow> reading list \<Rightarrow> nat" where
  "get_slot a rs =
     (case find_idx (\<lambda>r. bt_addr r = a) rs of
        Some i \<Rightarrow> i
      | None \<Rightarrow> if length rs < bt_CACHE_SIZE then length rs else argmin_idx bt_last_ms rs)"

definition put_slot :: "nat \<Rightarrow> reading \<Rightarrow> reading list \<Rightarrow> reading list" where
  "put_slot i r rs = (if i < length rs then rs[i := r] else rs @ [r])"

text \<open>The row a version-2 frame leaves behind.\<close>

definition decode_frame :: "u64 \<Rightarrow> u32 \<Rightarrow> u8 list \<Rightarrow> reading" where
  "decode_frame a now frame =
     (let encrypted = (hd frame AND 0x01 \<noteq> 0) in
      if encrypted then blank_reading a now True
      else walk_objects (tl frame) (blank_reading a now False))"

definition bt_ingest :: "u32 \<Rightarrow> u64 \<Rightarrow> u8 list \<Rightarrow> reading list \<Rightarrow> reading list" where
  "bt_ingest now a frame rs =
     (if length frame < 1 then rs
      else if (drop_bit 5 (hd frame)) AND 0x07 \<noteq> 0x02 then rs
      else put_slot (get_slot a rs) (decode_frame a now frame) rs)"

definition bt_snapshot :: "nat \<Rightarrow> reading list \<Rightarrow> reading list" where
  "bt_snapshot cap rs = take (if length rs < cap then length rs else cap) rs"

section \<open>Frames as lists of objects\<close>

text \<open>An object of a frame is an id with its payload; \<open>enc_object\<close> lays it out as the format has it.\<close>

definition valid_object :: "u8 \<times> u8 list \<Rightarrow> bool" where
  "valid_object ob \<longleftrightarrow> (case ob of (oid, p) \<Rightarrow>
     unat oid < length kObjSize \<and> kObjSize ! unat oid \<noteq> -1 \<and>
     (if kObjSize ! unat oid = -2 then length p < 256 else int (length p) = kObjSize ! unat oid))"

definition enc_object :: "u8 \<times> u8 list \<Rightarrow> u8 list" where
  "enc_object ob = (case ob of (oid, p) \<Rightarrow>
     oid # (if kObjSize ! unat oid = -2 then [of_nat (length p)] else []) @ p)"

definition enc_frame :: "(u8 \<times> u8 list) list \<Rightarrow> u8 list" where
  "enc_frame obs = 0x40 # concat (map enc_object obs)"

text \<open>Only the payload's own bytes are read.\<close>

lemma kObjSize_stored:
  "kObjSize ! 0 = 1" "kObjSize ! Suc 0 = 1" "kObjSize ! 2 = 2" "kObjSize ! 3 = 2" "kObjSize ! 5 = 3" "kObjSize ! 11 = 3"
  "kObjSize ! 12 = 2" "kObjSize ! 18 = 2" "kObjSize ! 33 = 1" "kObjSize ! 46 = 1" "kObjSize ! 58 = 1"
  "kObjSize ! 69 = 2"
  by (simp_all add: kObjSize_def)

lemma store_object_append:
  assumes "valid_object (oid, p)"
  shows "store_object oid (p @ rest) r = store_object oid p r"
  using assms unfolding store_object_def
  by (intro if_cong refl)
     (simp_all add: valid_object_def kObjSize_stored nth_append rd_u16_def rd_s16_def rd_u24_def)

lemma walk_object:
  assumes "valid_object (oid, p)"
  shows "walk_objects (enc_object (oid, p) @ rest) r = walk_objects rest (store_object oid p r)"
proof (cases "kObjSize ! unat oid = -2")
  case True
  then have "unat (of_nat (length p) :: u8) = length p"
    using assms by (simp add: valid_object_def unat_of_nat)
  then show ?thesis using assms True store_object_append [OF assms]
    by (subst walk_objects.simps) (simp add: enc_object_def valid_object_def Let_def)
next
  case False
  then have "nat (kObjSize ! unat oid) = length p" using assms by (auto simp: valid_object_def dest: sym)
  then show ?thesis using assms False store_object_append [OF assms]
    by (subst walk_objects.simps) (simp add: enc_object_def valid_object_def Let_def)
qed

lemma walk_encoded:
  "list_all valid_object obs \<Longrightarrow>
     walk_objects (concat (map enc_object obs) @ rest) r = walk_objects rest (fold (case_prod store_object) obs r)"
  by (induction obs arbitrary: r) (auto simp: walk_object)

lemma walk_Nil [simp]: "walk_objects [] r = r"
  by (simp add: walk_objects.simps)

text \<open>Decoding touches neither the address nor the time nor the encryption flag.\<close>

lemma store_object_header [simp]:
  "bt_addr (store_object oid p r) = bt_addr r" "bt_last_ms (store_object oid p r) = bt_last_ms r"
  "bt_encrypted (store_object oid p r) = bt_encrypted r"
  by (simp_all add: store_object_def)

lemma walk_objects_header [simp]:
  "bt_addr (walk_objects bs r) = bt_addr r \<and> bt_last_ms (walk_objects bs r) = bt_last_ms r \<and>
   bt_encrypted (walk_objects bs r) = bt_encrypted r"
proof (induction bs r rule: walk_objects.induct)
  case (1 bs r)
  then show ?case
    by (simp add: walk_objects.simps [of bs] Let_def split: list.split)
qed

lemma decode_frame_header [simp]:
  "bt_addr (decode_frame a now frame) = a" "bt_last_ms (decode_frame a now frame) = now"
  by (simp_all add: decode_frame_def blank_reading_def Let_def)

definition carries :: "u8 set \<Rightarrow> (u8 \<times> u8 list) list \<Rightarrow> bool" where
  "carries ids obs \<longleftrightarrow> (\<exists>ob\<in>set obs. fst ob \<in> ids)"

lemma carries_simps [simp]: "\<not> carries ids []" "carries ids (ob # obs) \<longleftrightarrow> fst ob \<in> ids \<or> carries ids obs"
  by (auto simp: carries_def)

text \<open>Each object goes to its own field.\<close>

lemma store_object_fields:
  "bt_packet_id (store_object oid p r) = (if oid = 0x00 then Some (p ! 0) else bt_packet_id r)"
  "bt_battery (store_object oid p r) = (if oid = 0x01 then Some (p ! 0) else bt_battery r)"
  "bt_temperature (store_object oid p r) = (if oid = 0x02 then Some (rd_s16 p) else if oid = 0x45 then Some (sint (word_of_int (rd_s16 p * 10) :: u16)) else bt_temperature r)"
  "bt_humidity (store_object oid p r) = (if oid = 0x03 then Some (rd_u16 p) else if oid = 0x2E then Some (ucast (p ! 0) * 100) else bt_humidity r)"
  "bt_voltage (store_object oid p r) = (if oid = 0x0C then Some (rd_u16 p) else bt_voltage r)"
  "bt_illuminance (store_object oid p r) = (if oid = 0x05 then Some (rd_u24 p) else bt_illuminance r)"
  "bt_motion (store_object oid p r) = (if oid = 0x21 then Some (p ! 0) else bt_motion r)"
  "bt_button (store_object oid p r) = (if oid = 0x3A then Some (p ! 0) else bt_button r)"
  "bt_power (store_object oid p r) = (if oid = 0x0B then Some (rd_u24 p) else bt_power r)"
  "bt_co2 (store_object oid p r) = (if oid = 0x12 then Some (rd_u16 p) else bt_co2 r)"
  by (simp_all add: store_object_def)

lemma store_object_flags:
  "bt_packet_id (store_object oid p r) \<noteq> None \<longleftrightarrow> bt_packet_id r \<noteq> None \<or> oid \<in> {0x00}"
  "bt_battery (store_object oid p r) \<noteq> None \<longleftrightarrow> bt_battery r \<noteq> None \<or> oid \<in> {0x01}"
  "bt_temperature (store_object oid p r) \<noteq> None \<longleftrightarrow> bt_temperature r \<noteq> None \<or> oid \<in> {0x02, 0x45}"
  "bt_humidity (store_object oid p r) \<noteq> None \<longleftrightarrow> bt_humidity r \<noteq> None \<or> oid \<in> {0x03, 0x2E}"
  "bt_voltage (store_object oid p r) \<noteq> None \<longleftrightarrow> bt_voltage r \<noteq> None \<or> oid \<in> {0x0C}"
  "bt_illuminance (store_object oid p r) \<noteq> None \<longleftrightarrow> bt_illuminance r \<noteq> None \<or> oid \<in> {0x05}"
  "bt_motion (store_object oid p r) \<noteq> None \<longleftrightarrow> bt_motion r \<noteq> None \<or> oid \<in> {0x21}"
  "bt_button (store_object oid p r) \<noteq> None \<longleftrightarrow> bt_button r \<noteq> None \<or> oid \<in> {0x3A}"
  "bt_power (store_object oid p r) \<noteq> None \<longleftrightarrow> bt_power r \<noteq> None \<or> oid \<in> {0x0B}"
  "bt_co2 (store_object oid p r) \<noteq> None \<longleftrightarrow> bt_co2 r \<noteq> None \<or> oid \<in> {0x12}"
  by (simp_all add: store_object_fields)

lemma fold_flag:
  assumes "\<And>oid p r. P (store_object oid p r) \<longleftrightarrow> P r \<or> oid \<in> ids"
  shows "P (fold (case_prod store_object) obs r) \<longleftrightarrow> P r \<or> carries ids obs"
proof (induction obs arbitrary: r)
  case (Cons ob obs)
  have "P (fold (case_prod store_object) (ob # obs) r) \<longleftrightarrow> P (store_object (fst ob) (snd ob) r) \<or> carries ids obs"
    using Cons.IH by (simp add: case_prod_unfold)
  then show ?case using assms [of "fst ob" "snd ob" r] by (simp only: carries_simps disj_assoc)
qed simp

lemmas fold_store_flags =
  fold_flag [of "\<lambda>r. bt_packet_id r \<noteq> None", OF store_object_flags(1)]
  fold_flag [of "\<lambda>r. bt_battery r \<noteq> None", OF store_object_flags(2)]
  fold_flag [of "\<lambda>r. bt_temperature r \<noteq> None", OF store_object_flags(3)]
  fold_flag [of "\<lambda>r. bt_humidity r \<noteq> None", OF store_object_flags(4)]
  fold_flag [of "\<lambda>r. bt_voltage r \<noteq> None", OF store_object_flags(5)]
  fold_flag [of "\<lambda>r. bt_illuminance r \<noteq> None", OF store_object_flags(6)]
  fold_flag [of "\<lambda>r. bt_motion r \<noteq> None", OF store_object_flags(7)]
  fold_flag [of "\<lambda>r. bt_button r \<noteq> None", OF store_object_flags(8)]
  fold_flag [of "\<lambda>r. bt_power r \<noteq> None", OF store_object_flags(9)]
  fold_flag [of "\<lambda>r. bt_co2 r \<noteq> None", OF store_object_flags(10)]

section \<open>The cache as a bounded table\<close>

text \<open>Recording a version-2 frame: what \<open>ingest\<close> does once the frame has been accepted.\<close>

definition bt_record :: "u64 \<Rightarrow> u32 \<times> u8 list \<Rightarrow> reading list \<Rightarrow> reading list" where
  "bt_record a x rs = put_slot (get_slot a rs) (decode_frame a (fst x) (snd x)) rs"

lemma bt_ingest_v2:
  "frame \<noteq> [] \<Longrightarrow> drop_bit 5 (hd frame) AND 0x07 = 0x02 \<Longrightarrow> bt_ingest now a frame rs = bt_record a (now, frame) rs"
  by (simp add: bt_ingest_def bt_record_def Suc_le_eq)

lemma bt_ingest_other:
  "frame = [] \<or> drop_bit 5 (hd frame) AND 0x07 \<noteq> 0x02 \<Longrightarrow> bt_ingest now a frame rs = rs"
  by (auto simp: bt_ingest_def)

interpretation bc: lru_table bt_addr bt_last_ms bt_CACHE_SIZE "\<lambda>a x old. decode_frame a (fst x) (snd x)" bt_record
proof unfold_locales
  fix k rs and x :: "u32 \<times> u8 list"
  show "\<exists>i. i < length rs \<and> bt_addr (rs ! i) = k \<and> bt_record k x rs = rs[i := decode_frame k (fst x) (snd x)]"
    if mem: "k \<in> bt_addr ` set rs"
  proof -
    have "find_idx (\<lambda>r. bt_addr r = k) rs \<noteq> None" using mem by (auto simp: find_idx_None)
    then obtain i where i: "find_idx (\<lambda>r. bt_addr r = k) rs = Some i" by blast
    then show ?thesis using find_idx_SomeD [OF i] by (auto simp: bt_record_def get_slot_def put_slot_def)
  qed
  have none: "find_idx (\<lambda>r. bt_addr r = k) rs = None" if "k \<notin> bt_addr ` set rs"
    using that by (auto simp: find_idx_None)
  show "bt_record k x rs = rs @ [decode_frame k (fst x) (snd x)]"
    if "k \<notin> bt_addr ` set rs" "length rs < bt_CACHE_SIZE"
    using none [OF that(1)] that(2) by (simp add: bt_record_def get_slot_def put_slot_def)
  show "\<exists>i. i < length rs \<and> bt_record k x rs = rs[i := decode_frame k (fst x) (snd x)] \<and>
      (\<forall>q\<in>set rs. bt_last_ms (rs ! i) \<le> bt_last_ms q)"
    if "k \<notin> bt_addr ` set rs" "length rs = bt_CACHE_SIZE"
  proof -
    have "rs \<noteq> []" using that(2) by (auto simp: bt_CACHE_SIZE_def)
    then show ?thesis using none [OF that(1)] that(2) argmin_idx_spec [where xs = rs and f = bt_last_ms]
      by (intro exI [of _ "argmin_idx bt_last_ms rs"]) (auto simp: bt_record_def get_slot_def put_slot_def)
  qed
qed simp_all

section \<open>Properties\<close>



text \<open>The BTHome cache. Rows stay at most 32 and one per address. An accepted frame replaces its
  address's row by exactly what the frame decodes to; every other address keeps its row, unless the cache
  was full and the address new, and then only a row with the smallest time stamp is given up.\<close>

theorem bthome_cache_update:
  assumes "bc.table_ok rs" "frame \<noteq> []" "drop_bit 5 (hd frame) AND 0x07 = 0x02" "b \<noteq> a"
  shows "bc.table_ok (bt_ingest now a frame rs) \<and>
     bc.lookup a (bt_ingest now a frame rs) = Some (decode_frame a now frame) \<and>
     (bc.lookup b (bt_ingest now a frame rs) = bc.lookup b rs \<or>
      bc.lookup a rs = None \<and> length rs = bt_CACHE_SIZE \<and>
      (\<exists>q. bc.lookup b rs = Some q \<and> (\<forall>q'\<in>set rs. bt_last_ms q \<le> bt_last_ms q')))"
  using bc.put_ok [OF assms(1)] bc.lookup_put [OF assms(1)] bc.lookup_put_other [OF assms(1,4), of "(now, frame)"]
  by (auto simp: bt_ingest_v2 [OF assms(2,3)])

theorem bthome_cache_update_witness:
  "bc.lookup 7 (bt_ingest 5 7 [0x40, 0x01, 0x5A] []) = Some (decode_frame 7 5 [0x40, 0x01, 0x5A])"
proof -
  have "bc.table_ok []" by (simp add: bc.table_ok_def)
  then show ?thesis using bthome_cache_update [of "[]" "[0x40, 0x01, 0x5A]" 8 7 5] by simp
qed

end
