(* ===== verification/Nimble.thy ===== *)
theory Nimble
  imports Nbp_Prelude
begin

text \<open>
  The data the firmware reads from NimBLE-Cpp objects (third-party code): UUIDs, what an advertising report
  offers, and the attribute tree of a connected peer. They are plain inputs of the model; nothing is said
  about how NimBLE produces them.
\<close>

text \<open>A \<open>NimBLEUUID\<close>: \<open>bitSize()\<close>, \<open>getValue()\<close>, and \<open>getValue()\<close> after \<open>to128()\<close> (little-endian bytes).\<close>

record ble_uuid =
  uu_bits :: nat
  uu_value :: "u8 list"
  uu_128 :: "u8 list"

record adv_report =
  ar_addr :: u64
  ar_addr_type :: u8
  ar_rssi :: int
  ar_name :: string
  ar_payload :: "u8 list"
  ar_appearance :: "u16 option"
  ar_connectable :: bool
  ar_mfg :: "u8 list"
  ar_uuids :: "ble_uuid list"
  ar_bthome :: "u8 list"        \<comment> \<open>service data of UUID 0xFCD2, empty when absent\<close>

record remote_descriptor =
  rde_handle :: u16
  rde_uuid :: ble_uuid

record remote_characteristic =
  rch_handle :: u16
  rch_uuid :: ble_uuid
  rch_broadcast :: bool
  rch_read :: bool
  rch_write_no_rsp :: bool
  rch_write :: bool
  rch_notify :: bool
  rch_indicate :: bool
  rch_write_signed :: bool
  rch_descriptors :: "remote_descriptor list"

record remote_service =
  rsv_handle :: u16
  rsv_uuid :: ble_uuid
  rsv_characteristics :: "remote_characteristic list"

text \<open>\<open>memcpy(dst, src, min(len, sizeof dst))\<close>.\<close>

definition clamp_copy :: "nat \<Rightarrow> 'a list \<Rightarrow> 'a list" where
  "clamp_copy cap xs = take (if length xs > cap then cap else length xs) xs"

lemma clamp_copy_take: "clamp_copy cap xs = take cap xs"
  by (simp add: clamp_copy_def)

lemma clamp_copy_length: "length (clamp_copy cap xs) \<le> cap"
  by (simp add: clamp_copy_take)

end
