(* ===== verification/Scanner.thy ===== *)
theory Scanner
  imports Interfaces Api_Proto Nimble Bthome
begin

text \<open>
  The scanner, \<^verbatim>\<open>components/ble_backend/scanner.cpp\<close>: classification and recording of the devices heard,
  the batch of raw advertisements that is forwarded, and the control of the NimBLE scan. \<open>sc_present\<close> says
  that the scan object exists and \<open>sc_scanning\<close> is its \<open>isScanning()\<close>; whether a start succeeds, the clock
  and whether a transport client is connected are arguments.
\<close>

section \<open>State\<close>

record device_row =
  dv_addr :: u64
  dv_addr_type :: u8
  dv_rssi :: int
  dv_name :: string
  dv_adv_count :: u32
  dv_last_ms :: u32
  dv_appearance :: u16
  dv_connectable :: bool
  dv_tag :: "string option"

record scanner =
  sc_present :: bool
  sc_scanning :: bool
  sc_forwarding :: bool
  sc_adv_count :: u32
  sc_window_ms :: u16
  sc_interval_ms :: u16
  sc_active :: bool
  sc_pending :: "raw_adv list"
  sc_devices :: "device_row list"

definition DEV_CAP :: nat where "DEV_CAP = 64"
definition DEVICE_STALE_MS :: u32 where "DEVICE_STALE_MS = 1800000"
definition DEVICE_PRUNE_INTERVAL_MS :: u32 where "DEVICE_PRUNE_INTERVAL_MS = 60000"

definition blank_row :: device_row where
  "blank_row = \<lparr>dv_addr = 0, dv_addr_type = 0, dv_rssi = 0, dv_name = [], dv_adv_count = 0, dv_last_ms = 0,
     dv_appearance = 0, dv_connectable = False, dv_tag = None\<rparr>"

section \<open>The device table\<close>

text \<open>The index of the row of \<open>addr\<close> and the table in which that row exists.\<close>

definition find_or_alloc_device :: "u64 \<Rightarrow> device_row list \<Rightarrow> nat \<times> device_row list" where
  "find_or_alloc_device a rows =
     (case find_idx (\<lambda>r. dv_addr r = a) rows of
        Some i \<Rightarrow> (i, rows)
      | None \<Rightarrow>
          if length rows < DEV_CAP then (length rows, rows @ [blank_row\<lparr>dv_addr := a\<rparr>])
          else let oldest = argmin_idx dv_last_ms rows in (oldest, rows[oldest := blank_row\<lparr>dv_addr := a\<rparr>]))"

definition row_stale :: "u32 \<Rightarrow> device_row \<Rightarrow> bool" where
  "row_stale now r \<longleftrightarrow> now - dv_last_ms r > DEVICE_STALE_MS"

text \<open>The sweep: the last row is moved into each hole, and tested again.\<close>

function prune_loop :: "u32 \<Rightarrow> nat \<Rightarrow> device_row list \<Rightarrow> device_row list" where
  "prune_loop now i rows =
     (if i < length rows then
        if row_stale now (rows ! i) then prune_loop now i (butlast (rows[i := last rows]))
        else prune_loop now (Suc i) rows
      else rows)"
  by auto

termination prune_loop
  by (relation "measure (\<lambda>(now, i, rows). 2 * length rows - i)") auto

declare prune_loop.simps [simp del]

definition prune_stale_devices :: "u32 \<Rightarrow> device_row list \<Rightarrow> device_row list" where
  "prune_stale_devices now rows = prune_loop now 0 rows"

section \<open>Classification\<close>

definition mid_dot :: string where "mid_dot = [CHR 0xC2, CHR 0xB7]"

definition ESTIMOTE :: "u8 list" where
  "ESTIMOTE = [0xB9, 0x40, 0x7F, 0x30, 0xF5, 0xF8, 0x46, 0x6E, 0xAF, 0xF9, 0x25, 0x55, 0x6B, 0x57, 0xFE, 0x6D]"
definition KONTAKT :: "u8 list" where
  "KONTAKT = [0xF7, 0x82, 0x6D, 0xA6, 0x4F, 0xA2, 0x4E, 0x98, 0x80, 0x24, 0xBC, 0x5B, 0x71, 0xE0, 0x89, 0x3E]"
definition RADIUS :: "u8 list" where
  "RADIUS = [0x2F, 0x23, 0x44, 0x54, 0xCF, 0x6D, 0x4A, 0x0F, 0xAD, 0xF2, 0xF4, 0x91, 0x1B, 0xA9, 0xFF, 0xA6]"
definition AIRLOCATE :: "u8 list" where
  "AIRLOCATE = [0xE2, 0xC5, 0x6D, 0xB5, 0xDF, 0xFB, 0x48, 0xD2, 0xB0, 0x60, 0xD0, 0xF5, 0xA7, 0x10, 0x96, 0xE0]"
definition TESLA :: "u8 list" where
  "TESLA = [0x74, 0x27, 0x8B, 0xDA, 0xB6, 0x44, 0x45, 0x20, 0x8F, 0x0C, 0x72, 0x0E, 0xAF, 0x05, 0x99, 0x35]"
definition NORDIC_UART :: "u8 list" where
  "NORDIC_UART = [0x6E, 0x40, 0x00, 0x01, 0xB5, 0xA3, 0xF3, 0x93, 0xE0, 0xA9, 0xE5, 0x0E, 0x24, 0xDC, 0xCA, 0x9E]"
definition TI_SENSORTAG :: "u8 list" where
  "TI_SENSORTAG = [0xF0, 0x00, 0xAA, 0x00, 0x04, 0x51, 0x40, 0x00, 0xB0, 0x00, 0, 0, 0, 0, 0, 0]"

definition classify_ibeacon :: "u8 list \<Rightarrow> string" where
  "classify_ibeacon u =
     (if u = TESLA then ''iBeacon'' @ mid_dot @ ''Tesla''
      else if u = ESTIMOTE then ''iBeacon'' @ mid_dot @ ''Estimote''
      else if u = KONTAKT then ''iBeacon'' @ mid_dot @ ''Kontakt''
      else if u = RADIUS then ''iBeacon'' @ mid_dot @ ''RadBeacon''
      else if u = AIRLOCATE then ''iBeacon'' @ mid_dot @ ''AirLocate''
      else ''iBeacon'')"

definition apple_subtypes :: "(u8 \<times> string) list" where
  "apple_subtypes = [(0x05, ''AirDrop''), (0x07, ''AirPods''), (0x09, ''AirPlay''), (0x0C, ''Handoff''),
     (0x0D, ''WiFiSettings''), (0x0E, ''Hotspot''), (0x0F, ''NearbyAction''), (0x10, ''NearbyInfo''),
     (0x12, ''FindMy''), (0x16, ''HomeKit'')]"

definition company_names :: "(u16 \<times> string) list" where
  "company_names = [(0x0006, ''Microsoft''), (0x0075, ''Samsung''), (0x00E0, ''Google''), (0x0087, ''Garmin''),
     (0x009E, ''Bose''), (0x012D, ''Sony''), (0x05A7, ''Sonos''), (0x004D, ''Sennheiser''), (0x015E, ''Tile''),
     (0x0499, ''Ruuvi''), (0x02E1, ''Victron''), (0x038F, ''Xiaomi''), (0x0157, ''Anker''), (0x0059, ''Nordic''),
     (0x02E5, ''Espressif''), (0x00C4, ''LG'')]"

definition service_names :: "(u16 \<times> string) list" where
  "service_names = [(0xFCD2, ''BTHome''), (0xFE9F, ''FastPair''), (0xFE2C, ''FastPair''), (0xFEAA, ''Eddystone''),
     (0xFD6F, ''ENS''), (0xFE95, ''MiBeacon''), (0xFDA0, ''SwitchBot''), (0x180F, ''Battery''),
     (0x181A, ''EnvSense''), (0x1812, ''HID''), (0x180D, ''HeartRate''), (0x1816, ''Cycling''), (0x180A, ''DevInfo'')]"

definition classify_mfg :: "u8 list \<Rightarrow> string option" where
  "classify_mfg mfg =
     (if length mfg \<ge> 2 then
        let cid = ucast (mfg ! 0) OR push_bit 8 (ucast (mfg ! 1)) :: u16 in
        if length mfg \<ge> 4 \<and> mfg ! 2 = 0xBE \<and> mfg ! 3 = 0xAC then Some ''AltBeacon''
        else if cid = 0x004C \<and> length mfg \<ge> 3 then
          let sub = mfg ! 2 in
          if sub = 0x02 \<and> length mfg \<ge> 25 \<and> mfg ! 3 = 0x15 then Some (classify_ibeacon (take 16 (drop 4 mfg)))
          else if sub = 0x02 \<and> length mfg \<ge> 4 \<and> mfg ! 3 = 0x15 then Some ''iBeacon''
          else (case map_of apple_subtypes sub of Some n \<Rightarrow> Some n | None \<Rightarrow> Some ''Apple'')
        else map_of company_names cid
      else None)"

fun classify_services :: "ble_uuid list \<Rightarrow> string option" where
  "classify_services [] = None"
| "classify_services (u # us) =
     (let hit =
        (if uu_bits u = 16 then
           map_of service_names (ucast (uu_value u ! 0) OR push_bit 8 (ucast (uu_value u ! 1)))
         else if uu_bits u = 128 then
           (if uu_value u = rev TESLA then Some ''Tesla''
            else if uu_value u = rev NORDIC_UART then Some ''NordicUART''
            else if uu_value u = rev TI_SENSORTAG then Some ''TI SensorTag'' else None)
         else None)
      in case hit of Some n \<Rightarrow> Some n | None \<Rightarrow> classify_services us)"

definition classify_device :: "adv_report \<Rightarrow> string option" where
  "classify_device dev =
     (case classify_mfg (ar_mfg dev) of Some n \<Rightarrow> Some n | None \<Rightarrow> classify_services (ar_uuids dev))"

section \<open>Recording and forwarding\<close>

definition int8_of :: "int \<Rightarrow> int" where
  "int8_of r = sint (word_of_int r :: u8)"

definition update_row :: "u32 \<Rightarrow> adv_report \<Rightarrow> device_row \<Rightarrow> device_row" where
  "update_row now dev row =
     (let app = (case ar_appearance dev of Some a \<Rightarrow> a | None \<Rightarrow> 0);
          tag = classify_device dev;
          row = row\<lparr>dv_addr_type := ar_addr_type dev, dv_rssi := int8_of (ar_rssi dev),
                    dv_adv_count := dv_adv_count row + 1, dv_last_ms := now\<rparr>;
          row = (if app \<noteq> 0 then row\<lparr>dv_appearance := app\<rparr> else row);
          row = row\<lparr>dv_connectable := ar_connectable dev\<rparr>;
          row = (case tag of Some t \<Rightarrow> row\<lparr>dv_tag := Some t\<rparr> | None \<Rightarrow> row)
      in if ar_name dev \<noteq> [] then row\<lparr>dv_name := clamp_copy 23 (ar_name dev)\<rparr> else row)"

definition record_device :: "u64 \<Rightarrow> u32 \<times> adv_report \<Rightarrow> device_row list \<Rightarrow> device_row list" where
  "record_device a x rows =
     (let (i, rows') = find_or_alloc_device a rows
      in rows'[i := update_row (fst x) (snd x) (rows' ! i)])"

definition raw_record :: "adv_report \<Rightarrow> raw_adv" where
  "raw_record dev = \<lparr>ra_address = ar_addr dev, ra_rssi = ar_rssi dev, ra_address_type = ucast (ar_addr_type dev),
     ra_data = clamp_copy 62 (ar_payload dev)\<rparr>"

text \<open>The scan callback: the scanner, the BTHome cache, and whether the flush task is woken.\<close>

definition on_result ::
  "bool \<Rightarrow> u32 \<Rightarrow> adv_report \<Rightarrow> scanner \<times> reading list \<Rightarrow> (scanner \<times> reading list) \<times> bool" where
  "on_result has_client now dev st =
     (let (sc, bts) = st;
          sc = sc\<lparr>sc_adv_count := sc_adv_count sc + 1\<rparr>;
          sc = sc\<lparr>sc_devices := record_device (ar_addr dev) (now, dev) (sc_devices sc)\<rparr>;
          bts = (if ar_bthome dev \<noteq> [] then bt_ingest now (ar_addr dev) (ar_bthome dev) bts else bts)
      in if \<not> sc_forwarding sc then ((sc, bts), False)
         else if \<not> has_client then ((sc, bts), False)
         else if length (sc_pending sc) < ADV_BATCH_SIZE then
           let sc = sc\<lparr>sc_pending := sc_pending sc @ [raw_record dev]\<rparr>
           in ((sc, bts), length (sc_pending sc) \<ge> ADV_BATCH_SIZE)
         else ((sc, bts), False))"

text \<open>One flush: the batch is taken out in any case, and is a message when a client is connected.\<close>

definition flush_once :: "bool \<Rightarrow> scanner \<Rightarrow> scanner \<times> pb_msg option" where
  "flush_once has_client sc =
     (if sc_pending sc = [] then (sc, None)
      else (sc\<lparr>sc_pending := []\<rparr>,
            if has_client then Some (RawAdvertisementsResponse (sc_pending sc)) else None))"

text \<open>One turn of the flush task; \<open>ticks\<close> is the tick counter, \<open>tick_ms\<close> the tick period.\<close>

definition flush_turn :: "u32 \<Rightarrow> u32 \<Rightarrow> bool \<Rightarrow> u32 \<Rightarrow> scanner \<Rightarrow> (scanner \<times> u32) \<times> pb_msg option" where
  "flush_turn tick_ms ticks has_client last_prune sc =
     (let (sc, m) = flush_once has_client sc in
      if ticks - last_prune \<ge> DEVICE_PRUNE_INTERVAL_MS div tick_ms then
        ((sc\<lparr>sc_devices := prune_stale_devices (ticks * tick_ms) (sc_devices sc)\<rparr>, ticks), m)
      else ((sc, last_prune), m))"

section \<open>Scan control\<close>

definition scanner_initial :: scanner where
  "scanner_initial = \<lparr>sc_present = False, sc_scanning = False, sc_forwarding = False, sc_adv_count = 0,
     sc_window_ms = 30, sc_interval_ms = 60, sc_active = True, sc_pending = [], sc_devices = []\<rparr>"

definition scanner_init :: "scanner \<Rightarrow> scanner" where
  "scanner_init sc = sc\<lparr>sc_present := True\<rparr>"

definition scanner_start :: "bool \<Rightarrow> scanner \<Rightarrow> scanner" where
  "scanner_start ok sc = (if \<not> sc_present sc then sc else sc\<lparr>sc_scanning := sc_scanning sc \<or> ok\<rparr>)"

definition restart_scan :: "bool \<Rightarrow> scanner \<Rightarrow> scanner" where
  "restart_scan ok sc = (if sc_scanning sc then sc\<lparr>sc_scanning := ok\<rparr> else sc)"

definition set_duty :: "bool \<Rightarrow> u16 \<Rightarrow> u16 \<Rightarrow> scanner \<Rightarrow> scanner" where
  "set_duty ok window_ms interval_ms sc =
     (if \<not> sc_present sc then sc
      else restart_scan ok (sc\<lparr>sc_window_ms := window_ms, sc_interval_ms := interval_ms\<rparr>))"

definition set_active :: "bool \<Rightarrow> bool \<Rightarrow> scanner \<Rightarrow> scanner" where
  "set_active ok on sc = (if \<not> sc_present sc then sc else restart_scan ok (sc\<lparr>sc_active := on\<rparr>))"

definition scanner_resume :: "bool \<Rightarrow> scanner \<Rightarrow> scanner" where
  "scanner_resume ok sc =
     (if \<not> sc_present sc then sc else if sc_scanning sc then sc else sc\<lparr>sc_scanning := ok\<rparr>)"

definition scanner_pause :: "scanner \<Rightarrow> scanner" where
  "scanner_pause sc =
     (if \<not> sc_present sc then sc else if \<not> sc_scanning sc then sc else sc\<lparr>sc_scanning := False\<rparr>)"

definition start_forwarding :: "scanner \<Rightarrow> scanner" where
  "start_forwarding sc = sc\<lparr>sc_forwarding := True\<rparr>"

definition stop_forwarding :: "scanner \<Rightarrow> scanner" where
  "stop_forwarding sc = sc\<lparr>sc_forwarding := False, sc_pending := []\<rparr>"

definition snapshot_devices :: "nat \<Rightarrow> scanner \<Rightarrow> device_row list" where
  "snapshot_devices cap sc = take (if length (sc_devices sc) < cap then length (sc_devices sc) else cap) (sc_devices sc)"

section \<open>The device table as a bounded table\<close>

definition sighting :: "u64 \<Rightarrow> u32 \<times> adv_report \<Rightarrow> device_row option \<Rightarrow> device_row" where
  "sighting a x old =
     update_row (fst x) (snd x) (case old of Some r \<Rightarrow> r | None \<Rightarrow> blank_row\<lparr>dv_addr := a\<rparr>)"

lemma update_row_addr [simp]: "dv_addr (update_row now dev r) = dv_addr r"
  and update_row_last [simp]: "dv_last_ms (update_row now dev r) = now"
  by (simp_all add: update_row_def Let_def split: option.split)

lemma update_row_name: "length (dv_name r) < 24 \<Longrightarrow> length (dv_name (update_row now dev r)) < 24"
  by (auto simp: update_row_def Let_def clamp_copy_take min_def split: option.split)

interpretation dt: lru_table dv_addr dv_last_ms DEV_CAP sighting record_device
proof unfold_locales
  fix k rs and x :: "u32 \<times> adv_report"
  show "\<exists>i. i < length rs \<and> dv_addr (rs ! i) = k \<and> record_device k x rs = rs[i := sighting k x (Some (rs ! i))]"
    if mem: "k \<in> dv_addr ` set rs"
  proof -
    have "find_idx (\<lambda>r. dv_addr r = k) rs \<noteq> None" using mem by (auto simp: find_idx_None)
    then obtain i where i: "find_idx (\<lambda>r. dv_addr r = k) rs = Some i" by blast
    then show ?thesis using find_idx_SomeD [OF i]
      by (auto simp: record_device_def find_or_alloc_device_def sighting_def)
  qed
  have none: "find_idx (\<lambda>r. dv_addr r = k) rs = None" if "k \<notin> dv_addr ` set rs"
    using that by (auto simp: find_idx_None)
  show "record_device k x rs = rs @ [sighting k x None]"
    if "k \<notin> dv_addr ` set rs" "length rs < DEV_CAP"
    using none [OF that(1)] that(2)
    by (simp add: record_device_def find_or_alloc_device_def sighting_def nth_append list_update_append)
  show "\<exists>i. i < length rs \<and> record_device k x rs = rs[i := sighting k x None] \<and>
      (\<forall>q\<in>set rs. dv_last_ms (rs ! i) \<le> dv_last_ms q)"
    if "k \<notin> dv_addr ` set rs" "length rs = DEV_CAP"
  proof -
    have "rs \<noteq> []" using that(2) by (auto simp: DEV_CAP_def)
    then show ?thesis using none [OF that(1)] that(2) argmin_idx_spec [where xs = rs and f = dv_last_ms]
      by (intro exI [of _ "argmin_idx dv_last_ms rs"])
         (auto simp: record_device_def find_or_alloc_device_def sighting_def Let_def)
  qed
qed (simp_all add: sighting_def)

section \<open>Pruning\<close>

lemma mset_swap_last:
  assumes "i < length rows"
  shows "mset (butlast (rows[i := last rows])) + {#rows ! i#} = mset rows"
proof (cases "i = length rows - 1")
  case True
  then have "butlast (rows[i := last rows]) = butlast rows" using assms
    by (metis butlast_list_update)
  moreover have "rows ! i = last rows" using True assms by (cases rows) (auto simp: last_conv_nth)
  ultimately show ?thesis using assms by (metis append_butlast_last_id length_0_conv mset.simps(1,2) mset_append not_less0)
next
  case False
  then have i: "i < length (butlast rows)" using assms by simp
  have ne: "rows \<noteq> []" using assms by auto
  have "butlast (rows[i := last rows]) = (butlast rows)[i := last rows]"
    using False by (simp add: butlast_list_update)
  moreover have "rows ! i = butlast rows ! i" using i by (simp add: nth_butlast)
  moreover have "mset rows = mset (butlast rows) + {#last rows#}"
    using append_butlast_last_id [OF ne] by (metis mset.simps(1,2) mset_append)
  ultimately show ?thesis using i by (simp add: mset_update)
qed

lemma prune_loop_mset:
  assumes "\<forall>j<i. j < length rows \<longrightarrow> \<not> row_stale now (rows ! j)"
  shows "mset (prune_loop now i rows) = filter_mset (\<lambda>r. \<not> row_stale now r) (mset rows)"
  using assms
proof (induction now i rows rule: prune_loop.induct)
  case (1 now i rows)
  show ?case
  proof (cases "i < length rows")
    case False
    then have "\<forall>r\<in>set rows. \<not> row_stale now r" using 1(3) by (auto simp: in_set_conv_nth)
    then have "filter_mset (\<lambda>r. \<not> row_stale now r) (mset rows) = mset rows"
      by (simp add: filter_mset_eq_conv)
    with False show ?thesis by (simp add: prune_loop.simps [of now i rows])
  next
    case i: True
    show ?thesis
    proof (cases "row_stale now (rows ! i)")
      case True
      let ?rows = "butlast (rows[i := last rows])"
      have "\<forall>j<i. j < length ?rows \<longrightarrow> \<not> row_stale now (?rows ! j)"
        using 1(3) i by (auto simp: nth_butlast)
      then have "mset (prune_loop now i ?rows) = filter_mset (\<lambda>r. \<not> row_stale now r) (mset ?rows)"
        using 1(1) i True by simp
      also have "\<dots> = filter_mset (\<lambda>r. \<not> row_stale now r) (mset ?rows + {#rows ! i#})" using True by simp
      also have "\<dots> = filter_mset (\<lambda>r. \<not> row_stale now r) (mset rows)" by (simp only: mset_swap_last [OF i])
      finally show ?thesis using i True by (simp add: prune_loop.simps [of now i rows])
    next
      case False
      then have "\<forall>j<Suc i. j < length rows \<longrightarrow> \<not> row_stale now (rows ! j)"
        using 1(3) by (auto simp: less_Suc_eq)
      then show ?thesis using 1(2) i False by (simp add: prune_loop.simps [of now i rows])
    qed
  qed
qed

lemma prune_mset: "mset (prune_stale_devices now rows) = filter_mset (\<lambda>r. \<not> row_stale now r) (mset rows)"
  by (simp add: prune_stale_devices_def prune_loop_mset)

lemma prune_table_ok: "dt.table_ok rows \<Longrightarrow> dt.table_ok (prune_stale_devices now rows)"
proof -
  assume ok: "dt.table_ok rows"
  let ?p = "prune_stale_devices now rows"
  have m: "mset ?p = mset (filter (\<lambda>r. \<not> row_stale now r) rows)" by (simp add: prune_mset)
  then have "mset (map dv_addr ?p) = mset (map dv_addr (filter (\<lambda>r. \<not> row_stale now r) rows))" by simp
  moreover have "distinct (map dv_addr (filter (\<lambda>r. \<not> row_stale now r) rows))"
    using ok by (simp add: dt.table_ok_def distinct_map_filter)
  ultimately have "distinct (map dv_addr ?p)" by (metis mset_eq_imp_distinct_iff)
  moreover have "length ?p \<le> length rows" using mset_eq_length [OF m] by (simp add: length_filter_le)
  ultimately show ?thesis using ok by (simp add: dt.table_ok_def)
qed

section \<open>The forwarding path\<close>

definition scanner_inv :: "scanner \<Rightarrow> bool" where
  "scanner_inv sc \<longleftrightarrow> length (sc_pending sc) \<le> ADV_BATCH_SIZE \<and>
     (\<forall>r\<in>set (sc_pending sc). length (ra_data r) \<le> 62) \<and> dt.table_ok (sc_devices sc)"

lemma raw_record_bound: "length (ra_data (raw_record dev)) \<le> 62"
  by (simp add: raw_record_def clamp_copy_length)

lemma on_result_inv: "scanner_inv sc \<Longrightarrow> scanner_inv (fst (fst (on_result hc now dev (sc, bts))))"
  by (auto simp: on_result_def scanner_inv_def Let_def dt.put_ok raw_record_bound)

lemma flush_turn_inv: "scanner_inv sc \<Longrightarrow> scanner_inv (fst (fst (flush_turn tm t hc lp sc)))"
  by (auto simp: flush_turn_def flush_once_def scanner_inv_def Let_def prune_table_ok split: prod.split)

lemma control_inv:
  "scanner_inv sc \<Longrightarrow> scanner_inv (stop_forwarding sc)" "scanner_inv sc \<Longrightarrow> scanner_inv (start_forwarding sc)"
  "scanner_inv sc \<Longrightarrow> scanner_inv (scanner_pause sc)" "scanner_inv sc \<Longrightarrow> scanner_inv (scanner_resume ok sc)"
  "scanner_inv sc \<Longrightarrow> scanner_inv (set_duty ok w i sc)" "scanner_inv sc \<Longrightarrow> scanner_inv (set_active ok b sc)"
  by (auto simp: scanner_inv_def stop_forwarding_def start_forwarding_def scanner_pause_def scanner_resume_def
      set_duty_def set_active_def restart_scan_def)

text \<open>A burst of reports between two flushes.\<close>

fun on_results :: "bool \<Rightarrow> (u32 \<times> adv_report) list \<Rightarrow> scanner \<times> reading list \<Rightarrow> scanner \<times> reading list" where
  "on_results hc [] st = st"
| "on_results hc ((now, dev) # ds) st = on_results hc ds (fst (on_result hc now dev st))"

lemma on_result_pending:
  "sc_pending (fst (fst (on_result hc now dev (sc, bts)))) =
     (if sc_forwarding sc \<and> hc then
        (if length (sc_pending sc) < ADV_BATCH_SIZE then sc_pending sc @ [raw_record dev] else sc_pending sc)
      else sc_pending sc)"
  "sc_forwarding (fst (fst (on_result hc now dev (sc, bts)))) = sc_forwarding sc"
  "sc_adv_count (fst (fst (on_result hc now dev (sc, bts)))) = sc_adv_count sc + 1"
  by (simp_all add: on_result_def Let_def)

lemma on_results_pending:
  assumes "sc_forwarding sc" "length (sc_pending sc) \<le> ADV_BATCH_SIZE"
  shows "sc_pending (fst (on_results True ds (sc, bts))) =
     take ADV_BATCH_SIZE (sc_pending sc @ map (raw_record \<circ> snd) ds)"
  using assms
proof (induction ds arbitrary: sc bts)
  case (Cons d ds)
  obtain now dev where d: "d = (now, dev)" by (cases d)
  obtain sc1 bts1 where r: "fst (on_result True now dev (sc, bts)) = (sc1, bts1)" by fastforce
  have p: "sc_pending sc1 = (if length (sc_pending sc) < ADV_BATCH_SIZE then sc_pending sc @ [raw_record dev] else sc_pending sc)"
    and f: "sc_forwarding sc1"
    using on_result_pending [of True now dev sc bts] Cons.prems(1) r by simp_all
  have "length (sc_pending sc1) \<le> ADV_BATCH_SIZE" using p Cons.prems(2) by simp
  from Cons.IH [OF f this, of bts1] show ?case using d r p Cons.prems(2)
    by (auto simp: take_Cons' Suc_diff_Suc)
qed simp

section \<open>Properties\<close>

text \<open>The sweep of the device table removes exactly the rows not seen for more than half an hour. The age
  is the modular difference of the 32-bit millisecond clock, so this holds across the wrap of the clock;
  the table stays one row per address.\<close>

theorem prune_exact:
  assumes "dt.table_ok rows"
  shows "mset (prune_stale_devices now rows) = filter_mset (\<lambda>r. unat (now - dv_last_ms r) \<le> 1800000) (mset rows) \<and>
     dt.table_ok (prune_stale_devices now rows)"
proof -
  have "\<not> row_stale now r \<longleftrightarrow> unat (now - dv_last_ms r) \<le> 1800000" for r
    by (simp add: row_stale_def DEVICE_STALE_MS_def word_less_nat_alt not_less)
  then show ?thesis using prune_mset [of now rows] prune_table_ok [OF assms] by simp
qed

definition row_at :: "u64 \<Rightarrow> u32 \<Rightarrow> device_row" where
  "row_at a t = blank_row\<lparr>dv_addr := a, dv_last_ms := t\<rparr>"

theorem prune_exact_witness:
  "mset (prune_stale_devices 5000 [row_at 1 0xFFFFFF00, row_at 2 4000, row_at 3 0xFFC00000]) =
     {#row_at 1 0xFFFFFF00, row_at 2 4000#}"
proof -
  have "dt.table_ok [row_at 1 0xFFFFFF00, row_at 2 4000, row_at 3 0xFFC00000]"
    unfolding dt.table_ok_def by (simp add: row_at_def blank_row_def DEV_CAP_def)
  from prune_exact [OF this, of 5000] show ?thesis by (simp add: row_at_def blank_row_def)
qed


definition demo_report :: adv_report where
  "demo_report = \<lparr>ar_addr = 2, ar_addr_type = 1, ar_rssi = -60, ar_name = [], ar_payload = [2, 1, 6],
     ar_appearance = None, ar_connectable = True, ar_mfg = [0x4C, 0x00, 0x10], ar_uuids = [], ar_bthome = []\<rparr>"


text \<open>C14: what is forwarded. While forwarding is on and a client is connected, the reports of a burst are
  queued in order up to the batch size of sixteen (later ones are dropped, never reordered), the next flush
  sends exactly the queue as one message and leaves it empty, and stopping discards what was queued.\<close>

theorem forwarding_batch:
  assumes "scanner_inv sc" "sc_forwarding sc" "on_results True ds (sc, bts) = (sc', bts')"
    "take ADV_BATCH_SIZE (sc_pending sc @ map (raw_record \<circ> snd) ds) \<noteq> []"
  shows "flush_once True sc' =
       (sc'\<lparr>sc_pending := []\<rparr>,
        Some (RawAdvertisementsResponse (take ADV_BATCH_SIZE (sc_pending sc @ map (raw_record \<circ> snd) ds)))) \<and>
     sc_pending (stop_forwarding sc') = []"
proof -
  have "sc_pending sc' = take ADV_BATCH_SIZE (sc_pending sc @ map (raw_record \<circ> snd) ds)"
    using on_results_pending [of sc ds bts] assms(1-3) by (simp add: scanner_inv_def)
  then show ?thesis using assms(4) by (simp add: flush_once_def stop_forwarding_def)
qed

theorem forwarding_batch_witness:
  "snd (flush_once True (fst (on_results True [(7, demo_report)] (scanner_initial\<lparr>sc_forwarding := True\<rparr>, [])))) =
     Some (RawAdvertisementsResponse [\<lparr>ra_address = 2, ra_rssi = -60, ra_address_type = 1, ra_data = [2, 1, 6]\<rparr>])"
proof -
  let ?sc = "scanner_initial\<lparr>sc_forwarding := True\<rparr>"
  have "scanner_inv ?sc" by (simp add: scanner_inv_def scanner_initial_def dt.table_ok_def)
  from forwarding_batch [OF this, of "[(7, demo_report)]" "[]"] show ?thesis
    by (cases "on_results True [(7, demo_report)] (?sc, [])")
       (simp add: scanner_initial_def raw_record_def demo_report_def clamp_copy_def ADV_BATCH_SIZE_def)
qed

definition wrap_table :: "device_row list" where
  "wrap_table = row_at 0 5 # map (\<lambda>i. row_at (of_nat i) 0xFFFFFF00) [1..<64]"

text \<open>Eviction compares time stamps directly and is therefore not safe across the wrap of the clock: in a
  full table whose other rows were last heard before the wrap, the row heard most recently is the one given
  up to a new device.\<close>

theorem eviction_across_wrap:
  "find_or_alloc_device 1000 wrap_table = (0, wrap_table[0 := blank_row\<lparr>dv_addr := 1000\<rparr>]) \<and>
   list_all (\<lambda>r. (10::u32) - dv_last_ms (hd wrap_table) < 10 - dv_last_ms r) (tl wrap_table)"
proof -
  have n: "find_idx (\<lambda>r. dv_addr r = 1000) wrap_table = None"
    by (auto simp: find_idx_None wrap_table_def row_at_def blank_row_def upt_rec)
  have f: "argmin_from dv_last_ms 0 (row_at 0 5) i (map (\<lambda>i. row_at (of_nat i) 0xFFFFFF00) xs) = 0" for i xs
    by (induction xs arbitrary: i) (simp_all add: row_at_def blank_row_def)
  then have "argmin_idx dv_last_ms wrap_table = 0" by (simp add: argmin_idx_def wrap_table_def)
  moreover have "length wrap_table = 64" by (simp add: wrap_table_def)
  ultimately show ?thesis using n
    by (auto simp: find_or_alloc_device_def DEV_CAP_def Let_def wrap_table_def row_at_def blank_row_def list_all_iff)
qed

end
