(* ===== verification/Gatt_Discovery.thy ===== *)
theory Gatt_Discovery
  imports Connection Nimble Ble_Address
begin

text \<open>
  GATT discovery, \<^verbatim>\<open>components/ble_backend/gatt_discovery.cpp\<close>: the attribute tree of a connected peer is
  copied into one bounded \<open>GetServicesResponse\<close>, followed by a \<open>Done\<close> message. NimBLE's answers and whether
  the transport accepted the first message are the record \<open>gd_env\<close>; the messages handed to the transport
  are listed in order.
\<close>

datatype gd_status = Gd_Ok | Gd_NotConnected | Gd_EncodeFailed | Gd_SendFailed

record gd_env =
  ge_discovered :: bool                                    \<comment> \<open>\<open>discoverAttributes()\<close>\<close>
  ge_alloc :: bool                                         \<comment> \<open>the encode context could be allocated\<close>
  ge_services :: "nat \<Rightarrow> remote_service list"            \<comment> \<open>\<open>getServices(false)\<close> of a client\<close>
  ge_sent :: bool                                          \<comment> \<open>what the first \<open>send_async\<close> returns\<close>

definition kMaxServices :: nat where "kMaxServices = 8"
definition kMaxChars :: nat where "kMaxChars = 12"
definition kMaxDescs :: nat where "kMaxDescs = 6"

text \<open>Short UUIDs go into \<open>short_uuid\<close>, 128-bit ones into the pair (high, low).\<close>

definition pack_uuid :: "ble_uuid \<Rightarrow> u32 \<times> u64 list" where
  "pack_uuid uuid =
     (let v = uu_128 uuid in
      if uu_bits uuid = 16 \<or> uu_bits uuid = 32 then
        (ucast (v ! 12) OR push_bit 8 (ucast (v ! 13)) OR push_bit 16 (ucast (v ! 14)) OR push_bit 24 (ucast (v ! 15)), [])
      else
        let lo = foldl (\<lambda>l i. push_bit 8 l OR ucast (v ! i)) 0 (rev [0..<8]);
            hi = foldl (\<lambda>h i. push_bit 8 h OR ucast (v ! (i + 8))) 0 (rev [0..<8])
        in (0, [hi, lo]))"

definition pack_properties :: "remote_characteristic \<Rightarrow> u8" where
  "pack_properties chr =
     (let p = 0 :: u8;
          p = (if rch_broadcast chr then p OR 0x01 else p);
          p = (if rch_read chr then p OR 0x02 else p);
          p = (if rch_write_no_rsp chr then p OR 0x04 else p);
          p = (if rch_write chr then p OR 0x08 else p);
          p = (if rch_notify chr then p OR 0x10 else p);
          p = (if rch_indicate chr then p OR 0x20 else p);
          p = (if rch_write_signed chr then p OR 0x40 else p)
      in p)"

text \<open>The three nested loops, each stopping at its array bound (\<open>idx\<close> entries are filled).\<close>

fun fill_descs :: "nat \<Rightarrow> remote_descriptor list \<Rightarrow> gatt_descriptor list" where
  "fill_descs idx [] = []"
| "fill_descs idx (d # ds) =
     (if idx \<ge> kMaxDescs then []
      else (let (s, u) = pack_uuid (rde_uuid d)
            in \<lparr>gd_uuid = u, gd_handle = ucast (rde_handle d), gd_short_uuid = s\<rparr>) # fill_descs (idx + 1) ds)"

fun fill_chars :: "nat \<Rightarrow> remote_characteristic list \<Rightarrow> gatt_characteristic list" where
  "fill_chars idx [] = []"
| "fill_chars idx (c # cs) =
     (if idx \<ge> kMaxChars then []
      else (let (s, u) = pack_uuid (rch_uuid c)
            in \<lparr>gc_uuid = u, gc_handle = ucast (rch_handle c), gc_properties = ucast (pack_properties c),
                gc_descriptors = fill_descs 0 (rch_descriptors c), gc_short_uuid = s\<rparr>) # fill_chars (idx + 1) cs)"

fun fill_services :: "nat \<Rightarrow> remote_service list \<Rightarrow> gatt_service list" where
  "fill_services idx [] = []"
| "fill_services idx (v # vs) =
     (if idx \<ge> kMaxServices then []
      else (let (s, u) = pack_uuid (rsv_uuid v)
            in \<lparr>gs_uuid = u, gs_handle = ucast (rsv_handle v),
                gs_characteristics = fill_chars 0 (rsv_characteristics v), gs_short_uuid = s\<rparr>) # fill_services (idx + 1) vs)"

definition emit_error :: "u64 \<Rightarrow> int \<Rightarrow> message_id \<times> pb_msg" where
  "emit_error a err = (MSG_BLUETOOTH_GATT_ERROR_RESPONSE, GattErrorResponse a 0 err)"

definition discovery_run :: "gd_env \<Rightarrow> conn_pool \<Rightarrow> u64 \<Rightarrow> gd_status \<times> (message_id \<times> pb_msg) list" where
  "discovery_run env pool a =
     (case client_for a pool of
        None \<Rightarrow> (Gd_NotConnected, [emit_error a (-1)])
      | Some client \<Rightarrow>
          if \<not> ge_discovered env then (Gd_EncodeFailed, [emit_error a (-2)])
          else if \<not> ge_alloc env then (Gd_EncodeFailed, [emit_error a (-3)])
          else
            let msg = (MSG_BLUETOOTH_GATT_GET_SERVICES_RESPONSE,
                       GetServicesResponse a (fill_services 0 (ge_services env client)))
            in if \<not> ge_sent env then (Gd_SendFailed, [msg])
               else (Gd_Ok, [msg, (MSG_BLUETOOTH_GATT_GET_SERVICES_DONE_RESPONSE, GetServicesDoneResponse a)]))"

section \<open>Lemmas\<close>

lemma fill_descs_take: "map gd_handle (fill_descs i ds) = map (\<lambda>d. ucast (rde_handle d)) (take (kMaxDescs - i) ds)"
  by (induction ds arbitrary: i) (auto simp: take_Cons' Suc_diff_Suc split: prod.split)

lemma fill_chars_take:
  "fill_chars i cs = map (\<lambda>c. let (s, u) = pack_uuid (rch_uuid c)
      in \<lparr>gc_uuid = u, gc_handle = ucast (rch_handle c), gc_properties = ucast (pack_properties c),
          gc_descriptors = fill_descs 0 (rch_descriptors c), gc_short_uuid = s\<rparr>) (take (kMaxChars - i) cs)"
  by (induction cs arbitrary: i) (auto simp: take_Cons' Let_def split: prod.split)

lemma fill_services_take:
  "fill_services i vs = map (\<lambda>v. let (s, u) = pack_uuid (rsv_uuid v)
      in \<lparr>gs_uuid = u, gs_handle = ucast (rsv_handle v),
          gs_characteristics = fill_chars 0 (rsv_characteristics v), gs_short_uuid = s\<rparr>) (take (kMaxServices - i) vs)"
  by (induction vs arbitrary: i) (auto simp: take_Cons' Let_def split: prod.split)

lemma fill_descs_length: "length (fill_descs i ds) \<le> kMaxDescs - i"
  by (metis fill_descs_take length_map length_take min.cobounded2)

lemma ex16:
  "length v = 16 \<Longrightarrow> \<exists>a0 a1 a2 a3 a4 a5 a6 a7 b0 b1 b2 b3 b4 b5 b6 b7.
     v = [a0, a1, a2, a3, a4, a5, a6, a7, b0, b1, b2, b3, b4, b5, b6, b7]"
  by (auto simp: numeral_eq_Suc length_Suc_conv)

lemma upt_8: "[0..<8] = [0, 1, 2, 3, 4, 5, 6, 7::nat]"
  by (simp add: upt_rec)

text \<open>The two halves of a 128-bit UUID are the values of its halves as little-endian byte strings.\<close>

lemma pack_uuid_128:
  assumes "uu_bits u = 128" "length (uu_128 u) = 16"
  shows "pack_uuid u = (0, [le_value (drop 8 (uu_128 u)), le_value (take 8 (uu_128 u))])"
  using assms(1) ex16 [OF assms(2)] by (auto simp: pack_uuid_def upt_8)

lemma bit_pack_properties:
  "bit (pack_properties c) 0 = rch_broadcast c" "bit (pack_properties c) 1 = rch_read c"
  "bit (pack_properties c) 2 = rch_write_no_rsp c" "bit (pack_properties c) 3 = rch_write c"
  "bit (pack_properties c) 4 = rch_notify c" "bit (pack_properties c) 5 = rch_indicate c"
  "bit (pack_properties c) 6 = rch_write_signed c"
  by (simp_all add: pack_properties_def Let_def bit_simps)

section \<open>Properties\<close>



text \<open>A 128-bit UUID survives packing: the sixteen bytes are recovered from the (high, low) pair, so
  different UUIDs are packed differently, and the property byte has exactly the bits of the capabilities.\<close>

theorem uuid_pack_roundtrip:
  assumes "uu_bits u = 128" "length (uu_128 u) = 16"
  shows "\<exists>hi lo. pack_uuid u = (0, [hi, lo]) \<and>
     uint64_to_nimble_le_loop 8 lo @ uint64_to_nimble_le_loop 8 hi = uu_128 u"
proof -
  have "uint64_to_nimble_le_loop 8 (le_value (take 8 (uu_128 u))) = take 8 (uu_128 u)"
    "uint64_to_nimble_le_loop 8 (le_value (drop 8 (uu_128 u))) = drop 8 (uu_128 u)"
    using loop_le_value [of "take 8 (uu_128 u)"] loop_le_value [of "drop 8 (uu_128 u)"] assms(2) by simp_all
  then show ?thesis using pack_uuid_128 [OF assms] by simp
qed

theorem uuid_pack_roundtrip_witness:
  "\<exists>hi lo. pack_uuid \<lparr>uu_bits = 128, uu_value = [], uu_128 = [0,1,2,3,4,5,6,7,8,9,10,11,12,13,14,15]\<rparr> = (0, [hi, lo]) \<and>
     uint64_to_nimble_le_loop 8 lo @ uint64_to_nimble_le_loop 8 hi = [0,1,2,3,4,5,6,7,8,9,10,11,12,13,14,15]"
  using uuid_pack_roundtrip [of "\<lparr>uu_bits = 128, uu_value = [], uu_128 = [0,1,2,3,4,5,6,7,8,9,10,11,12,13,14,15]\<rparr>"]
  by simp

end
