(* ===== verification/Bt_Handlers.thy ===== *)
theory Bt_Handlers
  imports Gatt_Discovery Scanner
begin

text \<open>
  The Bluetooth half of the API, \<^verbatim>\<open>components/api_server/bt_handlers.cpp\<close>. The state joins what the handlers
  touch: the subscription counters, the connection pool, the scanner, the GATT statistics and the notify
  callbacks registered on characteristics. A handler returns the new state, the client's subscription flags
  and the messages it hands to \<open>send_async\<close>, in order; \<open>None\<close> stands for the null client that
  \<open>connection::connect\<close> dereferences. NimBLE's and nanopb's answers are the record \<open>bt_env\<close>.
\<close>

section \<open>State\<close>

record client_subs =
  su_adv :: bool
  su_free :: bool

definition no_subs :: client_subs where "no_subs = \<lparr>su_adv = False, su_free = False\<rparr>"

record bt_state =
  bh_sub_adv_count :: int
  bh_sub_free_count :: int
  bh_wired :: bool
  bh_pool :: conn_pool
  bh_scanner :: scanner
  bh_reads :: u32
  bh_writes :: u32
  bh_notifies :: u32
  bh_notify_cbs :: "(nat \<times> u16) set"      \<comment> \<open>(client, handle) pairs with \<open>notify_cb\<close> set\<close>

record bt_env =
  be_codec :: pb_codec
  be_conn :: conn_env
  be_gd :: gd_env
  be_resume_ok :: bool                                       \<comment> \<open>a scan restart succeeds\<close>
  be_read_char :: "nat \<Rightarrow> u16 \<Rightarrow> u8 list"                   \<comment> \<open>\<open>readValue()\<close> of a characteristic\<close>
  be_read_desc :: "nat \<Rightarrow> u16 \<Rightarrow> u8 list"
  be_write_char :: "nat \<Rightarrow> u16 \<Rightarrow> u8 list \<Rightarrow> bool \<Rightarrow> bool"  \<comment> \<open>\<open>writeValue(data, response)\<close>\<close>
  be_write_desc :: "nat \<Rightarrow> u16 \<Rightarrow> u8 list \<Rightarrow> bool \<Rightarrow> bool"

type_synonym out_msgs = "(message_id \<times> pb_msg) list"

section \<open>Messages\<close>

definition gatt_error_msg :: "u64 \<Rightarrow> u32 \<Rightarrow> int \<Rightarrow> message_id \<times> pb_msg" where
  "gatt_error_msg a h err = (MSG_BLUETOOTH_GATT_ERROR_RESPONSE, GattErrorResponse a h err)"

text \<open>\<open>build_free_msg\<close> for the slots as they are when the message is built.\<close>

definition build_free_msg :: "conn_slot list \<Rightarrow> message_id \<times> pb_msg" where
  "build_free_msg ss =
     (let p = \<lparr>cp_slots = ss, cp_free_cb = False, cp_passkey = 0\<rparr> in
      (MSG_BLUETOOTH_CONNECTIONS_FREE_RESPONSE,
       ConnectionsFreeResponse (of_nat (free_slots p)) (of_nat MAX_CONNECTIONS) (in_use_addresses MAX_CONNECTIONS p)))"

definition on_free_change :: "conn_slot list \<Rightarrow> bt_state \<Rightarrow> out_msgs" where
  "on_free_change ss st = (if bh_sub_free_count st \<le> 0 then [] else [build_free_msg ss])"

definition on_connection_state :: "u64 \<Rightarrow> conn_result \<Rightarrow> message_id \<times> pb_msg" where
  "on_connection_state a r =
     (MSG_BLUETOOTH_DEVICE_CONNECTION_RESPONSE,
      DeviceConnectionResponse a (res_connected r) (ucast (res_mtu r)) (res_error r))"

text \<open>The effects of the events a connection operation reports, in their order.\<close>

definition run_event :: "bool \<Rightarrow> conn_event \<Rightarrow> bt_state \<Rightarrow> bt_state \<times> out_msgs" where
  "run_event ok e st =
     (case e of
        Result_cb f a r \<Rightarrow> (st, [on_connection_state a r])
      | Free_change ss \<Rightarrow> (st, on_free_change ss st)
      | Scan_stop \<Rightarrow> (st\<lparr>bh_scanner := (bh_scanner st)\<lparr>sc_scanning := False\<rparr>\<rparr>, [])
      | Scan_resume \<Rightarrow> (st\<lparr>bh_scanner := scanner_resume ok (bh_scanner st)\<rparr>, [])
      | _ \<Rightarrow> (st, []))"

fun run_events :: "bool \<Rightarrow> conn_event list \<Rightarrow> bt_state \<Rightarrow> bt_state \<times> out_msgs" where
  "run_events ok [] st = (st, [])"
| "run_events ok (e # es) st =
     (let (st1, m1) = run_event ok e st; (st2, m2) = run_events ok es st1 in (st2, m1 @ m2))"

section \<open>Callbacks from the NimBLE host task\<close>

definition bt_on_connect :: "bool \<Rightarrow> nat \<Rightarrow> u16 \<Rightarrow> bt_state \<Rightarrow> bt_state \<times> out_msgs" where
  "bt_on_connect ok c mtu st =
     (let (p, ev) = on_connect c mtu (bh_pool st) in run_events ok ev (st\<lparr>bh_pool := p\<rparr>))"

definition bt_on_connect_fail :: "bool \<Rightarrow> nat \<Rightarrow> int \<Rightarrow> bt_state \<Rightarrow> bt_state \<times> out_msgs" where
  "bt_on_connect_fail ok c r st =
     (let (p, ev) = on_connect_fail c r (bh_pool st) in run_events ok ev (st\<lparr>bh_pool := p\<rparr>))"

definition bt_on_disconnect :: "bool \<Rightarrow> nat \<Rightarrow> int \<Rightarrow> bt_state \<Rightarrow> bt_state \<times> out_msgs" where
  "bt_on_disconnect ok c r st =
     (let (p, ev) = on_disconnect c r (bh_pool st) in run_events ok ev (st\<lparr>bh_pool := p\<rparr>))"

text \<open>\<open>peer\<close> is the address of the characteristic's client, \<open>None\<close> when there is none.\<close>

definition notify_cb :: "u64 option \<Rightarrow> u16 \<Rightarrow> u8 list \<Rightarrow> bt_state \<Rightarrow> bt_state \<times> out_msgs" where
  "notify_cb peer h data st =
     (case peer of
        None \<Rightarrow> (st, [])
      | Some a \<Rightarrow> (st\<lparr>bh_notifies := bh_notifies st + 1\<rparr>,
                   [(MSG_BLUETOOTH_GATT_NOTIFY_DATA_RESPONSE,
                     GattNotifyDataResponse a (ucast h) (clamp_copy 512 data))]))"

section \<open>Request handlers\<close>

type_synonym handler_result = "bt_state \<times> client_subs \<times> out_msgs"

definition handle_subscribe_adv :: "bt_state \<Rightarrow> client_subs \<Rightarrow> handler_result" where
  "handle_subscribe_adv st subs =
     (if \<not> su_adv subs then
        let st1 = st\<lparr>bh_sub_adv_count := bh_sub_adv_count st + 1\<rparr>;
            st2 = (if bh_sub_adv_count st = 0 then st1\<lparr>bh_scanner := start_forwarding (bh_scanner st1)\<rparr> else st1)
        in (st2, subs\<lparr>su_adv := True\<rparr>, [])
      else (st, subs, []))"

definition handle_unsubscribe_adv :: "bt_state \<Rightarrow> client_subs \<Rightarrow> handler_result" where
  "handle_unsubscribe_adv st subs =
     (if su_adv subs then
        let st1 = st\<lparr>bh_sub_adv_count := bh_sub_adv_count st - 1\<rparr>;
            st2 = (if bh_sub_adv_count st = 1 then st1\<lparr>bh_scanner := stop_forwarding (bh_scanner st1)\<rparr> else st1)
        in (st2, subs\<lparr>su_adv := False\<rparr>, [])
      else (st, subs, []))"

definition handle_subscribe_free :: "bt_state \<Rightarrow> client_subs \<Rightarrow> handler_result" where
  "handle_subscribe_free st subs =
     (let (st1, subs1) =
        (if \<not> su_free subs then (st\<lparr>bh_sub_free_count := bh_sub_free_count st + 1\<rparr>, subs\<lparr>su_free := True\<rparr>)
         else (st, subs))
      in (st1, subs1, [build_free_msg (cp_slots (bh_pool st1))]))"

definition device_connect :: "bt_env \<Rightarrow> device_request \<Rightarrow> bt_state \<Rightarrow> client_subs \<Rightarrow> handler_result option" where
  "device_connect env req st subs =
     (let addr_type = (if dr_has_address_type req then ucast (dr_address_type req) else 0) in
      case conn_connect (be_conn env) (dr_address req) addr_type (Some 0) (bh_pool st) of
        None \<Rightarrow> None
      | Some (started, p, ev) \<Rightarrow>
          let (st1, ms) = run_events (be_resume_ok env) ev (st\<lparr>bh_pool := p\<rparr>)
          in Some (st1, subs, ms @
               (if \<not> started then [(MSG_BLUETOOTH_DEVICE_CONNECTION_RESPONSE,
                  DeviceConnectionResponse (dr_address req) False 0 (-100))] else [])))"

definition device_disconnect :: "bt_env \<Rightarrow> device_request \<Rightarrow> bt_state \<Rightarrow> client_subs \<Rightarrow> handler_result" where
  "device_disconnect env req st subs =
     (let (p, ev) = conn_disconnect (dr_address req) (bh_pool st);
          (st1, ms) = run_events (be_resume_ok env) ev (st\<lparr>bh_pool := p\<rparr>)
      in (st1, subs, ms))"

definition handle_device_request :: "bt_env \<Rightarrow> u8 list \<Rightarrow> bt_state \<Rightarrow> client_subs \<Rightarrow> handler_result option" where
  "handle_device_request env payload st subs =
     (case pc_device_request (be_codec env) payload of
        None \<Rightarrow> Some (st, subs, [])
      | Some req \<Rightarrow>
          (case dr_request_type req of
             DEV_CONNECT \<Rightarrow> device_connect env req st subs
           | DEV_CONNECT_V3_WITH_CACHE \<Rightarrow> device_connect env req st subs
           | DEV_CONNECT_V3_WITHOUT_CACHE \<Rightarrow> device_connect env req st subs
           | DEV_DISCONNECT \<Rightarrow> Some (device_disconnect env req st subs)
           | DEV_PAIR \<Rightarrow> Some (st, subs, [gatt_error_msg (dr_address req) 0 (-99)])
           | DEV_UNPAIR \<Rightarrow> Some (st, subs, [gatt_error_msg (dr_address req) 0 (-99)])
           | DEV_CLEAR_CACHE \<Rightarrow> Some (st, subs, [gatt_error_msg (dr_address req) 0 (-99)])
           | DEV_OTHER n \<Rightarrow> Some (st, subs, [])))"

definition handle_get_services :: "bt_env \<Rightarrow> u8 list \<Rightarrow> bt_state \<Rightarrow> client_subs \<Rightarrow> handler_result" where
  "handle_get_services env payload st subs =
     (case pc_get_services (be_codec env) payload of
        None \<Rightarrow> (st, subs, [])
      | Some a \<Rightarrow> (st, subs, snd (discovery_run (be_gd env) (bh_pool st) a)))"

definition char_at :: "remote_service list \<Rightarrow> u16 \<Rightarrow> remote_characteristic option" where
  "char_at svcs h = List.find (\<lambda>c. rch_handle c = h) (concat (map rsv_characteristics svcs))"

definition desc_at :: "remote_service list \<Rightarrow> u16 \<Rightarrow> remote_descriptor option" where
  "desc_at svcs h =
     List.find (\<lambda>d. rde_handle d = h) (concat (map rch_descriptors (concat (map rsv_characteristics svcs))))"

definition handle_read :: "bt_env \<Rightarrow> message_id \<Rightarrow> u8 list \<Rightarrow> bt_state \<Rightarrow> client_subs \<Rightarrow> handler_result" where
  "handle_read env msg_type payload st subs =
     (case pc_read (be_codec env) payload of
        None \<Rightarrow> (st, subs, [])
      | Some req \<Rightarrow>
          (case client_for (gr_address req) (bh_pool st) of
             None \<Rightarrow> (st, subs, [gatt_error_msg (gr_address req) (gr_handle req) (-1)])
           | Some client \<Rightarrow>
               let svcs = ge_services (be_gd env) client;
                   h = ucast (gr_handle req);
                   value = (if msg_type = MSG_BLUETOOTH_GATT_READ_REQUEST
                            then map_option (\<lambda>c. be_read_char env client (rch_handle c)) (char_at svcs h)
                            else map_option (\<lambda>d. be_read_desc env client (rde_handle d)) (desc_at svcs h))
               in case value of
                    None \<Rightarrow> (st, subs, [gatt_error_msg (gr_address req) (gr_handle req) (-2)])
                  | Some v \<Rightarrow> (st\<lparr>bh_reads := bh_reads st + 1\<rparr>, subs,
                      [(MSG_BLUETOOTH_GATT_READ_RESPONSE,
                        GattReadResponse (gr_address req) (gr_handle req) (clamp_copy 512 v))])))"

definition handle_write_char :: "bt_env \<Rightarrow> u8 list \<Rightarrow> bt_state \<Rightarrow> client_subs \<Rightarrow> handler_result" where
  "handle_write_char env payload st subs =
     (case pc_write (be_codec env) payload of
        None \<Rightarrow> (st, subs, [])
      | Some req \<Rightarrow>
          (case client_for (gr_address req) (bh_pool st) of
             None \<Rightarrow> (st, subs, [gatt_error_msg (gr_address req) (gr_handle req) (-1)])
           | Some client \<Rightarrow>
               (case char_at (ge_services (be_gd env) client) (ucast (gr_handle req)) of
                  None \<Rightarrow> (st, subs, [gatt_error_msg (gr_address req) (gr_handle req) (-2)])
                | Some chr \<Rightarrow>
                    if \<not> be_write_char env client (rch_handle chr) (gr_data req) (gr_flag req)
                    then (st, subs, [gatt_error_msg (gr_address req) (gr_handle req) (-3)])
                    else (st\<lparr>bh_writes := bh_writes st + 1\<rparr>, subs,
                      [(MSG_BLUETOOTH_GATT_WRITE_RESPONSE, GattWriteResponse (gr_address req) (gr_handle req))]))))"

definition handle_write_desc :: "bt_env \<Rightarrow> u8 list \<Rightarrow> bt_state \<Rightarrow> client_subs \<Rightarrow> handler_result" where
  "handle_write_desc env payload st subs =
     (case pc_write_descriptor (be_codec env) payload of
        None \<Rightarrow> (st, subs, [])
      | Some req \<Rightarrow>
          (case client_for (gr_address req) (bh_pool st) of
             None \<Rightarrow> (st, subs, [gatt_error_msg (gr_address req) (gr_handle req) (-1)])
           | Some client \<Rightarrow>
               (case desc_at (ge_services (be_gd env) client) (ucast (gr_handle req)) of
                  None \<Rightarrow> (st, subs, [gatt_error_msg (gr_address req) (gr_handle req) (-2)])
                | Some dsc \<Rightarrow>
                    if \<not> be_write_desc env client (rde_handle dsc) (gr_data req) True
                    then (st, subs, [gatt_error_msg (gr_address req) (gr_handle req) (-3)])
                    else (st\<lparr>bh_writes := bh_writes st + 1\<rparr>, subs,
                      [(MSG_BLUETOOTH_GATT_WRITE_RESPONSE, GattWriteResponse (gr_address req) (gr_handle req))]))))"

definition handle_notify :: "bt_env \<Rightarrow> u8 list \<Rightarrow> bt_state \<Rightarrow> client_subs \<Rightarrow> handler_result" where
  "handle_notify env payload st subs =
     (case pc_notify (be_codec env) payload of
        None \<Rightarrow> (st, subs, [])
      | Some req \<Rightarrow>
          (case client_for (gr_address req) (bh_pool st) of
             None \<Rightarrow> (st, subs, [gatt_error_msg (gr_address req) (gr_handle req) (-1)])
           | Some client \<Rightarrow>
               (case char_at (ge_services (be_gd env) client) (ucast (gr_handle req)) of
                  None \<Rightarrow> (st, subs, [gatt_error_msg (gr_address req) (gr_handle req) (-2)])
                | Some chr \<Rightarrow>
                    (st\<lparr>bh_notify_cbs := (if gr_flag req then insert (client, rch_handle chr) (bh_notify_cbs st)
                                          else bh_notify_cbs st - {(client, rch_handle chr)})\<rparr>, subs,
                     [(MSG_BLUETOOTH_GATT_NOTIFY_RESPONSE, GattNotifyResponse (gr_address req) (gr_handle req))]))))"

text \<open>The dispatcher; the first component of the result says whether the message was recognised.\<close>

definition bt_handle ::
  "bt_env \<Rightarrow> u16 \<Rightarrow> u8 list \<Rightarrow> bt_state \<Rightarrow> client_subs \<Rightarrow> (bool \<times> handler_result) option" where
  "bt_handle env request_type payload st subs =
     (let st = (if \<not> bh_wired st then st\<lparr>bh_pool := register_free_change_cb (bh_pool st), bh_wired := True\<rparr> else st) in
      if request_type = msg_num MSG_SUBSCRIBE_BLE_ADVERTISEMENTS_REQUEST
        then Some (True, handle_subscribe_adv st subs)
      else if request_type = msg_num MSG_UNSUBSCRIBE_BLE_ADVERTISEMENTS_REQUEST
        then Some (True, handle_unsubscribe_adv st subs)
      else if request_type = msg_num MSG_SUBSCRIBE_BLUETOOTH_CONNECTIONS_FREE_REQUEST
        then Some (True, handle_subscribe_free st subs)
      else if request_type = msg_num MSG_BLUETOOTH_DEVICE_REQUEST
        then map_option (Pair True) (handle_device_request env payload st subs)
      else if request_type = msg_num MSG_BLUETOOTH_GATT_GET_SERVICES_REQUEST
        then Some (True, handle_get_services env payload st subs)
      else if request_type = msg_num MSG_BLUETOOTH_GATT_READ_REQUEST
        then Some (True, handle_read env MSG_BLUETOOTH_GATT_READ_REQUEST payload st subs)
      else if request_type = msg_num MSG_BLUETOOTH_GATT_READ_DESCRIPTOR_REQUEST
        then Some (True, handle_read env MSG_BLUETOOTH_GATT_READ_DESCRIPTOR_REQUEST payload st subs)
      else if request_type = msg_num MSG_BLUETOOTH_GATT_WRITE_REQUEST
        then Some (True, handle_write_char env payload st subs)
      else if request_type = msg_num MSG_BLUETOOTH_GATT_WRITE_DESCRIPTOR_REQUEST
        then Some (True, handle_write_desc env payload st subs)
      else if request_type = msg_num MSG_BLUETOOTH_GATT_NOTIFY_REQUEST
        then Some (True, handle_notify env payload st subs)
      else Some (False, st, subs, []))"

definition on_client_disconnect :: "bt_state \<Rightarrow> client_subs \<Rightarrow> bt_state \<times> client_subs" where
  "on_client_disconnect st subs =
     (let (st1, subs1) =
        (if su_adv subs then
           (let st' = st\<lparr>bh_sub_adv_count := bh_sub_adv_count st - 1\<rparr>
            in (if bh_sub_adv_count st = 1 then st'\<lparr>bh_scanner := stop_forwarding (bh_scanner st')\<rparr> else st',
                subs\<lparr>su_adv := False\<rparr>))
         else (st, subs))
      in if su_free subs1
         then (st1\<lparr>bh_sub_free_count := bh_sub_free_count st1 - 1\<rparr>, subs1\<lparr>su_free := False\<rparr>)
         else (st1, subs1))"

text \<open>\<open>ble_backend::on_api_client_disconnect\<close>.\<close>

definition on_last_client_disconnect :: "bool \<Rightarrow> bt_state \<Rightarrow> bt_state \<times> out_msgs" where
  "on_last_client_disconnect ok st =
     (let st1 = st\<lparr>bh_scanner := stop_forwarding (bh_scanner st)\<rparr>;
          (p, ev) = disconnect_all (bh_pool st1)
      in run_events ok ev (st1\<lparr>bh_pool := p\<rparr>))"

section \<open>Frames\<close>

text \<open>Most operations leave the subscription side alone: both counters and the forwarding switch.\<close>

definition subs_view :: "bt_state \<Rightarrow> int \<times> int \<times> bool" where
  "subs_view st = (bh_sub_adv_count st, bh_sub_free_count st, sc_forwarding (bh_scanner st))"

lemma resume_keeps [simp]:
  "sc_forwarding (scanner_resume ok sc) = sc_forwarding sc" "sc_pending (scanner_resume ok sc) = sc_pending sc"
  "sc_devices (scanner_resume ok sc) = sc_devices sc"
  by (simp_all add: scanner_resume_def)

lemma run_event_view: "subs_view (fst (run_event ok e st)) = subs_view st"
  and run_event_pool: "bh_pool (fst (run_event ok e st)) = bh_pool st"
  and run_event_scanner: "scanner_inv (bh_scanner st) \<Longrightarrow> scanner_inv (bh_scanner (fst (run_event ok e st)))"
  by (cases e; simp add: run_event_def subs_view_def scanner_inv_def)+

lemma run_events_fst: "fst (run_events ok (e # es) st) = fst (run_events ok es (fst (run_event ok e st)))"
  by (simp add: Let_def case_prod_unfold)

lemma run_events_view [simp]: "subs_view (fst (run_events ok es st)) = subs_view st"
  and run_events_pool [simp]: "bh_pool (fst (run_events ok es st)) = bh_pool st"
  by (induction es arbitrary: st) (simp_all only: run_events_fst run_event_view run_event_pool, simp_all)

lemma run_events_scanner: "scanner_inv (bh_scanner st) \<Longrightarrow> scanner_inv (bh_scanner (fst (run_events ok es st)))"
  by (induction es arbitrary: st) (simp_all only: run_events_fst run_event_scanner, simp)

lemma subs_view_pool [simp]: "subs_view (st\<lparr>bh_pool := p\<rparr>) = subs_view st"
  by (simp add: subs_view_def)

definition same_core :: "bt_state \<Rightarrow> client_subs \<Rightarrow> handler_result \<Rightarrow> bool" where
  "same_core st subs r \<longleftrightarrow> subs_view (fst r) = subs_view st \<and> fst (snd r) = subs \<and>
     bh_pool (fst r) = bh_pool st \<and> bh_scanner (fst r) = bh_scanner st"

lemma same_core_simps [simp]:
  "same_core st subs (st, subs, ms)"
  "same_core st subs (st\<lparr>bh_reads := n\<rparr>, subs, ms)"
  "same_core st subs (st\<lparr>bh_writes := n\<rparr>, subs, ms)"
  "same_core st subs (st\<lparr>bh_notify_cbs := cbs\<rparr>, subs, ms)"
  by (simp_all add: same_core_def subs_view_def)

lemma gatt_handlers_frame:
  "same_core st subs (handle_get_services env pl st subs)"
  "same_core st subs (handle_read env m pl st subs)"
  "same_core st subs (handle_write_char env pl st subs)"
  "same_core st subs (handle_write_desc env pl st subs)"
  "same_core st subs (handle_notify env pl st subs)"
  unfolding handle_get_services_def handle_read_def handle_write_char_def handle_write_desc_def handle_notify_def Let_def
  by (simp_all split: option.split)

text \<open>The whole state's invariant, apart from the clients' flags.\<close>

definition core_inv :: "bt_state \<Rightarrow> bool" where
  "core_inv st \<longleftrightarrow> conn_inv (bh_pool st) \<and> scanner_inv (bh_scanner st)"

definition fresh_client :: "bt_env \<Rightarrow> bt_state \<Rightarrow> bool" where
  "fresh_client env st \<longleftrightarrow>
     (\<forall>c. ce_create (be_conn env) = Some c \<longrightarrow> c \<notin> Option.these (cs_client ` set (cp_slots (bh_pool st))))"

lemma conn_connect_inv:
  assumes "conn_inv p" "conn_connect env a t cb p = Some (started, p', ev)"
    and "\<And>c'. ce_create env = Some c' \<Longrightarrow> c' \<notin> Option.these (cs_client ` set (cp_slots p))"
  shows "conn_inv p'"
proof (cases "connect_claim env a t cb p")
  case (Claimed i c new p1)
  then have "conn_inv p1" "i < length (cp_slots p1)" using connect_claim_inv [OF assms(1) Claimed assms(3)] by auto
  then show ?thesis using assms(2) Claimed connect_unissued_inv [of p1 i a]
    by (auto simp: conn_connect_def Let_def split: if_splits prod.splits)
qed (use assms in \<open>auto simp: conn_connect_def\<close>)

lemma run_events_core: "core_inv st \<Longrightarrow> core_inv (fst (run_events ok es st))"
  by (simp add: core_inv_def run_events_scanner)

lemma core_inv_pool: "core_inv st \<Longrightarrow> conn_inv p \<Longrightarrow> core_inv (st\<lparr>bh_pool := p\<rparr>)"
  by (simp add: core_inv_def)

lemma device_connect_frame:
  assumes "device_connect env req st subs = Some r"
  shows "subs_view (fst r) = subs_view st \<and> fst (snd r) = subs \<and> (core_inv st \<and> fresh_client env st \<longrightarrow> core_inv (fst r))"
proof -
  obtain started p ev t where c: "conn_connect (be_conn env) (dr_address req) t (Some 0) (bh_pool st) = Some (started, p, ev)"
    and r: "fst r = fst (run_events (be_resume_ok env) ev (st\<lparr>bh_pool := p\<rparr>))" "fst (snd r) = subs"
    using assms by (auto simp: device_connect_def Let_def case_prod_unfold split: option.splits)
  have "core_inv (st\<lparr>bh_pool := p\<rparr>)" if "core_inv st" "fresh_client env st"
    using that conn_connect_inv [OF _ c] by (auto simp: core_inv_def fresh_client_def)
  then show ?thesis using r run_events_core by auto
qed

lemma device_disconnect_frame:
  "subs_view (fst (device_disconnect env req st subs)) = subs_view st \<and>
   fst (snd (device_disconnect env req st subs)) = subs \<and>
   (core_inv st \<longrightarrow> core_inv (fst (device_disconnect env req st subs)))"
  using conn_disconnect_inv [of "bh_pool st" "dr_address req"]
  by (auto simp: device_disconnect_def Let_def case_prod_unfold core_inv_def intro!: run_events_scanner)

lemma device_request_frame:
  assumes "handle_device_request env pl st subs = Some r"
  shows "subs_view (fst r) = subs_view st \<and> fst (snd r) = subs \<and> (core_inv st \<and> fresh_client env st \<longrightarrow> core_inv (fst r))"
proof (cases "pc_device_request (be_codec env) pl")
  case None
  then show ?thesis using assms by (auto simp: handle_device_request_def)
next
  case (Some req)
  then show ?thesis using assms device_connect_frame [of env req st subs r] device_disconnect_frame [of env req st subs]
    by (cases "dr_request_type req") (auto simp: handle_device_request_def)
qed

section \<open>The API side as a state machine\<close>

text \<open>A state with the subscription flags of the clients that are connected. Handlers, callbacks, scan
  reports and flushes run one after the other, in any order; each client's flags are touched by its own
  task only. \<open>adv\<close> and \<open>free\<close> count the clients that hold a subscription.\<close>

definition n_adv :: "client_subs list \<Rightarrow> int" where "n_adv cl = int (length (filter su_adv cl))"
definition n_free :: "client_subs list \<Rightarrow> int" where "n_free cl = int (length (filter su_free cl))"

definition sys_inv :: "bt_state \<times> client_subs list \<Rightarrow> bool" where
  "sys_inv s \<longleftrightarrow> (case s of (st, cl) \<Rightarrow> core_inv st \<and> subs_view st = (n_adv cl, n_free cl, 0 < n_adv cl))"

definition remove_nth :: "nat \<Rightarrow> 'a list \<Rightarrow> 'a list" where
  "remove_nth i xs = take i xs @ drop (Suc i) xs"

text \<open>The end of a connection task.\<close>

definition client_leaves :: "bool \<Rightarrow> nat \<Rightarrow> bt_state \<times> client_subs list \<Rightarrow> bt_state \<times> client_subs list" where
  "client_leaves ok i s =
     (let (st, cl) = s; st1 = fst (on_client_disconnect st (cl ! i)); cl1 = remove_nth i cl
      in (if cl1 = [] then fst (on_last_client_disconnect ok st1) else st1, cl1))"

inductive bt_step :: "bt_state \<times> client_subs list \<Rightarrow> bt_state \<times> client_subs list \<Rightarrow> bool" where
  st_join: "bt_step (st, cl) (st, cl @ [no_subs])"
| st_request: "i < length cl \<Longrightarrow> fresh_client env st \<Longrightarrow>
     bt_handle env ty payload st (cl ! i) = Some (known, st', subs', ms) \<Longrightarrow> bt_step (st, cl) (st', cl[i := subs'])"
| st_leave: "i < length cl \<Longrightarrow> bt_step (st, cl) (client_leaves ok i (st, cl))"
| st_connected: "bt_step (st, cl) (fst (bt_on_connect ok c mtu st), cl)"
| st_failed: "bt_step (st, cl) (fst (bt_on_connect_fail ok c r st), cl)"
| st_disconnected: "bt_step (st, cl) (fst (bt_on_disconnect ok c r st), cl)"
| st_notified: "bt_step (st, cl) (fst (notify_cb peer h data st), cl)"
| st_report: "bt_step (st, cl) (st\<lparr>bh_scanner := fst (fst (on_result hc now dev (bh_scanner st, bts)))\<rparr>, cl)"
| st_flush: "bt_step (st, cl) (st\<lparr>bh_scanner := fst (fst (flush_turn tm t hc lp (bh_scanner st)))\<rparr>, cl)"

definition bt_initial :: bt_state where
  "bt_initial = \<lparr>bh_sub_adv_count = 0, bh_sub_free_count = 0, bh_wired = False, bh_pool = initial_pool,
     bh_scanner = scanner_initial, bh_reads = 0, bh_writes = 0, bh_notifies = 0, bh_notify_cbs = {}\<rparr>"

inductive bt_reachable :: "bt_state \<times> client_subs list \<Rightarrow> bool" where
  bt_init: "bt_reachable (bt_initial, [])"
| bt_next: "bt_reachable s \<Longrightarrow> bt_step s s' \<Longrightarrow> bt_reachable s'"

lemma scanner_inv_initial: "scanner_inv scanner_initial"
  by (simp add: scanner_inv_def scanner_initial_def dt.table_ok_def)

lemma sys_inv_initial: "sys_inv (bt_initial, [])"
proof -
  have "\<not> sc_forwarding scanner_initial" by (simp add: scanner_initial_def)
  then show ?thesis
    by (simp add: sys_inv_def bt_initial_def core_inv_def conn_inv_initial scanner_inv_initial subs_view_def
        n_adv_def n_free_def)
qed

lemma n_adv_update: "i < length cl \<Longrightarrow> n_adv (cl[i := s]) = n_adv cl - of_bool (su_adv (cl ! i)) + of_bool (su_adv s)"
  and n_free_update: "i < length cl \<Longrightarrow> n_free (cl[i := s]) = n_free cl - of_bool (su_free (cl ! i)) + of_bool (su_free s)"
  using count_filter_update [of i cl su_adv s] count_filter_update [of i cl su_free s]
  by (auto simp: n_adv_def n_free_def)

lemma n_adv_remove: "i < length cl \<Longrightarrow> n_adv (remove_nth i cl) = n_adv cl - of_bool (su_adv (cl ! i))"
  and n_free_remove: "i < length cl \<Longrightarrow> n_free (remove_nth i cl) = n_free cl - of_bool (su_free (cl ! i))"
proof -
  have *: "length (filter P cl) = length (filter P (remove_nth i cl)) + (if P (cl ! i) then 1 else 0)"
    if "i < length cl" for P :: "client_subs \<Rightarrow> bool"
    using arg_cong [OF id_take_nth_drop [OF that], of "\<lambda>x. length (filter P x)"] by (simp add: remove_nth_def)
  show "i < length cl \<Longrightarrow> n_adv (remove_nth i cl) = n_adv cl - of_bool (su_adv (cl ! i))"
    and "i < length cl \<Longrightarrow> n_free (remove_nth i cl) = n_free cl - of_bool (su_free (cl ! i))"
    using * [of su_adv] * [of su_free] by (simp_all add: n_adv_def n_free_def)
qed

lemma n_adv_ge: "i < length cl \<Longrightarrow> su_adv (cl ! i) \<Longrightarrow> 0 < n_adv cl"
  by (auto simp: n_adv_def filter_empty_conv intro!: bexI [of _ "cl ! i"])

text \<open>What each handler does to the subscription side, given exact counters.\<close>

lemma subscribe_sys:
  assumes "sys_inv (st, cl)" "i < length cl" "handle_subscribe_adv st (cl ! i) = (st', subs', ms)"
  shows "sys_inv (st', cl[i := subs'])"
proof (cases "su_adv (cl ! i)")
  case True
  then show ?thesis using assms by (auto simp: handle_subscribe_adv_def)
next
  case False
  have "0 \<le> n_adv cl" by (simp add: n_adv_def)
  with False show ?thesis using assms control_inv(2) [of "bh_scanner st"]
    by (auto simp: handle_subscribe_adv_def sys_inv_def core_inv_def subs_view_def n_adv_update n_free_update
        start_forwarding_def Let_def split: if_splits)
qed

lemma unsubscribe_sys:
  assumes "sys_inv (st, cl)" "i < length cl" "handle_unsubscribe_adv st (cl ! i) = (st', subs', ms)"
  shows "sys_inv (st', cl[i := subs'])"
proof (cases "su_adv (cl ! i)")
  case False
  then show ?thesis using assms by (auto simp: handle_unsubscribe_adv_def)
next
  case True
  then show ?thesis using assms control_inv(1) [of "bh_scanner st"] n_adv_ge [OF assms(2) True]
    by (auto simp: handle_unsubscribe_adv_def sys_inv_def core_inv_def subs_view_def n_adv_update n_free_update
        stop_forwarding_def Let_def split: if_splits)
qed

lemma subscribe_free_sys:
  assumes "sys_inv (st, cl)" "i < length cl" "handle_subscribe_free st (cl ! i) = (st', subs', ms)"
  shows "sys_inv (st', cl[i := subs'])"
  using assms
  by (cases "su_free (cl ! i)")
     (auto simp: handle_subscribe_free_def sys_inv_def core_inv_def subs_view_def n_adv_update n_free_update Let_def)

lemma same_core_sys:
  assumes "sys_inv (st, cl)" "i < length cl" "same_core st (cl ! i) (st', subs', ms)"
  shows "sys_inv (st', cl[i := subs'])"
  using assms by (auto simp: sys_inv_def core_inv_def same_core_def)

lemma device_request_sys:
  assumes "sys_inv (st, cl)" "i < length cl" "fresh_client env st"
    "handle_device_request env pl st (cl ! i) = Some (st', subs', ms)"
  shows "sys_inv (st', cl[i := subs'])"
  using device_request_frame [OF assms(4)] assms(1-3) by (auto simp: sys_inv_def)

lemma core_inv_wired: "core_inv st \<Longrightarrow> core_inv (st\<lparr>bh_pool := register_free_change_cb (bh_pool st), bh_wired := True\<rparr>)"
  by (auto simp: core_inv_def register_free_change_cb_def conn_inv_def)

lemma request_sys:
  assumes "sys_inv (st, cl)" "i < length cl" "fresh_client env st"
    "bt_handle env ty payload st (cl ! i) = Some (known, st', subs', ms)"
  shows "sys_inv (st', cl[i := subs'])"
proof -
  define st0 where "st0 = (if \<not> bh_wired st then st\<lparr>bh_pool := register_free_change_cb (bh_pool st), bh_wired := True\<rparr> else st)"
  have i0: "sys_inv (st0, cl)" and f0: "fresh_client env st0"
    using assms(1,3) core_inv_wired [of st]
    by (auto simp: st0_def sys_inv_def subs_view_def fresh_client_def register_free_change_cb_def)
  note sc = same_core_sys [OF i0 assms(2)]
  have gatt: "handle_get_services env payload st0 (cl ! i) = (st', subs', ms) \<Longrightarrow> sys_inv (st', cl[i := subs'])"
    "handle_read env m payload st0 (cl ! i) = (st', subs', ms) \<Longrightarrow> sys_inv (st', cl[i := subs'])"
    "handle_write_char env payload st0 (cl ! i) = (st', subs', ms) \<Longrightarrow> sys_inv (st', cl[i := subs'])"
    "handle_write_desc env payload st0 (cl ! i) = (st', subs', ms) \<Longrightarrow> sys_inv (st', cl[i := subs'])"
    "handle_notify env payload st0 (cl ! i) = (st', subs', ms) \<Longrightarrow> sys_inv (st', cl[i := subs'])" for m
    by (metis sc gatt_handlers_frame(1), metis sc gatt_handlers_frame(2), metis sc gatt_handlers_frame(3),
        metis sc gatt_handlers_frame(4), metis sc gatt_handlers_frame(5))
  show ?thesis
    using assms(4) i0 unfolding bt_handle_def Let_def st0_def [symmetric]
    by (auto simp del: msg_num.simps split: if_splits
        intro: subscribe_sys [OF i0 assms(2)] unsubscribe_sys [OF i0 assms(2)] subscribe_free_sys [OF i0 assms(2)]
          device_request_sys [OF i0 assms(2) f0] gatt)
qed

lemma leave_sys:
  assumes "sys_inv (st, cl)" "i < length cl"
  shows "sys_inv (client_leaves ok i (st, cl))"
proof -
  obtain st1 subs1 where r: "on_client_disconnect st (cl ! i) = (st1, subs1)" by fastforce
  have one: "sys_inv (st1, remove_nth i cl)"
  proof (cases "su_adv (cl ! i)")
    case True
    then show ?thesis using assms r control_inv(1) [of "bh_scanner st"] n_adv_ge [OF assms(2) True]
      by (cases "su_free (cl ! i)")
         (auto simp: on_client_disconnect_def sys_inv_def core_inv_def subs_view_def n_adv_remove n_free_remove
          stop_forwarding_def Let_def split: if_splits)
  next
    case False
    then show ?thesis using assms r
      by (cases "su_free (cl ! i)")
         (auto simp: on_client_disconnect_def sys_inv_def core_inv_def subs_view_def n_adv_remove n_free_remove Let_def)
  qed
  have last: "sys_inv (fst (on_last_client_disconnect ok st1), [])" if "remove_nth i cl = []"
  proof -
    let ?st = "st1\<lparr>bh_scanner := stop_forwarding (bh_scanner st1)\<rparr>"
    have inv: "conn_inv (bh_pool st1)" "scanner_inv (bh_scanner st1)" using one by (auto simp: sys_inv_def core_inv_def)
    have "conn_inv (fst (disconnect_all (bh_pool st1)))"
      using disconnect_slots_states [OF inv(1), of "[0..<length (cp_slots (bh_pool st1))]"]
      by (simp add: disconnect_all_def)
    then have "core_inv (fst (on_last_client_disconnect ok st1))"
      using inv control_inv(1) by (auto simp: on_last_client_disconnect_def Let_def case_prod_unfold core_inv_def intro: run_events_scanner)
    moreover have "subs_view (fst (on_last_client_disconnect ok st1)) = (n_adv [], n_free [], 0 < n_adv [])"
      using one that by (simp add: on_last_client_disconnect_def Let_def case_prod_unfold)
         (simp add: sys_inv_def subs_view_def stop_forwarding_def n_adv_def n_free_def)
    ultimately show ?thesis by (simp add: sys_inv_def)
  qed
  show ?thesis using one last r by (simp add: client_leaves_def Let_def)
qed

lemma callbacks_frame:
  "subs_view (fst (bt_on_connect ok c mtu st)) = subs_view st"
  "subs_view (fst (bt_on_connect_fail ok c r st)) = subs_view st"
  "subs_view (fst (bt_on_disconnect ok c r st)) = subs_view st"
  "core_inv st \<Longrightarrow> core_inv (fst (bt_on_connect ok c mtu st))"
  "core_inv st \<Longrightarrow> core_inv (fst (bt_on_connect_fail ok c r st))"
  "core_inv st \<Longrightarrow> core_inv (fst (bt_on_disconnect ok c r st))"
  using on_connect_inv [of "bh_pool st" c mtu] on_connect_fail_inv [of "bh_pool st" c r] on_disconnect_inv [of "bh_pool st" c r]
  by (auto simp: bt_on_connect_def bt_on_connect_fail_def bt_on_disconnect_def Let_def case_prod_unfold
      intro!: run_events_core core_inv_pool simp: core_inv_def intro: run_events_scanner)

lemma bt_step_inv: "bt_step s s' \<Longrightarrow> sys_inv s \<Longrightarrow> sys_inv s'"
proof (induction rule: bt_step.induct)
  case (st_join st cl)
  then show ?case by (simp add: sys_inv_def n_adv_def n_free_def no_subs_def)
next
  case (st_request i cl env st ty payload known st' subs' ms)
  then show ?case using request_sys by blast
next
  case (st_leave i cl st ok)
  then show ?case using leave_sys by blast
next
  case (st_notified st cl peer h data)
  then show ?case by (auto simp: sys_inv_def notify_cb_def core_inv_def subs_view_def split: option.splits)
next
  case (st_report st cl hc now dev bts)
  then show ?case using on_result_inv [of "bh_scanner st" hc now dev bts]
    by (auto simp: sys_inv_def core_inv_def subs_view_def on_result_pending)
next
  case (st_flush st cl tm t hc lp)
  then show ?case using flush_turn_inv [of "bh_scanner st" tm t hc lp]
    by (auto simp: sys_inv_def core_inv_def subs_view_def flush_turn_def flush_once_def Let_def split: if_splits)
qed (auto simp: sys_inv_def callbacks_frame)

lemma bt_reachable_inv: "bt_reachable s \<Longrightarrow> sys_inv s"
  by (induction rule: bt_reachable.induct) (auto simp: sys_inv_initial intro: bt_step_inv)

section \<open>Interleavings inside the subscription handlers\<close>

text \<open>The subscribe and unsubscribe handlers, taken apart at their atomic operations: the counter is updated
  by one operation, and a task that saw it leave or reach zero switches forwarding by another. A task is
  idle (subscribed or not), or between the two operations.\<close>

datatype adv_task = Task_idle bool | Task_starting | Task_stopping

record race_state =
  rs_count :: int
  rs_forwarding :: bool
  rs_tasks :: "adv_task list"

definition race_move :: "nat \<Rightarrow> race_state \<Rightarrow> race_state" where
  "race_move i s =
     (case rs_tasks s ! i of
        Task_idle False \<Rightarrow>
          s\<lparr>rs_count := rs_count s + 1,
            rs_tasks := (rs_tasks s)[i := if rs_count s = 0 then Task_starting else Task_idle True]\<rparr>
      | Task_starting \<Rightarrow> s\<lparr>rs_forwarding := True, rs_tasks := (rs_tasks s)[i := Task_idle True]\<rparr>
      | Task_idle True \<Rightarrow>
          s\<lparr>rs_count := rs_count s - 1,
            rs_tasks := (rs_tasks s)[i := if rs_count s = 1 then Task_stopping else Task_idle False]\<rparr>
      | Task_stopping \<Rightarrow> s\<lparr>rs_forwarding := False, rs_tasks := (rs_tasks s)[i := Task_idle False]\<rparr>)"

inductive race_reachable :: "nat \<Rightarrow> race_state \<Rightarrow> bool" for n where
  race_init: "race_reachable n \<lparr>rs_count = 0, rs_forwarding = False, rs_tasks = replicate n (Task_idle False)\<rparr>"
| race_next: "race_reachable n s \<Longrightarrow> i < n \<Longrightarrow> race_reachable n (race_move i s)"

lemma race_fold: "race_reachable n s \<Longrightarrow> \<forall>i\<in>set is. i < n \<Longrightarrow> race_reachable n (fold race_move is s)"
  by (induction "is" arbitrary: s) (auto intro: race_next)

lemma race_tasks_length: "race_reachable n s \<Longrightarrow> length (rs_tasks s) = n"
  by (induction rule: race_reachable.induct) (auto simp: race_move_def split: adv_task.split bool.split)

text \<open>Whatever the interleaving, the counter itself is right: it counts the tasks that are subscribed or
  about to be.\<close>

definition task_holds :: "adv_task \<Rightarrow> bool" where
  "task_holds t \<longleftrightarrow> t = Task_idle True \<or> t = Task_starting"

lemma task_holds_simps [simp]:
  "task_holds (Task_idle b) = b" "task_holds Task_starting" "\<not> task_holds Task_stopping"
  by (simp_all add: task_holds_def)

lemma race_count: "race_reachable n s \<Longrightarrow> rs_count s = int (length (filter task_holds (rs_tasks s)))"
proof (induction rule: race_reachable.induct)
  case race_init
  then show ?case by simp
next
  case (race_next s i)
  have i: "i < length (rs_tasks s)" using race_tasks_length [OF race_next(1)] race_next(2) by simp
  have up: "int (length (filter task_holds ((rs_tasks s)[i := y]))) =
      int (length (filter task_holds (rs_tasks s))) - of_bool (task_holds (rs_tasks s ! i)) + of_bool (task_holds y)" for y
    using count_filter_update [OF i, of task_holds y] by (auto split: if_splits)
  show ?case
    using race_next(3)
    by (cases "rs_tasks s ! i") (auto simp: race_move_def up split: bool.split)
qed

section \<open>Properties\<close>


definition null_codec :: pb_codec where
  "null_codec = \<lparr>pc_encode = (\<lambda>m cap. if 1 \<le> cap then Some [0x2A] else None), pc_device_request = (\<lambda>_. None),
     pc_get_services = (\<lambda>_. None), pc_read = (\<lambda>bs. Some \<lparr>gr_address = 0xAA, gr_handle = 3, gr_flag = False, gr_data = bs\<rparr>),
     pc_write = (\<lambda>bs. Some \<lparr>gr_address = 0xAA, gr_handle = 3, gr_flag = False, gr_data = bs\<rparr>),
     pc_write_descriptor = (\<lambda>bs. Some \<lparr>gr_address = 0xAA, gr_handle = 3, gr_flag = False, gr_data = bs\<rparr>),
     pc_notify = (\<lambda>bs. Some \<lparr>gr_address = 0xAA, gr_handle = 3, gr_flag = True, gr_data = bs\<rparr>)\<rparr>"

definition quiet_env :: bt_env where
  "quiet_env = \<lparr>be_codec = null_codec, be_conn = \<lparr>ce_create = None, ce_scanning = False, ce_issued = False\<rparr>,
     be_gd = \<lparr>ge_discovered = True, ge_alloc = True, ge_services = (\<lambda>_. []), ge_sent = True\<rparr>,
     be_resume_ok = True, be_read_char = (\<lambda>_ _. []), be_read_desc = (\<lambda>_ _. []),
     be_write_char = (\<lambda>_ _ _ _. True), be_write_desc = (\<lambda>_ _ _ _. True)\<rparr>"


definition gatt_answer :: "u64 \<Rightarrow> u32 \<Rightarrow> bool \<Rightarrow> message_id \<times> pb_msg \<Rightarrow> bool" where
  "gatt_answer a h connected m \<longleftrightarrow>
     (if connected then
        m = gatt_error_msg a h (-2) \<or> m = gatt_error_msg a h (-3) \<or>
        (\<exists>d. m = (MSG_BLUETOOTH_GATT_READ_RESPONSE, GattReadResponse a h d) \<and> length d \<le> 512) \<or>
        m = (MSG_BLUETOOTH_GATT_WRITE_RESPONSE, GattWriteResponse a h) \<or>
        m = (MSG_BLUETOOTH_GATT_NOTIFY_RESPONSE, GattNotifyResponse a h)
      else m = gatt_error_msg a h (-1))"



text \<open>The two operations of the subscription handlers can interleave so that a client stays subscribed
  with forwarding off: one client's unsubscribe, having taken the counter to zero, switches forwarding off
  only after another client's subscribe has switched it on. All tasks are idle in the final state, the
  counter is one, and a further subscriber does not switch forwarding on again.\<close>

theorem subscription_race:
  "\<exists>s. race_reachable 2 s \<and> rs_tasks s = [Task_idle False, Task_idle True] \<and> rs_count s = 1 \<and>
     \<not> rs_forwarding s \<and> \<not> rs_forwarding (race_move 0 s) \<and> rs_tasks (race_move 0 s) = [Task_idle True, Task_idle True]"
proof -
  let ?s0 = "\<lparr>rs_count = 0, rs_forwarding = False, rs_tasks = replicate 2 (Task_idle False)\<rparr>"
  have r: "race_reachable 2 (fold race_move [0, 0, 0, 1, 1, 0] ?s0)"
    by (rule race_fold [OF race_init]) simp
  show ?thesis
    by (rule exI, rule conjI, rule r) (simp add: race_move_def numeral_2_eq_2)
qed

end
