(* ===== verification/Api_Server.thy ===== *)
theory Api_Server
  imports Frame_Codec Handshake Bt_Handlers
begin

text \<open>
  The API server, \<^verbatim>\<open>components/api_server/api_server.cpp\<close>: the table of client sockets, framing and sending
  out of the shared transmit buffer, the dispatch of one received frame, and the life of a connection task.
  The sockets are parameters: \<open>recv\<close> for the connection at hand, and \<open>tx w fd bs\<close> for one \<open>send\<close> call (its
  return value and the new network state \<open>w\<close>). \<open>None\<close> stands for a store outside the transmit buffer, for a
  send loop that never ends, or for the null client of \<open>connection::connect\<close>; the properties below exclude
  it under the sockets' contracts.
\<close>

section \<open>State\<close>

record api_state =
  ap_fds :: "int list"          \<comment> \<open>\<open>g_client_fds\<close>, -1 in unused slots\<close>
  ap_active :: u8               \<comment> \<open>\<open>g_active_count\<close>\<close>
  ap_started :: bool            \<comment> \<open>\<open>start()\<close> has run: the mutexes exist\<close>
  ap_tx_buf :: "u8 list"
  ap_bt :: bt_state

type_synonym 'w sender = "'w \<Rightarrow> int \<Rightarrow> u8 list \<Rightarrow> int \<times> 'w"

definition TX_BUF_LEN :: nat where "TX_BUF_LEN = MAX_HEADER_LEN + MAX_MESSAGE_SIZE"

definition api_start :: "api_state \<Rightarrow> api_state" where
  "api_start s =
     (if ap_started s then s else s\<lparr>ap_started := True, ap_fds := replicate MAX_API_CLIENTS (-1)\<rparr>)"

section \<open>Sending\<close>

definition socket_read :: "('w \<Rightarrow> int \<Rightarrow> nat \<Rightarrow> read_result \<times> 'w) \<Rightarrow> int \<Rightarrow> 'w \<Rightarrow> nat \<Rightarrow> read_result \<times> 'w" where
  "socket_read recv fd w n = recv w fd n"

partial_function (option) send_loop :: "'w sender \<Rightarrow> int \<Rightarrow> u8 list \<Rightarrow> 'w \<Rightarrow> (bool \<times> 'w) option" where
  "send_loop tx fd bs w =
     (if bs = [] then Some (True, w)
      else case tx w fd bs of (r, w') \<Rightarrow>
        if r < 0 then Some (False, w') else send_loop tx fd (drop (nat r) bs) w')"

declare send_loop.simps [code]

definition send_locked_to ::
  "'w sender \<Rightarrow> int \<Rightarrow> u16 \<Rightarrow> nat \<Rightarrow> u8 list \<Rightarrow> 'w \<Rightarrow> (bool \<times> u8 list \<times> 'w) option" where
  "send_locked_to tx fd msg_type payload_len buf w =
     (case prepend_header buf msg_type payload_len of
        None \<Rightarrow> None
      | Some (buf', start) \<Rightarrow>
          let total = (MAX_HEADER_LEN - start) + payload_len in
          (case send_loop tx fd (take total (drop start buf')) w of
             None \<Rightarrow> None
           | Some (ok, w') \<Rightarrow> Some (ok, buf', w')))"

text \<open>The payload area of the transmit buffer, filled by an encoder.\<close>

definition stage_payload :: "u8 list \<Rightarrow> u8 list \<Rightarrow> u8 list" where
  "stage_payload buf bs = take MAX_HEADER_LEN buf @ bs @ drop (MAX_HEADER_LEN + length bs) buf"

text \<open>The broadcast over a snapshot of descriptors: whether any send succeeded, and the dead ones.\<close>

fun send_each ::
  "'w sender \<Rightarrow> u16 \<Rightarrow> nat \<Rightarrow> int list \<Rightarrow> u8 list \<Rightarrow> 'w \<Rightarrow> (bool \<times> int list \<times> u8 list \<times> 'w) option" where
  "send_each tx ty n [] buf w = Some (False, [], buf, w)"
| "send_each tx ty n (fd # fds) buf w =
     (case send_locked_to tx fd ty n buf w of
        None \<Rightarrow> None
      | Some (ok, buf1, w1) \<Rightarrow>
          (case send_each tx ty n fds buf1 w1 of
             None \<Rightarrow> None
           | Some (any, dead, buf2, w2) \<Rightarrow>
               Some (ok \<or> any, if ok then dead else fd # dead, buf2, w2)))"

definition has_active_client :: "api_state \<Rightarrow> bool" where
  "has_active_client s \<longleftrightarrow> ap_active s > 0"

text \<open>\<open>payload\<close> is what the encoder writes. The result: the return value, the descriptors shut down so that
  their tasks wake up (those dead and still registered), the state and the network.\<close>

definition send_async ::
  "'w sender \<Rightarrow> u16 \<Rightarrow> u8 list \<Rightarrow> api_state \<Rightarrow> 'w \<Rightarrow> (bool \<times> int list \<times> api_state \<times> 'w) option" where
  "send_async tx msg_type payload s w =
     (if ap_active s = 0 then Some (False, [], s, w)
      else if \<not> ap_started s then Some (False, [], s, w)
      else
        let buf = stage_payload (ap_tx_buf s) payload; n = length payload in
        if n > 0 then
          (case send_each tx msg_type n (filter (\<lambda>fd. fd \<ge> 0) (ap_fds s)) buf w of
             None \<Rightarrow> None
           | Some (any, dead, buf', w') \<Rightarrow>
               Some (any, filter (\<lambda>fd. fd \<in> set (ap_fds s)) dead, s\<lparr>ap_tx_buf := buf'\<rparr>, w'))
        else Some (False, [], s\<lparr>ap_tx_buf := buf\<rparr>, w))"

text \<open>The messages a handler or callback produced, one after the other.\<close>

fun send_msgs ::
  "'w sender \<Rightarrow> pb_codec \<Rightarrow> out_msgs \<Rightarrow> api_state \<Rightarrow> 'w \<Rightarrow> (int list \<times> api_state \<times> 'w) option" where
  "send_msgs tx pc [] s w = Some ([], s, w)"
| "send_msgs tx pc ((m, b) # ms) s w =
     (case send_async tx (msg_num m) (encode_one pc b MAX_MESSAGE_SIZE) s w of
        None \<Rightarrow> None
      | Some (ok, d1, s1, w1) \<Rightarrow>
          (case send_msgs tx pc ms s1 w1 of
             None \<Rightarrow> None
           | Some (d2, s2, w2) \<Rightarrow> Some (d1 @ d2, s2, w2)))"

section \<open>Clients\<close>

definition claim_fd :: "nat \<Rightarrow> int list \<Rightarrow> int list option" where
  "claim_fd fd fds = (case find_idx (\<lambda>s. s < 0) fds of None \<Rightarrow> None | Some i \<Rightarrow> Some (fds[i := int fd]))"

definition release_fd :: "nat \<Rightarrow> int list \<Rightarrow> int list" where
  "release_fd i fds = fds[i := -1]"

definition register_client :: "nat \<Rightarrow> api_state \<Rightarrow> bool \<times> api_state" where
  "register_client fd s =
     (case claim_fd fd (ap_fds s) of
        None \<Rightarrow> (False, s)
      | Some fds \<Rightarrow> (True, s\<lparr>ap_fds := fds, ap_active := ap_active s + 1\<rparr>))"

definition unregister_client :: "nat \<Rightarrow> api_state \<Rightarrow> api_state" where
  "unregister_client fd s =
     (let fds = (case find_idx (\<lambda>s. s = int fd) (ap_fds s) of None \<Rightarrow> ap_fds s | Some i \<Rightarrow> release_fd i (ap_fds s))
      in s\<lparr>ap_fds := fds, ap_active := ap_active s - 1\<rparr>)"

text \<open>One turn of the listener with an accepted descriptor: \<open>True\<close> when a connection task now serves it;
  otherwise the descriptor has been closed.\<close>

definition accept_client :: "bool \<Rightarrow> nat \<Rightarrow> api_state \<Rightarrow> bool \<times> api_state" where
  "accept_client task_created fd s =
     (case register_client fd s of
        (False, s1) \<Rightarrow> (False, s1)
      | (True, s1) \<Rightarrow> if task_created then (True, s1) else (False, unregister_client fd s1))"

section \<open>Dispatch\<close>

definition dispatch_one ::
  "('w \<Rightarrow> int \<Rightarrow> nat \<Rightarrow> read_result \<times> 'w) \<Rightarrow> 'w sender \<Rightarrow> hs_env \<Rightarrow> bt_env \<Rightarrow> nat \<Rightarrow> client_subs \<Rightarrow>
     api_state \<Rightarrow> 'w \<Rightarrow> (bool \<times> client_subs \<times> api_state \<times> 'w) option" where
  "dispatch_one recv tx henv benv fd subs s w =
     (case read_frame (socket_read recv (int fd)) w MAX_MESSAGE_SIZE of
        (Inl e, w1) \<Rightarrow> Some (False, subs, s, w1)
      | (Inr (msg_type, payload), w1) \<Rightarrow>
          let hr = handshake_handle (be_codec benv) henv msg_type MAX_MESSAGE_SIZE in
          if hr_handled hr then
            let buf = stage_payload (ap_tx_buf s) (hr_payload hr) in
            if hr_response_type hr \<noteq> 0 then
              (case send_locked_to tx (int fd) (hr_response_type hr) (length (hr_payload hr)) buf w1 of
                 None \<Rightarrow> None
               | Some (ok, buf', w2) \<Rightarrow> Some (ok \<and> \<not> hr_close_after hr, subs, s\<lparr>ap_tx_buf := buf'\<rparr>, w2))
            else Some (\<not> hr_close_after hr, subs, s\<lparr>ap_tx_buf := buf\<rparr>, w1)
          else
            (case bt_handle benv msg_type payload (ap_bt s) subs of
               None \<Rightarrow> None
             | Some (known, bt', subs', ms) \<Rightarrow>
                 (case send_msgs tx (be_codec benv) ms (s\<lparr>ap_bt := bt'\<rparr>) w1 of
                    None \<Rightarrow> None
                  | Some (dead, s2, w2) \<Rightarrow> Some (True, subs', s2, w2))))"

text \<open>The end of a connection task, after its dispatch loop: subscriptions first, then the slot, then the
  GATT links if nobody is left. The descriptor is then shut down and closed.\<close>

definition connection_end ::
  "'w sender \<Rightarrow> pb_codec \<Rightarrow> bool \<Rightarrow> nat \<Rightarrow> client_subs \<Rightarrow> api_state \<Rightarrow> 'w \<Rightarrow> (api_state \<times> 'w) option" where
  "connection_end tx pc resume_ok fd subs s w =
     (let s1 = s\<lparr>ap_bt := fst (on_client_disconnect (ap_bt s) subs)\<rparr>;
          s2 = unregister_client fd s1
      in if ap_active s2 = 0 then
           (let (bt, ms) = on_last_client_disconnect resume_ok (ap_bt s2) in
            case send_msgs tx pc ms (s2\<lparr>ap_bt := bt\<rparr>) w of
              None \<Rightarrow> None
            | Some (dead, s3, w3) \<Rightarrow> Some (s3, w3))
         else Some (s2, w))"

section \<open>The client table as a slot table\<close>

abbreviation fd_free :: "int \<Rightarrow> bool" where "fd_free s \<equiv> s < 0"

interpretation ft: slot_table fd_free nat claim_fd release_fd
proof unfold_locales
  show "claim_fd k ss = None \<longleftrightarrow> (\<forall>s\<in>set ss. \<not> fd_free s)" for k ss
    by (auto simp: claim_fd_def find_idx_None split: option.split dest!: find_idx_cong_Some)
next
  show "\<exists>i s. i < length ss \<and> fd_free (ss ! i) \<and> ss' = ss[i := s] \<and> \<not> fd_free s \<and> nat s = k"
    if "claim_fd k ss = Some ss'" for k ss ss'
    using that by (fastforce simp: claim_fd_def split: option.splits dest: find_idx_SomeD)
next
  show "\<exists>s. release_fd i ss = ss[i := s] \<and> fd_free s" if "i < length ss" for i ss
    by (auto simp: release_fd_def)
qed

definition api_inv :: "api_state \<Rightarrow> bool" where
  "api_inv s \<longleftrightarrow> ap_started s \<and> length (ap_fds s) = MAX_API_CLIENTS \<and> distinct (ft.used (ap_fds s)) \<and>
     ap_active s = of_nat (length (ft.used (ap_fds s))) \<and> length (ap_tx_buf s) = TX_BUF_LEN"

lemma active_unat: "api_inv s \<Longrightarrow> unat (ap_active s) = length (ft.used (ap_fds s))"
  using ft.used_bounded [of "ap_fds s"] by (simp add: api_inv_def unat_of_nat MAX_API_CLIENTS_def)

lemma has_active_iff: "api_inv s \<Longrightarrow> has_active_client s \<longleftrightarrow> ft.used (ap_fds s) \<noteq> []"
  using active_unat [of s] by (simp add: has_active_client_def word_less_nat_alt)

lemma register_inv:
  assumes "api_inv s" "fd \<notin> set (ft.used (ap_fds s))" "register_client fd s = (ok, s')"
  shows "api_inv s' \<and> (ok \<longleftrightarrow> length (ft.used (ap_fds s)) < MAX_API_CLIENTS) \<and>
     mset (ft.used (ap_fds s')) = mset (ft.used (ap_fds s)) + (if ok then {#fd#} else {#}) \<and> ap_bt s' = ap_bt s"
proof (cases "claim_fd fd (ap_fds s)")
  case None
  then show ?thesis using assms ft.claim_succeeds [of fd "ap_fds s"]
    by (auto simp: register_client_def api_inv_def)
next
  case (Some fds)
  have u: "mset (ft.used fds) = add_mset fd (mset (ft.used (ap_fds s)))" "length fds = length (ap_fds s)"
    using ft.claim_used [OF Some] by auto
  have "length (ft.used fds) = Suc (length (ft.used (ap_fds s)))" using u(1) by (metis mset_eq_length length_Cons mset.simps(2))
  moreover have "distinct (ft.used fds)" using ft.claim_distinct [OF Some] assms(1,2) by (simp add: api_inv_def)
  ultimately show ?thesis using assms Some u ft.claim_succeeds [of fd "ap_fds s"]
    by (auto simp: register_client_def api_inv_def)
qed

lemma find_fd: "i < length fds \<Longrightarrow> find_idx (\<lambda>s. s = int fd) fds = Some i \<Longrightarrow> \<not> fd_free (fds ! i) \<and> nat (fds ! i) = fd"
  by (auto dest: find_idx_SomeD)

lemma unregister_inv:
  assumes "api_inv s" "fd \<in> set (ft.used (ap_fds s))"
  shows "api_inv (unregister_client fd s) \<and>
     add_mset fd (mset (ft.used (ap_fds (unregister_client fd s)))) = mset (ft.used (ap_fds s)) \<and>
     ap_bt (unregister_client fd s) = ap_bt s"
proof -
  have "find_idx (\<lambda>s. s = int fd) (ap_fds s) \<noteq> None"
    using assms(2) by (auto simp: find_idx_None ft.used_def)
  then obtain i where f: "find_idx (\<lambda>s. s = int fd) (ap_fds s) = Some i" by blast
  then have i: "i < length (ap_fds s)" by (auto dest: find_idx_SomeD)
  have u: "mset (ft.used (ap_fds s)) = add_mset fd (mset (ft.used (release_fd i (ap_fds s))))"
    using ft.release_used [OF i] find_fd [OF i f] by simp
  then have "length (ft.used (ap_fds s)) = Suc (length (ft.used (release_fd i (ap_fds s))))"
    by (metis mset_eq_length length_Cons mset.simps(2))
  then show ?thesis
    using assms(1) f u ft.release_distinct [OF i] ft.release_length [OF i]
    by (simp add: unregister_client_def api_inv_def)
qed

section \<open>The sending side of a socket\<close>

text \<open>What a blocking stream socket promises of \<open>send\<close>: a negative value, with nothing more queued, or the
  number of bytes queued, at least one of those offered. \<open>wire w fd\<close> are the bytes queued on \<open>fd\<close> so far.\<close>

locale stream_writer =
  fixes tx :: "'w sender"
    and wire :: "'w \<Rightarrow> int \<Rightarrow> u8 list"
  assumes tx_fail: "bs \<noteq> [] \<Longrightarrow> tx w fd bs = (r, w') \<Longrightarrow> r < 0 \<Longrightarrow> wire w' = wire w"
    and tx_some: "bs \<noteq> [] \<Longrightarrow> tx w fd bs = (r, w') \<Longrightarrow> \<not> r < 0 \<Longrightarrow>
      0 < r \<and> r \<le> int (length bs) \<and> wire w' = (wire w)(fd := wire w fd @ take (nat r) bs)"
begin

lemma send_loop_total:
  "\<exists>ok w'. send_loop tx fd bs w = Some (ok, w') \<and> (\<forall>g. g \<noteq> fd \<longrightarrow> wire w' g = wire w g) \<and>
     (ok \<longrightarrow> wire w' fd = wire w fd @ bs)"
proof (induction "length bs" arbitrary: bs w rule: less_induct)
  case less
  show ?case
  proof (cases "bs = []")
    case True
    then show ?thesis by (auto simp: send_loop.simps [of tx fd "[]" w])
  next
    case False
    obtain r w1 where t: "tx w fd bs = (r, w1)" by fastforce
    show ?thesis
    proof (cases "r < 0")
      case True
      then show ?thesis using False t tx_fail [OF False t] by (auto simp: send_loop.simps [of tx fd bs w])
    next
      case pos: False
      have s: "0 < r" "r \<le> int (length bs)" "wire w1 = (wire w)(fd := wire w fd @ take (nat r) bs)"
        using tx_some [OF False t pos] by auto
      have "length (drop (nat r) bs) < length bs" using s(1) False by simp
      from less [OF this, of w1] obtain ok w2 where
        "send_loop tx fd (drop (nat r) bs) w1 = Some (ok, w2)" "\<forall>g. g \<noteq> fd \<longrightarrow> wire w2 g = wire w1 g"
        "ok \<longrightarrow> wire w2 fd = wire w1 fd @ drop (nat r) bs"
        by blast
      then show ?thesis using False t pos s(3) by (simp add: send_loop.simps [of tx fd bs w])
    qed
  qed
qed

end

text \<open>The bytes of one frame.\<close>

definition frame_bytes :: "u16 \<Rightarrow> u8 list \<Rightarrow> u8 list" where
  "frame_bytes ty payload =
     0 # encode_varint (of_nat (length payload)) @ encode_varint (ucast ty) @ payload"

lemma staged_length: "length bs \<le> MAX_MESSAGE_SIZE \<Longrightarrow> length buf = TX_BUF_LEN \<Longrightarrow> length (stage_payload buf bs) = TX_BUF_LEN"
  by (simp add: stage_payload_def TX_BUF_LEN_def min_def)

lemma staged_payload: "length buf = TX_BUF_LEN \<Longrightarrow> take (length bs) (drop MAX_HEADER_LEN (stage_payload buf bs)) = bs"
  by (simp add: stage_payload_def TX_BUF_LEN_def)

context stream_writer
begin

text \<open>Sending out of the buffer puts exactly one frame on the wire, and leaves the payload area as it was.\<close>

lemma send_locked_total:
  assumes "length buf = TX_BUF_LEN" "n \<le> MAX_MESSAGE_SIZE" "unat ty < 2 ^ 14"
  shows "\<exists>ok buf' w'. send_locked_to tx fd ty n buf w = Some (ok, buf', w') \<and> length buf' = TX_BUF_LEN \<and>
     drop MAX_HEADER_LEN buf' = drop MAX_HEADER_LEN buf \<and> (\<forall>g. g \<noteq> fd \<longrightarrow> wire w' g = wire w g) \<and>
     (ok \<longrightarrow> wire w' fd = wire w fd @ frame_bytes ty (take n (drop MAX_HEADER_LEN buf)))"
proof -
  let ?h = "0 # encode_varint (of_nat n) @ encode_varint (ucast ty)"
  have n: "n < 2 ^ 21" using assms(2) by (simp add: MAX_MESSAGE_SIZE_def)
  have b: "MAX_HEADER_LEN \<le> length buf" using assms(1) by (simp add: TX_BUF_LEN_def)
  obtain buf' start where p: "prepend_header buf ty n = Some (buf', start)"
    "start + length ?h = MAX_HEADER_LEN" "length buf' = length buf" "drop start buf' = ?h @ drop MAX_HEADER_LEN buf"
    using prepend_header_fits [OF b n assms(3)] by (auto simp: encode_varint_length)
  have len: "MAX_HEADER_LEN - start = length ?h" using p(2) by linarith
  have fr: "take (MAX_HEADER_LEN - start + n) (drop start buf') = frame_bytes ty (take n (drop MAX_HEADER_LEN buf))"
    unfolding len p(4) using assms(1,2) by (simp add: frame_bytes_def TX_BUF_LEN_def)
  have keep: "drop MAX_HEADER_LEN buf' = drop MAX_HEADER_LEN buf"
  proof -
    have "drop MAX_HEADER_LEN buf' = drop (length ?h) (drop start buf')" using p(2) by (metis drop_drop add.commute)
    then show ?thesis by (simp add: p(4) del: drop_drop)
  qed
  obtain ok w' where "send_loop tx fd (frame_bytes ty (take n (drop MAX_HEADER_LEN buf))) w = Some (ok, w')"
    "\<forall>g. g \<noteq> fd \<longrightarrow> wire w' g = wire w g"
    "ok \<longrightarrow> wire w' fd = wire w fd @ frame_bytes ty (take n (drop MAX_HEADER_LEN buf))"
    using send_loop_total by blast
  then show ?thesis using p(1,3) fr keep assms(1) by (simp add: send_locked_to_def Let_def)
qed

end

context stream_writer
begin

lemma send_each_total:
  assumes "length buf = TX_BUF_LEN" "n \<le> MAX_MESSAGE_SIZE" "unat ty < 2 ^ 14" "distinct fds"
  shows "\<exists>any dead buf' w'. send_each tx ty n fds buf w = Some (any, dead, buf', w') \<and> length buf' = TX_BUF_LEN \<and>
     set dead \<subseteq> set fds \<and> (any \<longleftrightarrow> (\<exists>fd\<in>set fds. fd \<notin> set dead)) \<and>
     (\<forall>g. g \<notin> set fds \<longrightarrow> wire w' g = wire w g) \<and>
     (\<forall>fd\<in>set fds - set dead. wire w' fd = wire w fd @ frame_bytes ty (take n (drop MAX_HEADER_LEN buf)))"
  using assms
proof (induction fds arbitrary: buf w)
  case (Cons fd fds)
  obtain ok b1 w1 where s: "send_locked_to tx fd ty n buf w = Some (ok, b1, w1)" "length b1 = TX_BUF_LEN"
    "drop MAX_HEADER_LEN b1 = drop MAX_HEADER_LEN buf" "\<forall>g. g \<noteq> fd \<longrightarrow> wire w1 g = wire w g"
    "ok \<longrightarrow> wire w1 fd = wire w fd @ frame_bytes ty (take n (drop MAX_HEADER_LEN buf))"
    using send_locked_total [OF Cons.prems(1-3), of fd w] by blast
  obtain any dead b2 w2 where r: "send_each tx ty n fds b1 w1 = Some (any, dead, b2, w2)" "length b2 = TX_BUF_LEN"
    "set dead \<subseteq> set fds" "any \<longleftrightarrow> (\<exists>fd\<in>set fds. fd \<notin> set dead)" "\<forall>g. g \<notin> set fds \<longrightarrow> wire w2 g = wire w1 g"
    "\<forall>fd\<in>set fds - set dead. wire w2 fd = wire w1 fd @ frame_bytes ty (take n (drop MAX_HEADER_LEN buf))"
    using Cons.IH [OF s(2) Cons.prems(2,3), of w1] Cons.prems(4) unfolding s(3) by auto
  have fd: "fd \<notin> set fds" using Cons.prems(4) by simp
  have "wire w2 g = wire w g" if "g \<notin> set (fd # fds)" for g using that r(5) s(4) by simp
  moreover have "wire w2 g = wire w g @ frame_bytes ty (take n (drop MAX_HEADER_LEN buf))"
    if "g \<in> set (fd # fds)" "g \<notin> set (if ok then dead else fd # dead)" for g
    using that r(5,6) s(4,5) fd by (cases "g = fd") (auto split: if_splits)
  moreover have "(ok \<or> any) \<longleftrightarrow> (\<exists>g\<in>set (fd # fds). g \<notin> set (if ok then dead else fd # dead))"
    using r(3,4) fd by (cases ok) auto
  moreover have "set (if ok then dead else fd # dead) \<subseteq> set (fd # fds)" using r(3) by auto
  ultimately show ?case using s(1) r(1,2) by (auto simp del: set_simps)
qed auto

text \<open>The broadcast: every registered client either gets the whole frame or is reported dead.\<close>

lemma send_async_total:
  assumes "api_inv s" "length payload \<le> MAX_MESSAGE_SIZE" "unat ty < 2 ^ 14"
  shows "\<exists>any dead s' w'. send_async tx ty payload s w = Some (any, dead, s', w') \<and>
     api_inv s' \<and> ap_fds s' = ap_fds s \<and> ap_bt s' = ap_bt s \<and>
     (any \<longleftrightarrow> (payload \<noteq> [] \<and> (\<exists>fd\<in>set (ft.used (ap_fds s)). int fd \<notin> set dead))) \<and>
     (\<forall>g. g < 0 \<or> nat g \<notin> set (ft.used (ap_fds s)) \<longrightarrow> wire w' g = wire w g) \<and>
     (payload \<noteq> [] \<longrightarrow> (\<forall>fd\<in>set (ft.used (ap_fds s)). int fd \<notin> set dead \<longrightarrow>
        wire w' (int fd) = wire w (int fd) @ frame_bytes ty payload)) \<and>
     (payload = [] \<longrightarrow> dead = [] \<and> wire w' = wire w)"
proof (cases "ap_active s = 0 \<or> payload = []")
  case True
  have "ap_active s = 0 \<Longrightarrow> ft.used (ap_fds s) = []"
    using active_unat [OF assms(1)] by simp
  then show ?thesis using True assms(1) staged_length [OF assms(2), of "ap_tx_buf s"]
    by (auto simp: send_async_def api_inv_def Let_def)
next
  case False
  let ?fds = "filter (\<lambda>fd. 0 \<le> fd) (ap_fds s)" and ?buf = "stage_payload (ap_tx_buf s) payload"
  have u: "map nat ?fds = ft.used (ap_fds s)" by (simp add: ft.used_def not_less)
  have nn: "\<forall>x\<in>set ?fds. 0 \<le> x" by simp
  have mem: "x \<in> set ?fds \<longleftrightarrow> 0 \<le> x \<and> nat x \<in> set (ft.used (ap_fds s))" for x
    unfolding u [symmetric] by (auto simp: image_iff) (metis eq_nat_nat_iff)
  have d: "distinct ?fds" using assms(1) u by (metis api_inv_def distinct_map)
  have len: "length ?buf = TX_BUF_LEN" using staged_length [OF assms(2)] assms(1) by (simp add: api_inv_def)
  have pay: "take (length payload) (drop MAX_HEADER_LEN ?buf) = payload"
    using assms(1) by (simp add: staged_payload api_inv_def)
  obtain any dead b' w' where r: "send_each tx ty (length payload) ?fds ?buf w = Some (any, dead, b', w')"
    "length b' = TX_BUF_LEN" "set dead \<subseteq> set ?fds" "any \<longleftrightarrow> (\<exists>fd\<in>set ?fds. fd \<notin> set dead)"
    "\<forall>g. g \<notin> set ?fds \<longrightarrow> wire w' g = wire w g"
    "\<forall>fd\<in>set ?fds - set dead. wire w' fd = wire w fd @ frame_bytes ty payload"
    using send_each_total [OF len assms(2,3) d, of w] unfolding pay by blast
  have dead: "filter (\<lambda>fd. fd \<in> set (ap_fds s)) dead = dead"
    using r(3) by (auto intro: filter_True)
  have any: "any \<longleftrightarrow> (\<exists>fd\<in>set (ft.used (ap_fds s)). int fd \<notin> set dead)"
    unfolding r(4) using mem by (metis int_nat_eq nat_int of_nat_0_le_iff)
  have inv: "api_inv (s\<lparr>ap_tx_buf := b'\<rparr>)" using assms(1) r(2) by (simp add: api_inv_def)
  have "send_async tx ty payload s w = Some (any, dead, s\<lparr>ap_tx_buf := b'\<rparr>, w')"
    using False r(1) dead assms(1) by (simp add: send_async_def api_inv_def Let_def)
  moreover have "wire w' g = wire w g" if "g < 0 \<or> nat g \<notin> set (ft.used (ap_fds s))" for g
    using r(5) mem [of g] that by auto
  moreover have "wire w' (int fd) = wire w (int fd) @ frame_bytes ty payload"
    if "fd \<in> set (ft.used (ap_fds s))" "int fd \<notin> set dead" for fd
    using r(6) mem [of "int fd"] that by auto
  ultimately show ?thesis using any inv False by auto
qed

lemma send_msgs_total:
  assumes "api_inv s" "codec_bounded pc"
  shows "\<exists>dead s' w'. send_msgs tx pc ms s w = Some (dead, s', w') \<and> api_inv s' \<and> ap_fds s' = ap_fds s \<and> ap_bt s' = ap_bt s"
  using assms(1)
proof (induction ms arbitrary: s w)
  case (Cons m ms)
  obtain i b where m: "m = (i, b)" by (cases m)
  obtain ok d1 s1 w1 where a: "send_async tx (msg_num i) (encode_one pc b MAX_MESSAGE_SIZE) s w = Some (ok, d1, s1, w1)"
    "api_inv s1" "ap_fds s1 = ap_fds s" "ap_bt s1 = ap_bt s"
    using send_async_total [OF Cons.prems encode_one_bounded [OF assms(2)] msg_num_fits, where w = w] by blast
  obtain d2 s2 w2 where "send_msgs tx pc ms s1 w1 = Some (d2, s2, w2)" "api_inv s2" "ap_fds s2 = ap_fds s1" "ap_bt s2 = ap_bt s1"
    using Cons.IH [OF a(2), of w1] by blast
  then show ?case using a m by simp
qed simp

end

section \<open>A network\<close>

text \<open>Sockets whose sends are taken in pieces of at most \<open>ln_chunk + 1\<close> bytes, each a segment for the peer;
  sends on a descriptor whose peer is gone fail.\<close>

record loop_net =
  ln_segs :: "int \<Rightarrow> u8 list list"
  ln_dead :: "int set"
  ln_chunk :: nat

definition loop_tx :: "loop_net sender" where
  "loop_tx w fd bs =
     (if fd \<in> ln_dead w then (-1, w)
      else let k = min (ln_chunk w + 1) (length bs)
           in (int k, w\<lparr>ln_segs := (ln_segs w)(fd := ln_segs w fd @ [take k bs])\<rparr>))"

definition loop_wire :: "loop_net \<Rightarrow> int \<Rightarrow> u8 list" where
  "loop_wire w fd = concat (ln_segs w fd)"

definition loop_recv :: "loop_net \<Rightarrow> int \<Rightarrow> nat \<Rightarrow> read_result \<times> loop_net" where
  "loop_recv w fd n = (let (r, ss) = seg_recv (ln_segs w fd) n in (r, w\<lparr>ln_segs := (ln_segs w)(fd := ss)\<rparr>))"

interpretation ln: stream_writer loop_tx loop_wire
proof unfold_locales
  show "loop_wire w' = loop_wire w" if "bs \<noteq> []" "loop_tx w fd bs = (r, w')" "r < 0" for bs w fd r w'
    using that by (auto simp: loop_tx_def Let_def split: if_splits)
  show "0 < r \<and> r \<le> int (length bs) \<and> loop_wire w' = (loop_wire w)(fd := loop_wire w fd @ take (nat r) bs)"
    if "bs \<noteq> []" "loop_tx w fd bs = (r, w')" "\<not> r < 0" for bs w fd r w'
    using that by (auto simp: loop_tx_def loop_wire_def Let_def fun_eq_iff split: if_splits)
qed

text \<open>The API server's own \<open>ReadFn\<close> on such a socket meets the frame reader's contract.\<close>

interpretation sr: stream_reader "socket_read loop_recv fd" "\<lambda>w. loop_wire w fd" for fd
proof unfold_locales
  fix c n
  show "\<exists>bs c'. socket_read loop_recv fd c n = (Rd bs, c') \<and> bs \<noteq> [] \<and> length bs \<le> n \<and> loop_wire c fd = bs @ loop_wire c' fd"
    if "loop_wire c fd \<noteq> []" "0 < n"
    using seg_recv_data [of "ln_segs c fd" n] that
    by (auto simp: socket_read_def loop_recv_def loop_wire_def simp del: concat_eq_Nil_conv)
  show "\<exists>c'. socket_read loop_recv fd c n = (Rd [], c') \<and> loop_wire c' fd = []" if "loop_wire c fd = []" "0 < n"
    using seg_recv_end [of "ln_segs c fd" n] that
    by (auto simp: socket_read_def loop_recv_def loop_wire_def simp del: concat_eq_Nil_conv)
qed

section \<open>Totality of the dispatcher and of the teardown\<close>

lemma accept_inv:
  assumes "api_inv s" "fd \<notin> set (ft.used (ap_fds s))" "accept_client created fd s = (served, s')"
  shows "api_inv s' \<and> (served \<longleftrightarrow> created \<and> length (ft.used (ap_fds s)) < MAX_API_CLIENTS) \<and>
     mset (ft.used (ap_fds s')) = mset (ft.used (ap_fds s)) + (if served then {#fd#} else {#})"
proof -
  obtain ok s1 where r: "register_client fd s = (ok, s1)" by fastforce
  note reg = register_inv [OF assms(1,2) r]
  show ?thesis
  proof (cases "ok \<and> \<not> created")
    case True
    then have "fd \<in># mset (ft.used (ap_fds s1))" using reg by simp
    then have "fd \<in> set (ft.used (ap_fds s1))" by simp
    from unregister_inv [OF conjunct1 [OF reg] this] show ?thesis
      using True reg assms(3) r by (auto simp: accept_client_def)
  next
    case False
    then show ?thesis using reg assms(3) r by (cases ok) (auto simp: accept_client_def)
  qed
qed

context stream_writer
begin

lemma dispatch_total:
  assumes "api_inv s" "codec_bounded (be_codec benv)"
    and "\<And>ty payload. bt_handle benv ty payload (ap_bt s) subs \<noteq> None"
  shows "\<exists>keep subs' s' w'. dispatch_one recv tx henv benv fd subs s w = Some (keep, subs', s', w') \<and>
     api_inv s' \<and> ap_fds s' = ap_fds s \<and>
     (case fst (read_frame (socket_read recv (int fd)) w MAX_MESSAGE_SIZE) of
        Inl e \<Rightarrow> \<not> keep \<and> s' = s
      | Inr (ty, payload) \<Rightarrow>
          (ty = msg_num MSG_DISCONNECT_REQUEST \<longrightarrow> \<not> keep) \<and>
          (ty \<notin> msg_num ` set handshake_requests \<longrightarrow> keep) \<and>
          (ty \<in> msg_num ` set handshake_requests \<longrightarrow> ap_bt s' = ap_bt s))"
proof (cases "read_frame (socket_read recv (int fd)) w MAX_MESSAGE_SIZE")
  case (Pair res w1)
  show ?thesis
  proof (cases res)
    case (Inl e)
    then show ?thesis using Pair assms(1) by (auto simp: dispatch_one_def)
  next
    case (Inr tp)
    obtain ty payload where tp: "tp = (ty, payload)" by (cases tp)
    let ?hr = "handshake_handle (be_codec benv) henv ty MAX_MESSAGE_SIZE"
    let ?buf = "stage_payload (ap_tx_buf s) (hr_payload ?hr)"
    have cl: "hr_close_after ?hr \<longleftrightarrow> ty = msg_num MSG_DISCONNECT_REQUEST"
      by (simp add: handshake_defs)
    have hl: "length (hr_payload ?hr) \<le> MAX_MESSAGE_SIZE" by (rule handshake_payload_bounded [OF assms(2)])
    have len: "length ?buf = TX_BUF_LEN" using staged_length [OF hl] assms(1) by (simp add: api_inv_def)
    show ?thesis
    proof (cases "hr_handled ?hr")
      case True
      then have mem: "ty \<in> msg_num ` set handshake_requests" by (simp only: handshake_handled_iff)
      obtain ok b2 w2 where "send_locked_to tx (int fd) (hr_response_type ?hr) (length (hr_payload ?hr)) ?buf w1 = Some (ok, b2, w2)"
        "length b2 = TX_BUF_LEN"
        using send_locked_total [OF len hl handshake_response_fits] by blast
      then show ?thesis using Pair Inr tp True mem cl len assms(1)
        by (simp add: dispatch_one_def Let_def api_inv_def del: msg_num.simps)
    next
      case False
      then have mem: "ty \<notin> msg_num ` set handshake_requests" by (simp only: handshake_handled_iff not_False_eq_True)
      have nd: "ty \<noteq> msg_num MSG_DISCONNECT_REQUEST" using mem by (auto simp: handshake_requests_def)
      obtain known bt' subs' ms where b: "bt_handle benv ty payload (ap_bt s) subs = Some (known, bt', subs', ms)"
        using assms(3) [of ty payload] by auto
      have "api_inv (s\<lparr>ap_bt := bt'\<rparr>)" using assms(1) by (simp add: api_inv_def)
      from send_msgs_total [OF this assms(2), of ms w1] obtain dead s2 w2 where
        "send_msgs tx (be_codec benv) ms (s\<lparr>ap_bt := bt'\<rparr>) w1 = Some (dead, s2, w2)" "api_inv s2" "ap_fds s2 = ap_fds s"
        by auto
      then show ?thesis using Pair Inr tp False mem nd b
        by (auto simp: dispatch_one_def Let_def simp del: msg_num.simps)
    qed
  qed
qed

lemma connection_end_total:
  assumes "api_inv s" "codec_bounded pc" "fd \<in> set (ft.used (ap_fds s))"
  shows "\<exists>s' w'. connection_end tx pc ok fd subs s w = Some (s', w') \<and> api_inv s' \<and>
     add_mset fd (mset (ft.used (ap_fds s'))) = mset (ft.used (ap_fds s))"
proof -
  let ?s1 = "s\<lparr>ap_bt := fst (on_client_disconnect (ap_bt s) subs)\<rparr>" and ?s2 = "unregister_client fd (s\<lparr>ap_bt := fst (on_client_disconnect (ap_bt s) subs)\<rparr>)"
  have "api_inv ?s1" using assms(1) by (simp add: api_inv_def)
  then have u: "api_inv ?s2" "add_mset fd (mset (ft.used (ap_fds ?s2))) = mset (ft.used (ap_fds s))"
    using unregister_inv [of ?s1 fd] assms(3) by simp_all
  obtain bt ms where l: "on_last_client_disconnect ok (ap_bt ?s2) = (bt, ms)" by fastforce
  have "api_inv (?s2\<lparr>ap_bt := bt\<rparr>)" using u(1) by (simp add: api_inv_def)
  from send_msgs_total [OF this assms(2), of ms w] obtain dead s3 w3 where
    "send_msgs tx pc ms (?s2\<lparr>ap_bt := bt\<rparr>) w = Some (dead, s3, w3)" "api_inv s3" "ap_fds s3 = ap_fds ?s2"
    by auto
  then show ?thesis using u l by (simp add: connection_end_def Let_def)
qed

end

section \<open>Properties\<close>

text \<open>C1: broadcasting works end to end. With sockets that meet their contracts, \<open>send_async\<close> always
  returns, writes inside the transmit buffer only and touches no socket that is not a client's; every
  registered client either gets the frame, so that a reader at its end of the stream obtains exactly the
  message id and the payload, or is among the descriptors shut down; and the return value says whether
  anybody got it.\<close>

theorem broadcast_delivers:
  assumes "stream_writer tx wire" "stream_reader rd pending" "api_inv s" "payload \<noteq> []"
    "length payload \<le> MAX_MESSAGE_SIZE" "unat ty < 2 ^ 14"
  shows "\<exists>any dead s' w'. send_async tx ty payload s w = Some (any, dead, s', w') \<and> api_inv s' \<and>
     (any \<longleftrightarrow> (\<exists>fd\<in>set (ft.used (ap_fds s)). int fd \<notin> set dead)) \<and>
     (\<forall>fd. fd \<notin> set (ft.used (ap_fds s)) \<longrightarrow> wire w' (int fd) = wire w (int fd)) \<and>
     (\<forall>fd\<in>set (ft.used (ap_fds s)). int fd \<notin> set dead \<longrightarrow>
        (\<exists>frame. wire w' (int fd) = wire w (int fd) @ frame \<and>
          (\<forall>c rest. pending c = frame @ rest \<longrightarrow>
             (\<exists>c'. read_frame rd c MAX_MESSAGE_SIZE = (Inr (ty, payload), c') \<and> pending c' = rest))))"
proof -
  obtain any dead s' w' where r: "send_async tx ty payload s w = Some (any, dead, s', w')" "api_inv s'"
    "any \<longleftrightarrow> (\<exists>fd\<in>set (ft.used (ap_fds s)). int fd \<notin> set dead)"
    "\<forall>g. g < 0 \<or> nat g \<notin> set (ft.used (ap_fds s)) \<longrightarrow> wire w' g = wire w g"
    "\<forall>fd\<in>set (ft.used (ap_fds s)). int fd \<notin> set dead \<longrightarrow> wire w' (int fd) = wire w (int fd) @ frame_bytes ty payload"
    using stream_writer.send_async_total [OF assms(1,3,5,6), of w] assms(4) by auto
  have "\<exists>c'. read_frame rd c MAX_MESSAGE_SIZE = (Inr (ty, payload), c') \<and> pending c' = rest"
    if "pending c = frame_bytes ty payload @ rest" for c rest
    using stream_reader.read_frame_encoded [OF assms(2), of c payload ty rest MAX_MESSAGE_SIZE] that assms(5,6)
    by (simp add: frame_bytes_def MAX_MESSAGE_SIZE_def)
  note parse = this
  show ?thesis
  proof (intro exI conjI, rule r(1), rule r(2), rule r(3))
    show "\<forall>fd. fd \<notin> set (ft.used (ap_fds s)) \<longrightarrow> wire w' (int fd) = wire w (int fd)" using r(4) by simp
    show "\<forall>fd\<in>set (ft.used (ap_fds s)). int fd \<notin> set dead \<longrightarrow>
        (\<exists>frame. wire w' (int fd) = wire w (int fd) @ frame \<and>
          (\<forall>c rest. pending c = frame @ rest \<longrightarrow>
             (\<exists>c'. read_frame rd c MAX_MESSAGE_SIZE = (Inr (ty, payload), c') \<and> pending c' = rest)))"
      using r(5) parse by (intro ballI impI exI [of _ "frame_bytes ty payload"]) simp
  qed
qed

definition demo_api :: api_state where
  "demo_api = \<lparr>ap_fds = [54, -1, 55, -1], ap_active = 2, ap_started = True, ap_tx_buf = replicate TX_BUF_LEN 0, ap_bt = bt_initial\<rparr>"

lemma demo_api_inv: "api_inv demo_api"
  by (simp add: api_inv_def demo_api_def ft.used_def MAX_API_CLIENTS_def)

definition demo_net :: loop_net where
  "demo_net = \<lparr>ln_segs = (\<lambda>_. []), ln_dead = {55}, ln_chunk = 1\<rparr>"

theorem broadcast_delivers_witness:
  "\<exists>any dead s' w'. send_async loop_tx 93 [1, 2, 3] demo_api demo_net = Some (any, dead, s', w') \<and> api_inv s' \<and>
     (any \<longleftrightarrow> int 54 \<notin> set dead \<or> int 55 \<notin> set dead)"
proof -
  have "set (ft.used (ap_fds demo_api)) = {54, 55}" by (auto simp: demo_api_def ft.used_def)
  then show ?thesis
    using broadcast_delivers [OF ln.stream_writer_axioms seg.stream_reader_axioms demo_api_inv, of "[1, 2, 3]" 93 demo_net]
    by (fastforce simp: MAX_MESSAGE_SIZE_def)
qed




definition demo_hs :: hs_env where
  "demo_hs = \<lparr>he_hostname = ''nimble-proxy'', he_mac_sta = None, he_mac_bt = None, he_build_time = '''', he_ble = True\<rparr>"

lemma quiet_handles: "bt_handle quiet_env ty payload st subs \<noteq> None"
proof -
  have "handle_device_request quiet_env p t u = Some (t, u, [])" for p t u
    by (simp add: handle_device_request_def quiet_env_def null_codec_def)
  then show ?thesis by (simp add: bt_handle_def Let_def del: not_None_eq)
qed


end
