(* ===== verification/Ble_Backend.thy ===== *)
theory Ble_Backend
  imports Scanner Connection
begin

text \<open>
  Radio control, \<^verbatim>\<open>components/ble_backend/ble_backend.cpp\<close>: the gates on the device's own advertising, the
  advertising interval, the quiesce around a firmware update, full power-off, and the auto-off supervisor.
  \<open>bb_adv\<close> is the advertising singleton (\<open>None\<close> before NimBLE is initialised, else its \<open>isAdvertising()\<close>);
  whether a start of the radio succeeds is the argument \<open>ok\<close>. A supervisor tick takes what its hooks and
  NimBLE answer in that tick.
\<close>

section \<open>State\<close>

record ble_backend =
  bb_started :: bool
  bb_notify_rx_total :: u32
  bb_last_notify_handle :: u16
  bb_adv_interval_units :: u16
  bb_adv_enabled :: bool
  bb_adv_auto_suspend :: bool
  bb_powered_off :: bool
  bb_ota_quiesce :: bool
  bb_adv :: "bool option"
  bb_radio_interval :: u16           \<comment> \<open>what \<open>setMinInterval\<close> / \<open>setMaxInterval\<close> were last given\<close>
  bb_scanner :: scanner
  bb_pool :: conn_pool

definition adv_allowed :: "ble_backend \<Rightarrow> bool" where
  "adv_allowed b \<longleftrightarrow> bb_adv_enabled b \<and> \<not> bb_adv_auto_suspend b"

definition advertising_enabled :: "ble_backend \<Rightarrow> bool" where
  "advertising_enabled b = adv_allowed b"

definition apply_adv_state :: "bool \<Rightarrow> bool \<Rightarrow> bool \<Rightarrow> ble_backend \<Rightarrow> ble_backend" where
  "apply_adv_state ok now_allowed was_allowed b =
     (case bb_adv b of
        None \<Rightarrow> b
      | Some advertising \<Rightarrow>
          if \<not> now_allowed then (if advertising then b\<lparr>bb_adv := Some False\<rparr> else b)
          else if \<not> was_allowed then (if \<not> advertising then b\<lparr>bb_adv := Some ok\<rparr> else b)
          else b)"

definition notify_listener_cb :: "u16 option \<Rightarrow> ble_backend \<Rightarrow> ble_backend" where
  "notify_listener_cb notify_rx b =
     (case notify_rx of
        None \<Rightarrow> b
      | Some h \<Rightarrow> b\<lparr>bb_notify_rx_total := bb_notify_rx_total b + 1, bb_last_notify_handle := h\<rparr>)"

definition set_adv_interval_ms :: "bool \<Rightarrow> u16 \<Rightarrow> ble_backend \<Rightarrow> ble_backend" where
  "set_adv_interval_ms ok ms b =
     (let units = (if ms \<noteq> 0 then
                     let ms = (if ms < 20 then 20 else ms);
                         ms = (if ms > 10240 then 10240 else ms)
                     in ucast ((ucast ms :: u32) * 1000 div 625)
                   else 0);
          b = b\<lparr>bb_adv_interval_units := units\<rparr>
      in case bb_adv b of
           None \<Rightarrow> b
         | Some advertising \<Rightarrow>
             let b = (if units \<noteq> 0 then b\<lparr>bb_radio_interval := units\<rparr> else b) in
             if advertising then b\<lparr>bb_adv := Some (adv_allowed b \<and> ok)\<rparr> else b)"

definition set_advertising_enabled :: "bool \<Rightarrow> bool \<Rightarrow> ble_backend \<Rightarrow> ble_backend" where
  "set_advertising_enabled ok on b =
     (let was_allowed = adv_allowed b; b = b\<lparr>bb_adv_enabled := on\<rparr>
      in apply_adv_state ok (adv_allowed b) was_allowed b)"

definition set_advertising_auto_suspend :: "bool \<Rightarrow> bool \<Rightarrow> ble_backend \<Rightarrow> ble_backend" where
  "set_advertising_auto_suspend ok suspend b =
     (let was_allowed = adv_allowed b; b = b\<lparr>bb_adv_auto_suspend := suspend\<rparr>
      in apply_adv_state ok (adv_allowed b) was_allowed b)"

text \<open>\<open>start()\<close>: NimBLE comes up (not advertising yet) and the scan is started.\<close>

definition ble_start :: "bool \<Rightarrow> ble_backend \<Rightarrow> ble_backend" where
  "ble_start ok b =
     (if bb_started b then b
      else b\<lparr>bb_started := True, bb_adv := Some False, bb_scanner := scanner_start ok (scanner_init (bb_scanner b))\<rparr>)"

definition on_api_client_disconnect :: "ble_backend \<Rightarrow> ble_backend \<times> conn_event list" where
  "on_api_client_disconnect b =
     (let b = b\<lparr>bb_scanner := stop_forwarding (bb_scanner b)\<rparr>; (p, ev) = disconnect_all (bb_pool b)
      in (b\<lparr>bb_pool := p\<rparr>, ev))"

text \<open>\<open>deinit(true)\<close> stops the scan and the advertising and deletes the objects.\<close>

definition power_off :: "ble_backend \<Rightarrow> ble_backend" where
  "power_off b =
     (if bb_powered_off b then b
      else let b = b\<lparr>bb_powered_off := True, bb_scanner := stop_forwarding (bb_scanner b)\<rparr>
           in b\<lparr>bb_adv := None, bb_scanner := (bb_scanner b)\<lparr>sc_scanning := False\<rparr>\<rparr>)"

definition quiesce_for_ota :: "bool \<Rightarrow> ble_backend \<Rightarrow> ble_backend" where
  "quiesce_for_ota ok b =
     (let b = b\<lparr>bb_ota_quiesce := True\<rparr>; b = b\<lparr>bb_scanner := scanner_pause (bb_scanner b)\<rparr>
      in set_advertising_auto_suspend ok True b)"

definition resume_after_ota :: "bool \<Rightarrow> ble_backend \<Rightarrow> ble_backend" where
  "resume_after_ota ok b =
     (let b = b\<lparr>bb_ota_quiesce := False\<rparr>; b = b\<lparr>bb_scanner := scanner_resume ok (bb_scanner b)\<rparr>
      in set_advertising_auto_suspend ok False b)"

section \<open>The power supervisor\<close>

definition idle_ticks :: "nat \<Rightarrow> nat" where
  "idle_ticks idle_secs = (if idle_secs * 1000 div 2000 > 0 then idle_secs * 1000 div 2000 else 1)"

record supervisor =
  sv_central_idle :: nat
  sv_periph_idle :: nat
  sv_scan_quiesced :: bool
  sv_adv_suspended :: bool

definition supervisor_initial :: supervisor where
  "supervisor_initial = \<lparr>sv_central_idle = 0, sv_periph_idle = 0, sv_scan_quiesced = False, sv_adv_suspended = False\<rparr>"

text \<open>The answers of one tick; a hook that is not installed is \<open>None\<close>.\<close>

record sv_inputs =
  si_clone :: "bool option"
  si_api :: "bool option"
  si_wifi :: "bool option"
  si_peripheral_central :: bool     \<comment> \<open>a central is connected to our server\<close>
  si_ok :: bool

definition call_or :: "bool option \<Rightarrow> bool \<Rightarrow> bool" where
  "call_or fn dflt = (case fn of Some v \<Rightarrow> v | None \<Rightarrow> dflt)"

definition central_needed :: "sv_inputs \<Rightarrow> ble_backend \<Rightarrow> bool" where
  "central_needed i b \<longleftrightarrow>
     call_or (si_api i) True \<or> free_slots (bb_pool b) < MAX_CONNECTIONS \<or> call_or (si_clone i) False"

definition peripheral_needed :: "sv_inputs \<Rightarrow> bool" where
  "peripheral_needed i \<longleftrightarrow> \<not> call_or (si_wifi i) False \<or> si_peripheral_central i \<or> call_or (si_clone i) False"

definition central_tick :: "nat \<Rightarrow> sv_inputs \<Rightarrow> ble_backend \<times> supervisor \<Rightarrow> ble_backend \<times> supervisor" where
  "central_tick secs i s =
     (let (b, v) = s in
      if central_needed i b then
        let v = v\<lparr>sv_central_idle := 0\<rparr> in
        if sv_scan_quiesced v
        then (b\<lparr>bb_scanner := scanner_resume (si_ok i) (bb_scanner b)\<rparr>, v\<lparr>sv_scan_quiesced := False\<rparr>)
        else (b, v)
      else if \<not> sv_scan_quiesced v then
        let v = v\<lparr>sv_central_idle := sv_central_idle v + 1\<rparr> in
        if sv_central_idle v \<ge> idle_ticks secs
        then (b\<lparr>bb_scanner := scanner_pause (bb_scanner b)\<rparr>, v\<lparr>sv_scan_quiesced := True\<rparr>)
        else (b, v)
      else (b, v))"

definition periph_tick :: "nat \<Rightarrow> sv_inputs \<Rightarrow> ble_backend \<times> supervisor \<Rightarrow> ble_backend \<times> supervisor" where
  "periph_tick secs i s =
     (let (b, v) = s in
      if peripheral_needed i then
        let v = v\<lparr>sv_periph_idle := 0\<rparr> in
        if sv_adv_suspended v
        then (set_advertising_auto_suspend (si_ok i) False b, v\<lparr>sv_adv_suspended := False\<rparr>)
        else (b, v)
      else if \<not> sv_adv_suspended v then
        let v = v\<lparr>sv_periph_idle := sv_periph_idle v + 1\<rparr> in
        if sv_periph_idle v \<ge> idle_ticks secs
        then (set_advertising_auto_suspend (si_ok i) True b, v\<lparr>sv_adv_suspended := True\<rparr>)
        else (b, v)
      else (b, v))"

definition supervisor_tick :: "nat \<Rightarrow> sv_inputs \<Rightarrow> ble_backend \<times> supervisor \<Rightarrow> ble_backend \<times> supervisor" where
  "supervisor_tick secs i s =
     (if bb_powered_off (fst s) \<or> bb_ota_quiesce (fst s) then s else periph_tick secs i (central_tick secs i s))"

fun supervisor_ticks :: "nat \<Rightarrow> sv_inputs list \<Rightarrow> ble_backend \<times> supervisor \<Rightarrow> ble_backend \<times> supervisor" where
  "supervisor_ticks secs [] s = s"
| "supervisor_ticks secs (i # is) s = supervisor_ticks secs is (supervisor_tick secs i s)"

section \<open>Behaviour\<close>

lemmas bb_ops = apply_adv_state_def set_advertising_enabled_def set_advertising_auto_suspend_def
  quiesce_for_ota_def resume_after_ota_def adv_allowed_def

text \<open>
  The radio backend as a transition system: its own operations, the supervisor, and the advertising start of the
  two GATT servers, which both ask \<open>advertising_enabled()\<close> first (\<^verbatim>\<open>ble_httpd.cpp\<close>, \<^verbatim>\<open>clone_mirror.cpp\<close>).
\<close>

inductive bb_step :: "nat \<Rightarrow> ble_backend \<times> supervisor \<Rightarrow> ble_backend \<times> supervisor \<Rightarrow> bool" for secs where
  bb_start: "bb_step secs (b, v) (ble_start ok b, v)"
| bb_interval: "bb_step secs (b, v) (set_adv_interval_ms ok ms b, v)"
| bb_enable: "bb_step secs (b, v) (set_advertising_enabled ok on b, v)"
| bb_quiesce: "bb_step secs (b, v) (quiesce_for_ota ok b, v)"
| bb_resume: "bb_step secs (b, v) (resume_after_ota ok b, v)"
| bb_off: "bb_step secs (b, v) (power_off b, v)"
| bb_gatt_start: "advertising_enabled b \<Longrightarrow> bb_adv b = Some a \<Longrightarrow> bb_step secs (b, v) (b\<lparr>bb_adv := Some ok\<rparr>, v)"
| bb_adv_ends: "bb_adv b = Some a \<Longrightarrow> bb_step secs (b, v) (b\<lparr>bb_adv := Some False\<rparr>, v)"
| bb_tick: "bb_step secs s (supervisor_tick secs i s)"

inductive_cases bb_stepE [elim]: "bb_step secs s t"

inductive bb_reachable :: "nat \<Rightarrow> ble_backend \<times> supervisor \<Rightarrow> bool" for secs where
  bb_init: "\<not> bb_started b \<Longrightarrow> bb_adv b = None \<Longrightarrow> bb_adv_interval_units b = 0 \<Longrightarrow>
            bb_reachable secs (b, supervisor_initial)"
| bb_next: "bb_reachable secs s \<Longrightarrow> bb_step secs s t \<Longrightarrow> bb_reachable secs t"

definition bb_inv :: "ble_backend \<Rightarrow> bool" where
  "bb_inv b \<longleftrightarrow> (bb_adv b = Some True \<longrightarrow> adv_allowed b) \<and>
     (bb_adv_interval_units b = 0 \<or> 32 \<le> bb_adv_interval_units b \<and> bb_adv_interval_units b \<le> 16384)"

lemma adv_units_range:
  fixes ms :: u16
  assumes "20 \<le> ms" "ms \<le> 10240"
  shows "(32 :: u16) \<le> ucast ((ucast ms :: u32) * 1000 div 625) \<and> ucast ((ucast ms :: u32) * 1000 div 625) \<le> (16384 :: u16)"
proof -
  have lo: "20 \<le> unat ms" and hi: "unat ms \<le> 10240"
    using assms [unfolded word_le_nat_alt] by simp_all
  have a: "unat ((ucast ms :: u32) * 1000) = unat ms * 1000"
    using hi by (simp add: unat_word_ariths unat_ucast_u16_u32)
  have b: "unat ((ucast ms :: u32) * 1000 div 625) = unat ms * 1000 div 625"
    by (simp add: unat_div a)
  have c: "unat ms * 1000 div 625 \<le> 16384" "32 \<le> unat ms * 1000 div 625"
    using lo hi div_le_mono [of "unat ms * 1000" 10240000 625] div_le_mono [of 20000 "unat ms * 1000" 625] by simp_all
  have "unat (ucast ((ucast ms :: u32) * 1000 div 625) :: u16) = unat ms * 1000 div 625"
    using c b by (simp add: unsigned_ucast_eq take_bit_nat_eq_self)
  then show ?thesis using c by (simp add: word_le_nat_alt)
qed

lemma bb_inv_auto_suspend [simp]: "bb_inv b \<Longrightarrow> bb_inv (set_advertising_auto_suspend ok s b)"
  by (auto simp: bb_inv_def bb_ops Let_def split: option.splits)

lemma bb_inv_scanner [simp]: "bb_inv (b\<lparr>bb_scanner := sc\<rparr>) \<longleftrightarrow> bb_inv b" "bb_inv (b\<lparr>bb_ota_quiesce := q\<rparr>) \<longleftrightarrow> bb_inv b"
  by (simp_all add: bb_inv_def adv_allowed_def)

lemma bb_inv_interval: "bb_inv b \<Longrightarrow> bb_inv (set_adv_interval_ms ok ms b)"
proof -
  assume inv: "bb_inv b"
  let ?ms = "if (if ms < 20 then 20 else ms) > 10240 then 10240 else (if ms < 20 then 20 else ms)"
  have "(20 :: u16) \<le> ?ms" "?ms \<le> 10240" by (auto simp: not_less)
  from adv_units_range [OF this]
  show ?thesis using inv by (auto simp: bb_inv_def set_adv_interval_ms_def Let_def adv_allowed_def split: option.splits)
qed

lemma bb_inv_tick: "bb_inv (fst s) \<Longrightarrow> bb_inv (fst (supervisor_tick secs i s))"
  by (cases s) (auto simp: supervisor_tick_def central_tick_def periph_tick_def Let_def)

lemma bb_inv_step: "bb_step secs s t \<Longrightarrow> bb_inv (fst s) \<Longrightarrow> bb_inv (fst t)"
proof (induction rule: bb_step.induct)
  case (bb_enable b v ok on)
  then show ?case by (auto simp: bb_inv_def bb_ops Let_def split: option.splits)
qed (auto simp: bb_inv_interval bb_inv_tick ble_start_def power_off_def quiesce_for_ota_def resume_after_ota_def Let_def
    advertising_enabled_def, auto simp: bb_inv_def adv_allowed_def)

text \<open>C13: The device advertises only while the user switch is on and nothing suspends it, whatever the order of
  start, interval change, switch, firmware-update quiesce, power-off, supervisor ticks and GATT-server starts; and
  the configured advertising interval is always 0 (the host's default) or inside the range the controller
  accepts, 32 to 16384 units of 0.625 ms.
\<close>

theorem advertising_gated:
  assumes "bb_reachable secs (b, v)"
  shows "(bb_adv b = Some True \<longrightarrow> bb_adv_enabled b \<and> \<not> bb_adv_auto_suspend b) \<and>
         (bb_adv_interval_units b = 0 \<or> 32 \<le> bb_adv_interval_units b \<and> bb_adv_interval_units b \<le> 16384)"
proof -
  have "bb_inv (fst s)" if "bb_reachable secs s" for s
    using that
  proof induction
    case (bb_init b)
    then show ?case by (simp add: bb_inv_def)
  next
    case (bb_next s t)
    then show ?case by (blast intro: bb_inv_step)
  qed
  from this [OF assms] show ?thesis by (simp add: bb_inv_def adv_allowed_def)
qed

definition ble_initial :: ble_backend where
  "ble_initial = \<lparr>bb_started = False, bb_notify_rx_total = 0, bb_last_notify_handle = 0, bb_adv_interval_units = 0,
     bb_adv_enabled = True, bb_adv_auto_suspend = False, bb_powered_off = False, bb_ota_quiesce = False,
     bb_adv = None, bb_radio_interval = 0, bb_scanner = scanner_initial, bb_pool = initial_pool\<rparr>"

theorem advertising_gated_witness:
  "let b = set_adv_interval_ms True 5 (ble_initial\<lparr>bb_started := True, bb_adv := Some True\<rparr>) in
   (bb_adv b = Some True \<longrightarrow> bb_adv_enabled b \<and> \<not> bb_adv_auto_suspend b) \<and> bb_adv_interval_units b = 32"
proof -
  have "bb_reachable 30 (ble_initial, supervisor_initial)" by (rule bb_init) (simp_all add: ble_initial_def)
  then have "bb_reachable 30 (ble_start True ble_initial, supervisor_initial)" by (rule bb_next) (rule bb_start)
  then have "bb_reachable 30 ((ble_start True ble_initial)\<lparr>bb_adv := Some True\<rparr>, supervisor_initial)"
    by (rule bb_next) (rule bb_gatt_start [where a = False], simp_all add: ble_start_def advertising_enabled_def adv_allowed_def ble_initial_def)
  then have "bb_reachable 30 (set_adv_interval_ms True 5 ((ble_start True ble_initial)\<lparr>bb_adv := Some True\<rparr>), supervisor_initial)"
    by (rule bb_next) (rule bb_interval)
  from advertising_gated [OF this] show ?thesis
    by (simp add: set_adv_interval_ms_def ble_start_def ble_initial_def adv_allowed_def)
qed

section \<open>The idle periods of the supervisor\<close>

lemma supervisor_ticks_append: "supervisor_ticks secs (xs @ ys) s = supervisor_ticks secs ys (supervisor_ticks secs xs s)"
  by (induction xs arbitrary: s) simp_all

lemma auto_suspend_fields [simp]:
  "bb_pool (set_advertising_auto_suspend ok s b) = bb_pool b"
  "bb_scanner (set_advertising_auto_suspend ok s b) = bb_scanner b"
  "bb_powered_off (set_advertising_auto_suspend ok s b) = bb_powered_off b"
  "bb_ota_quiesce (set_advertising_auto_suspend ok s b) = bb_ota_quiesce b"
  "bb_adv_auto_suspend (set_advertising_auto_suspend ok s b) = s"
  by (auto simp: bb_ops Let_def split: option.splits)

lemma auto_suspend_stops [simp]: "bb_adv (set_advertising_auto_suspend ok True b) \<noteq> Some True"
  by (auto simp: bb_ops Let_def split: option.splits)

lemma auto_suspend_on: "set_advertising_auto_suspend ok True b = set_advertising_auto_suspend False True b"
  by (auto simp: bb_ops Let_def split: option.splits)

lemma idle_ticks_pos [simp]: "0 < idle_ticks secs" "idle_ticks secs \<noteq> 0" "\<not> idle_ticks secs \<le> 0"
  by (simp_all add: idle_ticks_def)

definition both_idle :: "sv_inputs \<Rightarrow> ble_backend \<Rightarrow> bool" where
  "both_idle i b \<longleftrightarrow> \<not> central_needed i b \<and> \<not> peripheral_needed i"

definition quieted :: "ble_backend \<Rightarrow> ble_backend" where
  "quieted b = set_advertising_auto_suspend False True (b\<lparr>bb_scanner := scanner_pause (bb_scanner b)\<rparr>)"

lemma quieted_fields [simp]:
  "bb_pool (quieted b) = bb_pool b" "bb_powered_off (quieted b) = bb_powered_off b"
  "bb_ota_quiesce (quieted b) = bb_ota_quiesce b" "bb_scanner (quieted b) = scanner_pause (bb_scanner b)"
  "bb_adv_auto_suspend (quieted b)"
  by (simp_all add: quieted_def)

lemma tick_rest:
  assumes "both_idle i b" "\<not> bb_powered_off b" "\<not> bb_ota_quiesce b" "sv_scan_quiesced v" "sv_adv_suspended v"
  shows "supervisor_tick secs i (b, v) = (b, v)"
  using assms by (simp add: supervisor_tick_def central_tick_def periph_tick_def both_idle_def)

lemma tick_count:
  assumes "both_idle i b" "\<not> bb_powered_off b" "\<not> bb_ota_quiesce b"
  shows "supervisor_tick secs i (b, \<lparr>sv_central_idle = k, sv_periph_idle = k, sv_scan_quiesced = False, sv_adv_suspended = False\<rparr>) =
    (if idle_ticks secs \<le> Suc k
     then (quieted b, \<lparr>sv_central_idle = Suc k, sv_periph_idle = Suc k, sv_scan_quiesced = True, sv_adv_suspended = True\<rparr>)
     else (b, \<lparr>sv_central_idle = Suc k, sv_periph_idle = Suc k, sv_scan_quiesced = False, sv_adv_suspended = False\<rparr>))"
  using assms auto_suspend_on [of "si_ok i"]
  by (simp add: supervisor_tick_def central_tick_def periph_tick_def both_idle_def quieted_def)

lemma idle_run:
  assumes "list_all (\<lambda>i. both_idle i b) is" "\<not> bb_powered_off b" "\<not> bb_ota_quiesce b"
  shows "supervisor_ticks secs is (b, supervisor_initial) =
    (let k = length is; t = idle_ticks secs in
     if k < t then (b, \<lparr>sv_central_idle = k, sv_periph_idle = k, sv_scan_quiesced = False, sv_adv_suspended = False\<rparr>)
     else (quieted b, \<lparr>sv_central_idle = t, sv_periph_idle = t, sv_scan_quiesced = True, sv_adv_suspended = True\<rparr>))"
  using assms
proof (induction "is" rule: rev_induct)
  case Nil
  then show ?case by (simp add: supervisor_initial_def)
next
  case (snoc i xs)
  have i: "both_idle i b" "both_idle i (quieted b)"
    using snoc.prems by (simp_all add: both_idle_def central_needed_def)
  show ?case
  proof (cases "length xs < idle_ticks secs")
    case True
    then have t: "idle_ticks secs \<le> Suc (length xs) \<longleftrightarrow> idle_ticks secs = Suc (length xs)" by auto
    show ?thesis using snoc True i by (auto simp: supervisor_ticks_append tick_count Let_def t)
  next
    case False
    then show ?thesis using snoc i by (simp add: supervisor_ticks_append tick_rest Let_def)
  qed
qed


definition idle_inputs :: sv_inputs where
  "idle_inputs = \<lparr>si_clone = Some False, si_api = Some False, si_wifi = Some True, si_peripheral_central = False, si_ok = True\<rparr>"

lemma idle_inputs_idle: "free_slots (bb_pool b) = MAX_CONNECTIONS \<Longrightarrow> both_idle idle_inputs b"
  by (simp add: both_idle_def central_needed_def peripheral_needed_def idle_inputs_def call_or_def)

definition running_bb :: ble_backend where
  "running_bb = ble_initial\<lparr>bb_started := True, bb_adv := Some True,
     bb_scanner := scanner_initial\<lparr>sc_present := True, sc_scanning := True\<rparr>\<rparr>"

lemma free_slots_initial: "free_slots initial_pool = MAX_CONNECTIONS"
  by code_simp

lemma running_bb_facts: "free_slots (bb_pool running_bb) = MAX_CONNECTIONS" "\<not> bb_powered_off running_bb"
  "\<not> bb_ota_quiesce running_bb" "sc_present (bb_scanner running_bb)"
  by (simp_all add: running_bb_def ble_initial_def free_slots_initial scanner_initial_def)


text \<open>A firmware update that fails while the radio is quieted defeats the auto-off supervisor. \<open>resume_after_ota()\<close>
  restarts the scan and lifts the suspension without telling the supervisor, which still takes both for quieted: no
  number of further idle ticks stops the scan or suspends the advertising again.
\<close>

theorem failed_update_defeats_auto_off:
  assumes "sv_scan_quiesced v" "sv_adv_suspended v" "\<not> bb_powered_off b" "sc_present (bb_scanner b)"
    and "list_all (\<lambda>i. both_idle i b) is"
  shows "let b' = fst (supervisor_ticks secs is (resume_after_ota True (quiesce_for_ota True b), v))
         in sc_scanning (bb_scanner b') \<and> \<not> bb_adv_auto_suspend b'"
proof -
  let ?b = "resume_after_ota True (quiesce_for_ota True b)"
  have f: "bb_pool ?b = bb_pool b" "\<not> bb_powered_off ?b" "\<not> bb_ota_quiesce ?b" "sc_scanning (bb_scanner ?b)"
    "\<not> bb_adv_auto_suspend ?b"
    using assms(3,4) by (simp_all add: resume_after_ota_def quiesce_for_ota_def scanner_resume_def scanner_pause_def Let_def)
  have "both_idle i ?b = both_idle i b" for i by (simp add: both_idle_def central_needed_def f(1))
  then have "supervisor_ticks secs is (?b, v) = (?b, v)" using assms(5)
    by (induction "is") (simp_all add: tick_rest f assms(1,2))
  then show ?thesis using f by simp
qed

theorem failed_update_defeats_auto_off_witness:
  "sc_scanning (bb_scanner (fst (supervisor_ticks 30 (replicate 1000 idle_inputs)
     (resume_after_ota True (quiesce_for_ota True running_bb), 
      \<lparr>sv_central_idle = 15, sv_periph_idle = 15, sv_scan_quiesced = True, sv_adv_suspended = True\<rparr>))))"
  using failed_update_defeats_auto_off [of "\<lparr>sv_central_idle = 15, sv_periph_idle = 15, sv_scan_quiesced = True, sv_adv_suspended = True\<rparr>"
      running_bb "replicate 1000 idle_inputs" 30]
  by (simp add: running_bb_facts Let_def list_all_iff idle_inputs_idle)

end
