(* ===== verification/Httpd.thy ===== *)
theory Httpd
  imports Nbp_Prelude
begin

text \<open>
  What the HTTP handlers share: the C library's number parsing and printing (\<open>atoi\<close>, \<open>strtol\<close>, \<open>strtoul\<close>,
  \<open>snprintf("%d")\<close>), a bounded text buffer written by \<open>snprintf\<close>, and the response of a handler. The query
  parser \<open>httpd_query_key_value\<close> is third-party code: handlers take it as \<open>kv key size\<close>, the value of the key
  in this request's query when there is one that fits a buffer of \<open>size\<close> characters.
\<close>

section \<open>Numbers as text\<close>

definition digit_char :: "nat \<Rightarrow> char" where
  "digit_char d = char_of (48 + d)"

definition is_digit :: "char \<Rightarrow> bool" where
  "is_digit c \<longleftrightarrow> 48 \<le> (of_char c :: nat) \<and> (of_char c :: nat) \<le> 57"

definition digit_value :: "char \<Rightarrow> nat" where
  "digit_value c = of_char c - 48"

definition is_space :: "char \<Rightarrow> bool" where
  "is_space c \<longleftrightarrow> (of_char c :: nat) = 32 \<or> 9 \<le> (of_char c :: nat) \<and> (of_char c :: nat) \<le> 13"

definition is_xdigit :: "char \<Rightarrow> bool" where
  "is_xdigit c \<longleftrightarrow>
     (let n = (of_char c :: nat) in (48 \<le> n \<and> n \<le> 57) \<or> (65 \<le> n \<and> n \<le> 70) \<or> (97 \<le> n \<and> n \<le> 102))"

definition hex_lower :: "nat \<Rightarrow> char" where
  "hex_lower d = (''0123456789abcdef'' ! d)"

definition hex_byte_lower :: "u8 \<Rightarrow> string" where
  "hex_byte_lower b = [hex_lower (unat b div 16), hex_lower (unat b mod 16)]"

fun show_nat :: "nat \<Rightarrow> string" where
  "show_nat n = (if n < 10 then [digit_char n] else show_nat (n div 10) @ [digit_char (n mod 10)])"

declare show_nat.simps [simp del]

definition show_int :: "int \<Rightarrow> string" where
  "show_int i = (if i < 0 then CHR ''-'' # show_nat (nat (- i)) else show_nat (nat i))"

fun digits_value :: "nat \<Rightarrow> string \<Rightarrow> nat" where
  "digits_value acc [] = acc"
| "digits_value acc (c # cs) = (if is_digit c then digits_value (acc * 10 + digit_value c) cs else acc)"

text \<open>White space, an optional sign, digits; what follows the digits is ignored, no digits are 0. The values the
  handlers give to \<open>atoi\<close> and \<open>strtol\<close> are a few characters long, so no overflow can occur there.\<close>

definition c_atoi :: "string \<Rightarrow> int" where
  "c_atoi s = (case dropWhile is_space s of
                 [] \<Rightarrow> 0
               | c # cs \<Rightarrow> if c = CHR ''-'' then - int (digits_value 0 cs)
                           else if c = CHR ''+'' then int (digits_value 0 cs)
                           else int (digits_value 0 (c # cs)))"

text \<open>\<open>strtoul\<close> saturates and negates modulo the word.\<close>

definition c_strtoul :: "string \<Rightarrow> u32" where
  "c_strtoul s = (let v = c_atoi s in
     if \<bar>v\<bar> > 0xFFFFFFFF then 0xFFFFFFFF else word_of_int v)"

lemma is_digit_char [simp]: "d < 10 \<Longrightarrow> is_digit (digit_char d)"
  by (simp add: is_digit_def digit_char_def)

lemma digit_value_char [simp]: "d < 10 \<Longrightarrow> digit_value (digit_char d) = d"
  by (simp add: digit_value_def digit_char_def)

lemma not_space_digit [simp]: "is_digit c \<Longrightarrow> \<not> is_space c"
  by (auto simp: is_digit_def is_space_def)

lemma not_sign_digit: "is_digit c \<Longrightarrow> c \<noteq> CHR ''-''" "is_digit c \<Longrightarrow> c \<noteq> CHR ''+''"
  by (auto simp: is_digit_def)

lemma show_nat_digits: "list_all is_digit (show_nat n)"
  by (induction n rule: show_nat.induct) (subst show_nat.simps, simp)

lemma show_nat_nonempty [simp]: "show_nat n \<noteq> []"
  by (subst show_nat.simps) simp

lemma digits_value_append:
  "list_all is_digit xs \<Longrightarrow> digits_value a (xs @ ys) = digits_value (digits_value a xs) ys"
  by (induction xs arbitrary: a) simp_all

lemma digits_value_stop: "cs \<noteq> [] \<Longrightarrow> \<not> is_digit (hd cs) \<Longrightarrow> digits_value a cs = a"
  by (cases cs) simp_all

lemma digits_value_show: "digits_value 0 (show_nat n) = n"
proof (induction n rule: show_nat.induct)
  case (1 n)
  then show ?case by (subst show_nat.simps) (simp add: digits_value_append show_nat_digits)
qed

lemma digits_value_show_append: "ys = [] \<or> \<not> is_digit (hd ys) \<Longrightarrow> digits_value 0 (show_nat n @ ys) = n"
  by (cases ys) (simp_all add: digits_value_append show_nat_digits digits_value_show)

text \<open>Reading back a printed number, whatever text follows it.\<close>

lemma atoi_show_append: "ys = [] \<or> \<not> is_digit (hd ys) \<Longrightarrow> c_atoi (show_int i @ ys) = i"
proof -
  assume ys: "ys = [] \<or> \<not> is_digit (hd ys)"
  obtain c cs where s: "show_nat (nat i) = c # cs" by (cases "show_nat (nat i)") simp_all
  have c: "is_digit c" using show_nat_digits [of "nat i"] s by simp
  have "digits_value 0 (c # cs @ ys) = nat i" using digits_value_show_append [OF ys, of "nat i"] s by simp
  moreover have "\<not> is_space (CHR ''-'')" by (simp add: is_space_def)
  ultimately show ?thesis
    using s c not_sign_digit [OF c] digits_value_show_append [OF ys, of "nat (- i)"]
    by (auto simp: c_atoi_def show_int_def simp del: digits_value.simps)
qed

lemma atoi_show: "c_atoi (show_int i) = i"
  using atoi_show_append [of "[]" i] by simp

lemma length_show_nat: "n < 10 ^ k \<Longrightarrow> 0 < k \<Longrightarrow> length (show_nat n) \<le> k"
proof (induction n arbitrary: k rule: show_nat.induct)
  case (1 n)
  show ?case
  proof (cases "n < 10")
    case True
    then show ?thesis using 1(3) by (subst show_nat.simps) simp
  next
    case False
    then obtain j where k: "k = Suc j" "0 < j" using 1(2,3) by (cases k; cases "k - 1") auto
    have "n div 10 < 10 ^ j" using 1(2) k by (simp add: less_mult_imp_div_less mult.commute)
    then have "length (show_nat (n div 10)) \<le> j" using 1(1) False k by simp
    then show ?thesis using False k by (subst show_nat.simps) simp
  qed
qed

section \<open>A bounded text buffer\<close>

text \<open>\<open>snprintf(buf, cap, ...)\<close> followed by the usual length clamp: the text that fits before the terminator.\<close>

definition snprintf_text :: "nat \<Rightarrow> string \<Rightarrow> string" where
  "snprintf_text cap s = (if length s < cap then s else take (cap - 1) s)"

lemma snprintf_text_length: "0 < cap \<Longrightarrow> length (snprintf_text cap s) < cap"
  by (auto simp: snprintf_text_def)

lemma snprintf_text_fits [simp]: "length s < cap \<Longrightarrow> snprintf_text cap s = s"
  by (simp add: snprintf_text_def)

section \<open>Responses\<close>

datatype http_resp =
    Http_ok string string              \<comment> \<open>content type and body\<close>
  | Http_error nat string              \<comment> \<open>status and message\<close>
  | Http_chunked string "(string \<times> string) list" "string list"

definition json_ok :: http_resp where
  "json_ok = Http_ok ''application/json'' ''{\"ok\":true}''"

text \<open>The shape of every POST handler: no query and a refused value are both answered by 400.\<close>

definition post_reply :: "string option \<Rightarrow> http_resp" where
  "post_reply err = (case err of None \<Rightarrow> json_ok | Some e \<Rightarrow> Http_error 400 e)"

lemma post_reply_ok [simp]: "post_reply e = json_ok \<longleftrightarrow> e = None"
  by (cases e) (simp_all add: post_reply_def json_ok_def)

end
