(* ===== verification/Stats_Log.thy ===== *)
theory Stats_Log
  imports Httpd Interfaces
begin

text \<open>
  The log ring of \<^verbatim>\<open>components/api_server/stats.cpp\<close>: the tee of the log output into a ring of
  \<open>LOG_RING_SIZE\<close> characters addressed by a running sequence number, the slice a poll reads, and the
  \<^verbatim>\<open>/log\<close> handler that drains the ring chunk by chunk while other tasks may go on logging.
\<close>

section \<open>The ring\<close>

text \<open>\<open>memcpy(buf + pos, s, length s)\<close>.\<close>

definition copy_at :: "nat \<Rightarrow> 'a list \<Rightarrow> 'a list \<Rightarrow> 'a list" where
  "copy_at pos s buf = take pos buf @ s @ drop (pos + length s) buf"

definition LOG_RING_SIZE :: nat where "LOG_RING_SIZE = 8192"

record log_state =
  lg_ring :: string
  lg_seq :: u32
  lg_installed :: bool           \<comment> \<open>\<open>g_log_mutex\<close> is not null\<close>

definition log_initial :: log_state where
  "log_initial = \<lparr>lg_ring = replicate LOG_RING_SIZE (CHR 0x00), lg_seq = 0, lg_installed = False\<rparr>"

definition log_ring_append :: "string \<Rightarrow> log_state \<Rightarrow> log_state" where
  "log_ring_append s g =
     (if length s = 0 \<or> \<not> lg_installed g then g
      else let s = (if length s > LOG_RING_SIZE then drop (length s - LOG_RING_SIZE) s else s);
               pos = unat (lg_seq g) mod LOG_RING_SIZE;
               first = min (length s) (LOG_RING_SIZE - pos);
               ring = copy_at pos (take first s) (lg_ring g);
               ring = (if length s > first then copy_at 0 (drop first s) ring else ring)
           in g\<lparr>lg_ring := ring, lg_seq := lg_seq g + of_nat (length s)\<rparr>)"

text \<open>The hook: the formatted line, cut to the 255 characters of the scratch buffer.\<close>

definition log_vprintf :: "string \<Rightarrow> log_state \<Rightarrow> log_state" where
  "log_vprintf line g = (if length line > 0 then log_ring_append (take 255 line) g else g)"

definition log_ring_reset :: "log_state \<Rightarrow> log_state" where
  "log_ring_reset g = (if lg_installed g then g\<lparr>lg_seq := 0\<rparr> else g)"

definition install_log_hook :: "log_state \<Rightarrow> log_state" where
  "install_log_hook g = g\<lparr>lg_installed := True\<rparr>"

text \<open>A slice: the adjusted \<open>since\<close>, the characters copied out, and the sequence number reported.\<close>

definition build_log_slice :: "u32 \<Rightarrow> nat \<Rightarrow> log_state \<Rightarrow> u32 \<times> string \<times> u32" where
  "build_log_slice since cap g =
     (if \<not> lg_installed g then (since, [], 0)
      else let seq = lg_seq g;
               since = (if since > seq then seq
                        else if unat (seq - since) > LOG_RING_SIZE then seq - of_nat LOG_RING_SIZE
                        else since);
               backlog = unat (seq - since)
           in if backlog = 0 \<or> cap = 0 then (since, [], seq)
              else let start = unat since mod LOG_RING_SIZE;
                       contig = min backlog (LOG_RING_SIZE - start);
                       n = min contig cap
                   in (since, take n (drop start (lg_ring g)), seq))"

text \<open>
  \<^verbatim>\<open>/log\<close>: the first slice fixes the sequence number the client is told; further slices are sent until it is
  reached, a slice is empty, or the connection fails. \<open>gs k\<close> is the ring as the k-th slice finds it (other tasks
  log, or reset the ring, in between) and \<open>ok k\<close> whether the k-th chunk could be sent.
\<close>

definition CHUNK :: nat where "CHUNK = 1024"

text \<open>Where a slice starts, in the number of characters ever logged.\<close>

definition slice_start :: "nat \<Rightarrow> nat \<Rightarrow> nat" where
  "slice_start since q = (if q < since then q else max since (q - LOG_RING_SIZE))"

lemma build_log_slice_nat:
  assumes "lg_installed g"
  shows "build_log_slice since cap g =
    (let q = unat (lg_seq g); p = slice_start (unat since) q;
         n = min (min (q - p) (LOG_RING_SIZE - p mod LOG_RING_SIZE)) cap
     in (of_nat p, take n (drop (p mod LOG_RING_SIZE) (lg_ring g)), lg_seq g))"
proof -
  let ?q = "lg_seq g"
  have a: "since \<le> ?q \<Longrightarrow> unat (?q - since) = unat ?q - unat since" by (rule unat_sub)
  have b: "8192 < unat ?q \<Longrightarrow> unat (?q - 8192) = unat ?q - 8192"
    by (subst unat_sub) (simp_all add: word_le_nat_alt)
  have c: "8192 < unat ?q \<Longrightarrow> unat (?q - (?q - 8192)) = 8192" by simp
  consider "since > ?q" | "since \<le> ?q" "LOG_RING_SIZE < unat ?q - unat since" | "since \<le> ?q" "unat ?q - unat since \<le> LOG_RING_SIZE"
    by (meson linorder_not_le)
  then show ?thesis
  proof cases
    case 1
    then show ?thesis using assms by (simp add: build_log_slice_def slice_start_def word_less_nat_alt Let_def)
  next
    case 2
    then have lt: "8192 < unat ?q" and mx: "max (unat since) (unat ?q - LOG_RING_SIZE) = unat ?q - 8192"
      and ns: "\<not> unat ?q < unat since"
      by (simp_all add: LOG_RING_SIZE_def word_le_nat_alt)
    have e: "of_nat (unat ?q - 8192) = ?q - 8192" using lt by (simp add: of_nat_diff)
    have k: "\<not> ?q < since" "LOG_RING_SIZE < unat (?q - since)" using 2 a by (simp_all add: not_less)
    have "unat ?q - (unat ?q - 8192) = 8192" using lt by simp
    then show ?thesis unfolding build_log_slice_def slice_start_def mx Let_def
      using k ns assms b [OF lt] e by (simp add: LOG_RING_SIZE_def)
  next
    case 3
    then have mx: "max (unat since) (unat ?q - LOG_RING_SIZE) = unat since" and ns: "\<not> unat ?q < unat since"
      by (auto simp: word_le_nat_alt)
    have k: "\<not> ?q < since" "\<not> LOG_RING_SIZE < unat (?q - since)" using 3 a by (simp_all add: not_less)
    show ?thesis unfolding build_log_slice_def slice_start_def mx Let_def
      using k ns assms a [OF 3(1)] by simp
  qed
qed

lemma slice_progress:
  assumes "build_log_slice since cap g = (since', s, seq)" "s \<noteq> []"
  shows "unat since \<le> unat since' \<and> unat (since' + of_nat (length s)) = unat since' + length s"
proof -
  have i: "lg_installed g" using assms by (auto simp: build_log_slice_def split: if_splits)
  let ?q = "unat (lg_seq g)" and ?p = "slice_start (unat since) (unat (lg_seq g))"
  have since': "since' = of_nat ?p" and le: "length s \<le> ?q - ?p"
    using assms(1) unfolding build_log_slice_nat [OF i] by (auto simp: Let_def)
  have q: "?q < 2 ^ 32" using unsigned_less [of "lg_seq g", where 'a = nat] by simp
  have pq: "?p + length s \<le> ?q" "unat since \<le> ?p"
    using le assms(2) by (auto simp: slice_start_def split: if_splits)
  have p: "unat since' = ?p" unfolding since' by (rule unat_of_nat_u32) (use q pq in linarith)
  have "since' + of_nat (length s) = (of_nat (?p + length s) :: u32)" by (simp add: since')
  then have "unat (since' + of_nat (length s)) = ?p + length s"
    using q pq by (simp add: unat_of_nat_u32 del: of_nat_add)
  then show ?thesis using p pq by simp
qed

function log_drain :: "(nat \<Rightarrow> log_state) \<Rightarrow> (nat \<Rightarrow> bool) \<Rightarrow> nat \<Rightarrow> u32 \<Rightarrow> u32 \<Rightarrow> string list \<times> bool" where
  "log_drain gs ok k target since =
     (if since < target then
        (case build_log_slice since CHUNK (gs k) of (since', s, ign) \<Rightarrow>
           if s = [] then ([], True)
           else if \<not> ok k then ([s], False)
           else (case log_drain gs ok (Suc k) target (since' + of_nat (length s)) of (cs, r) \<Rightarrow> (s # cs, r)))
      else ([], True))"
  by auto
termination
proof (relation "measure (\<lambda>(gs, ok, k, target, since). unat target - unat since)", goal_cases)
  case (2 gs ok k target since since' y s ign)
  then have "build_log_slice since CHUNK (gs k) = (since', s, ign)" "s \<noteq> []" by auto
  from slice_progress [OF this] this(2) have "unat since < unat (since' + of_nat (length s))"
    by (cases s) simp_all
  moreover have "unat since < unat target" using 2(1) by (simp add: word_less_nat_alt)
  ultimately show ?case by (simp add: diff_less_mono2)
qed simp

declare log_drain.simps [simp del]

definition log_get :: "(string \<Rightarrow> nat \<Rightarrow> string option) \<Rightarrow> (nat \<Rightarrow> log_state) \<Rightarrow> (nat \<Rightarrow> bool) \<Rightarrow> http_resp \<times> bool" where
  "log_get kv gs ok =
     (let since = (case kv ''since'' 32 of Some v \<Rightarrow> c_strtoul v | None \<Rightarrow> 0);
          (since, s, target_seq) = build_log_slice since CHUNK (gs 0);
          hdr = [(''X-Log-Seq'', show_nat (unat target_seq))];
          ty = ''text/plain; charset=utf-8''
      in if s = [] then (Http_chunked ty hdr [], True)
         else if \<not> ok 0 then (Http_chunked ty hdr [s], False)
         else (case log_drain gs ok 1 target_seq (since + of_nat (length s)) of (cs, r) \<Rightarrow> (Http_chunked ty hdr (s # cs), r)))"

section \<open>What the ring holds\<close>

definition log_holds :: "log_state \<Rightarrow> string \<Rightarrow> bool" where
  "log_holds g h \<longleftrightarrow> lg_installed g \<and> length (lg_ring g) = LOG_RING_SIZE \<and> lg_seq g = of_nat (length h) \<and>
     (\<forall>i < length h. length h \<le> i + LOG_RING_SIZE \<longrightarrow> lg_ring g ! (i mod LOG_RING_SIZE) = h ! i)"

lemma seq_mod: "lg_seq g = of_nat n \<Longrightarrow> unat (lg_seq g) mod LOG_RING_SIZE = n mod LOG_RING_SIZE"
proof -
  have "(8192::nat) dvd 4294967296" by simp
  then show "lg_seq g = of_nat n \<Longrightarrow> ?thesis" by (simp add: unat_of_nat LOG_RING_SIZE_def mod_mod_cancel)
qed

lemma copy_at_nth:
  assumes "pos + length s \<le> length buf" "j < length buf"
  shows "copy_at pos s buf ! j = (if pos \<le> j \<and> j < pos + length s then s ! (j - pos) else buf ! j)"
  using assms by (auto simp: copy_at_def nth_append min_def)

lemma length_copy_at [simp]: "pos + length s \<le> length buf \<Longrightarrow> length (copy_at pos s buf) = length buf"
  by (simp add: copy_at_def)

text \<open>The two copies of an append are one write modulo the size of the ring.\<close>

definition ring_write :: "nat \<Rightarrow> 'a list \<Rightarrow> 'a list \<Rightarrow> 'a list" where
  "ring_write pos s ring =
     (let first = min (length s) (length ring - pos); ring' = copy_at pos (take first s) ring
      in if length s > first then copy_at 0 (drop first s) ring' else ring')"

lemma ring_write_nth:
  assumes "pos < length ring" "length s \<le> length ring" "j < length ring"
  shows "ring_write pos s ring ! j =
    (let d = nat ((int j - int pos) mod int (length ring)) in if d < length s then s ! d else ring ! j)"
proof (cases "pos \<le> j")
  case True
  then have "nat ((int j - int pos) mod int (length ring)) = j - pos" using assms by (simp add: nat_diff_distrib)
  then show ?thesis using assms True by (auto simp: ring_write_def Let_def copy_at_nth min_def)
next
  case False
  have "(int j - int pos) mod int (length ring) = (int j - int pos + int (length ring)) mod int (length ring)" by simp
  also have "\<dots> = int j - int pos + int (length ring)" using False assms by (intro mod_pos_pos_trivial) auto
  finally have "nat ((int j - int pos) mod int (length ring)) = j + length ring - pos" using False assms by auto
  then show ?thesis using assms False
    by (auto simp: ring_write_def Let_def copy_at_nth min_def nth_append intro!: arg_cong [where f = "(!) s"])
qed

lemma length_ring_write: "pos < length ring \<Longrightarrow> length s \<le> length ring \<Longrightarrow> length (ring_write pos s ring) = length ring"
  by (auto simp: ring_write_def Let_def min_def)

lemma log_ring_append_eq:
  assumes "lg_installed g" "length (lg_ring g) = LOG_RING_SIZE" "s \<noteq> []"
  shows "log_ring_append s g = (let t = last_n LOG_RING_SIZE s in
           g\<lparr>lg_ring := ring_write (unat (lg_seq g) mod LOG_RING_SIZE) t (lg_ring g), lg_seq := lg_seq g + of_nat (length t)\<rparr>)"
proof -
  have "(if length s > LOG_RING_SIZE then drop (length s - LOG_RING_SIZE) s else s) = last_n LOG_RING_SIZE s"
    by (simp add: last_n_def)
  then show ?thesis using assms unfolding log_ring_append_def ring_write_def Let_def by (simp only: length_0_conv if_False simp_thms)
qed

lemma log_holds_append:
  assumes "log_holds g h"
  shows "log_holds (log_ring_append s g) (h @ last_n LOG_RING_SIZE s)"
proof (cases "s = []")
  case True
  then show ?thesis using assms by (simp add: log_ring_append_def last_n_def)
next
  case False
  let ?S = LOG_RING_SIZE and ?t = "last_n LOG_RING_SIZE s" and ?L = "length h"
  have g: "lg_installed g" "length (lg_ring g) = ?S" "lg_seq g = of_nat ?L"
    and old: "\<And>i. i < ?L \<Longrightarrow> ?L \<le> i + ?S \<Longrightarrow> lg_ring g ! (i mod ?S) = h ! i"
    using assms by (auto simp: log_holds_def)
  have S: "0 < ?S" by (simp add: LOG_RING_SIZE_def)
  have pos: "?L mod ?S < length (lg_ring g)" using S by (simp add: g)
  have t: "length ?t \<le> length (lg_ring g)" by (simp add: g)
  let ?r = "ring_write (?L mod ?S) ?t (lg_ring g)"
  have new: "?r ! (i mod ?S) = (h @ ?t) ! i" if i: "i < ?L + length ?t" "?L + length ?t \<le> i + ?S" for i
  proof -
    have d: "(int (i mod ?S) - int (?L mod ?S)) mod int ?S = (int i - int ?L) mod int ?S"
      by (simp add: zmod_int mod_diff_eq)
    have w: "?r ! (i mod ?S) = (let d = nat ((int i - int ?L) mod int ?S) in if d < length ?t then ?t ! d else lg_ring g ! (i mod ?S))"
      using ring_write_nth [OF pos t, of "i mod ?S"] S d by (simp add: g)
    show ?thesis
    proof (cases "?L \<le> i")
      case True
      then have "nat ((int i - int ?L) mod int ?S) = i - ?L" using i t by (simp add: mod_pos_pos_trivial)
      moreover have "i - ?L < length ?t" using i True by linarith
      ultimately show ?thesis using w True by (simp only: Let_def if_True nth_append) simp
    next
      case F: False
      have "(int i - int ?L) mod int ?S = (int i - int ?L + int ?S) mod int ?S" by simp
      also have "\<dots> = int i - int ?L + int ?S" using F i False by (intro mod_pos_pos_trivial) (auto simp: last_n_def)
      finally have "\<not> nat ((int i - int ?L) mod int ?S) < length ?t" using i F by linarith
      moreover have "lg_ring g ! (i mod ?S) = h ! i" using old [of i] F i by linarith
      ultimately show ?thesis using w F by (simp only: Let_def if_False nth_append) simp
    qed
  qed
  have len: "length ?r = ?S" using length_ring_write [OF pos t] g(2) by simp
  have sq: "of_nat ?L + of_nat (length ?t) = (of_nat (?L + length ?t) :: u32)" by simp
  have e: "log_ring_append s g = g\<lparr>lg_ring := ?r, lg_seq := lg_seq g + of_nat (length ?t)\<rparr>"
    using log_ring_append_eq [OF g(1,2) False] seq_mod [OF g(3)] by (simp add: Let_def)
  show ?thesis unfolding log_holds_def e using new len g sq by simp
qed

lemma slice_start_bounds: "p = slice_start m n \<Longrightarrow> p \<le> n \<and> n \<le> p + LOG_RING_SIZE"
  by (auto simp: slice_start_def LOG_RING_SIZE_def)

lemma slice_content:
  assumes h: "log_holds g h" and len: "length h < 2 ^ 32" and p: "p = slice_start (unat since) (length h)"
  shows "build_log_slice since cap g =
    (of_nat p, take (min (min (length h - p) (LOG_RING_SIZE - p mod LOG_RING_SIZE)) cap) (drop p h), of_nat (length h))"
proof -
  let ?S = LOG_RING_SIZE
  have g: "lg_installed g" "length (lg_ring g) = ?S" "lg_seq g = of_nat (length h)"
    and old: "\<And>i. i < length h \<Longrightarrow> length h \<le> i + ?S \<Longrightarrow> lg_ring g ! (i mod ?S) = h ! i"
    using h by (auto simp: log_holds_def)
  have q: "unat (lg_seq g) = length h" using len g(3) by (simp add: unat_of_nat_u32)
  let ?n = "min (min (length h - p) (?S - p mod ?S)) cap"
  note b = slice_start_bounds [OF p]
  have "take ?n (drop (p mod ?S) (lg_ring g)) = take ?n (drop p h)"
  proof (rule nth_equalityI)
    show "length (take ?n (drop (p mod ?S) (lg_ring g))) = length (take ?n (drop p h))"
      using b by (simp add: g)
  next
    fix i assume "i < length (take ?n (drop (p mod ?S) (lg_ring g)))"
    then have i: "i < ?n" by simp
    then have "p mod ?S + i < ?S" by linarith
    then have "(p + i) mod ?S = p mod ?S + i" by (metis mod_add_left_eq mod_less)
    then have "lg_ring g ! (p mod ?S + i) = h ! (p + i)" using old [of "p + i"] i b by (simp add: less_diff_conv add.commute)
    then show "take ?n (drop (p mod ?S) (lg_ring g)) ! i = take ?n (drop p h) ! i"
      using i b mod_le_divisor [of ?S p] by (simp add: g LOG_RING_SIZE_def)
  qed
  then show ?thesis unfolding build_log_slice_nat [OF g(1)] Let_def q p [symmetric] by (simp add: g(3))
qed

text \<open>An undisturbed drain sends exactly what is missing.\<close>

lemma log_drain_delivers:
  assumes "log_holds g h" "length h < 2 ^ 32" "length h \<le> unat since + LOG_RING_SIZE" "unat since \<le> length h"
  shows "\<exists>cs. log_drain (\<lambda>_. g) (\<lambda>_. True) k (of_nat (length h)) since = (cs, True) \<and> concat cs = drop (unat since) h"
  using assms(3,4)
proof (induction "length h - unat since" arbitrary: since k rule: less_induct)
  case less
  let ?q = "of_nat (length h) :: u32"
  have q: "unat ?q = length h" by (rule unat_of_nat_u32 [OF assms(2)])
  show ?case
  proof (cases "since < ?q")
    case False
    then have "unat since = length h" using less.prems q by (simp add: word_less_nat_alt)
    then show ?thesis using False by (subst log_drain.simps) simp
  next
    case True
    let ?p = "unat since"
    have p: "?p < length h" using True q by (simp add: word_less_nat_alt)
    have st: "slice_start ?p (length h) = ?p" using less.prems p by (auto simp: slice_start_def)
    define n where "n = min (min (length h - ?p) (LOG_RING_SIZE - ?p mod LOG_RING_SIZE)) CHUNK"
    have n: "0 < n" "?p + n \<le> length h" using p by (simp_all add: n_def LOG_RING_SIZE_def CHUNK_def)
    let ?s = "take n (drop ?p h)"
    have ls: "length ?s = n" using n by simp
    have sl: "build_log_slice since CHUNK g = (since, ?s, ?q)"
      using slice_content [OF assms(1,2) st [symmetric], of CHUNK] by (simp add: n_def)
    have ne: "?s \<noteq> []" using p n(1) by simp
    have nx: "unat (since + of_nat (length ?s)) = ?p + n"
      using slice_progress [OF sl ne] unfolding ls by simp
    obtain cs where cs: "log_drain (\<lambda>_. g) (\<lambda>_. True) (Suc k) ?q (since + of_nat (length ?s)) = (cs, True)"
      "concat cs = drop (?p + n) h"
      using less.hyps [of "since + of_nat (length ?s)" "Suc k"] nx n less.prems p
      by (auto simp: diff_less_mono2)
    have "?s @ drop (?p + n) h = drop ?p h"
      by (simp add: add.commute flip: drop_drop)
    then have "concat (?s # cs) = drop ?p h" using cs(2) by simp
    moreover have "log_drain (\<lambda>_. g) (\<lambda>_. True) k ?q since = (?s # cs, True)"
      by (subst log_drain.simps) (use True sl ne cs(1) in simp)
    ultimately show ?thesis by blast
  qed
qed

lemma log_get_delivers:
  assumes "log_holds g h" "length h < 2 ^ 32" "p = slice_start (unat since) (length h)"
    and "since = (case kv ''since'' 32 of Some v \<Rightarrow> c_strtoul v | None \<Rightarrow> 0)"
  shows "\<exists>cs. log_get kv (\<lambda>_. g) (\<lambda>_. True) =
           (Http_chunked ''text/plain; charset=utf-8'' [(''X-Log-Seq'', show_nat (length h))] cs, True) \<and>
         concat cs = drop p h"
proof -
  let ?q = "of_nat (length h) :: u32"
  have q: "unat ?q = length h" by (rule unat_of_nat_u32 [OF assms(2)])
  note b = slice_start_bounds [OF assms(3)]
  define n where "n = min (min (length h - p) (LOG_RING_SIZE - p mod LOG_RING_SIZE)) CHUNK"
  let ?s = "take n (drop p h)"
  note sl = slice_content [OF assms(1-3), of CHUNK, folded n_def]
  show ?thesis
  proof (cases "p = length h")
    case True
    then show ?thesis using sl assms(4) q by (simp add: log_get_def Let_def)
  next
    case False
    then have n: "0 < n" "p + n \<le> length h" using b by (auto simp: n_def LOG_RING_SIZE_def CHUNK_def)
    then have ls: "length ?s = n" by simp
    have ne: "?s \<noteq> []" using n b False by simp
    have up: "unat (of_nat p :: u32) = p" by (rule unat_of_nat_u32) (use b assms(2) in linarith)
    have nx: "unat (of_nat p + of_nat (length ?s) :: u32) = p + n"
      using slice_progress [OF sl ne] unfolding ls up by simp
    obtain cs where cs: "log_drain (\<lambda>_. g) (\<lambda>_. True) 1 ?q (of_nat p + of_nat (length ?s)) = (cs, True)"
      "concat cs = drop (p + n) h"
      using log_drain_delivers [OF assms(1,2), of "of_nat p + of_nat (length ?s)" 1] nx n b by auto
    have "?s @ drop (p + n) h = drop p h"
      by (simp add: add.commute flip: drop_drop)
    then have "concat (?s # cs) = drop p h" using cs(2) by simp
    moreover have "log_get kv (\<lambda>_. g) (\<lambda>_. True) =
      (Http_chunked ''text/plain; charset=utf-8'' [(''X-Log-Seq'', show_nat (length h))] (?s # cs), True)"
      unfolding log_get_def assms(4) [symmetric] Let_def sl prod.case q
      using ne cs(1) by simp
    ultimately show ?thesis by blast
  qed
qed

section \<open>Properties\<close>

definition log_poll :: "log_state \<Rightarrow> string" where
  "log_poll g = (case log_get (\<lambda>_ _. None) (\<lambda>_. g) (\<lambda>_. True) of (Http_chunked _ _ cs, _) \<Rightarrow> concat cs | _ \<Rightarrow> [])"

interpretation lr: ring_buffer LOG_RING_SIZE "\<lambda>n. n < 2 ^ 32" "\<lambda>g h. log_holds g h \<and> length h < 2 ^ 32" log_ring_append log_poll
proof unfold_locales
  fix g and h s :: string
  assume "log_holds g h \<and> length h < 2 ^ 32" "length h + min LOG_RING_SIZE (length s) < 2 ^ 32"
  then show "log_holds (log_ring_append s g) (h @ last_n LOG_RING_SIZE s) \<and> length (h @ last_n LOG_RING_SIZE s) < 2 ^ 32"
    using log_holds_append [of g h s] by simp
next
  fix g h assume "log_holds g h \<and> length h < 2 ^ 32"
  then show "log_poll g = last_n LOG_RING_SIZE h"
    using log_get_delivers [of g h _ 0 "\<lambda>_ _. None"] by (auto simp: log_poll_def slice_start_def last_n_def)
qed auto

lemma log_initial_holds: "log_holds (install_log_hook log_initial) []"
  by (simp add: log_holds_def install_log_hook_def log_initial_def)

lemma log_vprintf_fold:
  "fold log_vprintf ls g = fold log_ring_append (map (take 255) ls) g"
proof (induction ls arbitrary: g)
  case (Cons l ls)
  have "log_vprintf l g = log_ring_append (take 255 l) g"
    by (cases "l = []") (simp_all add: log_vprintf_def log_ring_append_def)
  then show ?case using Cons by simp
qed simp

lemma log_lines_hold:
  assumes "length (concat (map (take 255) ls)) < 2 ^ 32"
  shows "log_holds (fold log_vprintf ls (install_log_hook log_initial)) (concat (map (take 255) ls))"
proof -
  have short: "map (last_n LOG_RING_SIZE) (map (take 255) ls) = map (take 255) ls"
    by (simp add: LOG_RING_SIZE_def)
  show ?thesis
    using lr.holds_adds [of "install_log_hook log_initial" "[]" "map (take 255) ls"] log_initial_holds assms
    unfolding short by (simp add: log_vprintf_fold)
qed

text \<open>C19: The log console loses and repeats nothing. After any lines have been logged (each cut to 255
  characters), a poll from a sequence number \<open>n\<close> that the client has been told before gets exactly the text logged
  since, or, when it has fallen behind by more than the ring, the last 8192 characters; the reply announces the
  number to continue from, and polling from there gives exactly what is logged later.\<close>

theorem log_poll_exact:
  assumes "h = concat (map (take 255) ls)" "length h < 2 ^ 32" "n \<le> length h"
    and "kv ''since'' 32 = Some (show_nat n)"
  shows "\<exists>cs. log_get kv (\<lambda>_. fold log_vprintf ls (install_log_hook log_initial)) (\<lambda>_. True) =
           (Http_chunked ''text/plain; charset=utf-8'' [(''X-Log-Seq'', show_nat (length h))] cs, True) \<and>
         concat cs = drop (max n (length h - 8192)) h"
proof -
  have "c_strtoul (show_nat n) = of_nat n"
    using assms(2,3) atoi_show [of "int n"] by (simp add: c_strtoul_def show_int_def Let_def)
  moreover have "unat (of_nat n :: u32) = n" by (rule unat_of_nat_u32) (use assms(2,3) in linarith)
  moreover have "slice_start n (length h) = max n (length h - 8192)"
    using assms(3) by (simp add: slice_start_def LOG_RING_SIZE_def)
  moreover have hold: "log_holds (fold log_vprintf ls (install_log_hook log_initial)) h"
    unfolding assms(1) by (rule log_lines_hold [OF assms(2) [unfolded assms(1)]])
  ultimately show ?thesis
    using log_get_delivers [OF hold assms(2) refl, of "of_nat n" kv] assms(4) by (simp only: option.case simp_thms)
qed

theorem log_poll_exact_witness:
  "\<exists>cs. log_get (\<lambda>_ _. Some ''3'') (\<lambda>_. fold log_vprintf [''boot'', ''scan''] (install_log_hook log_initial)) (\<lambda>_. True) =
     (Http_chunked ''text/plain; charset=utf-8'' [(''X-Log-Seq'', ''8'')] cs, True) \<and> concat cs = ''tscan''"
proof -
  have "show_nat 3 = ''3''" "show_nat (length ''bootscan'') = ''8''" by code_simp+
  then show ?thesis
    using log_poll_exact [of "''bootscan''" "[''boot'', ''scan'']" 3 "\<lambda>_ _. Some ''3''"] by simp
qed

end
