(* ===== verification/Nvs.thy ===== *)
theory Nvs
  imports Nbp_Prelude
begin

text \<open>
  The non-volatile store the firmware keeps its settings in. The store is ESP-IDF code: what is modelled is its
  documented behaviour, with the outcome of every call (opening a namespace, setting a key, committing) a parameter
  \<open>nvs_env\<close>. A value set through a handle is in the store once the handle is committed; a read gives the value
  only when it exists with the type asked for.
\<close>

datatype nvs_val = NV_i8 int | NV_u8 u8 | NV_u16 u16 | NV_u32 u32 | NV_u64 u64 | NV_str string | NV_blob "u8 list"

type_synonym nvs = "string \<Rightarrow> string \<Rightarrow> nvs_val option"

record nvs_env =
  ne_open_ro :: "string \<Rightarrow> bool"
  ne_open_rw :: "string \<Rightarrow> bool"
  ne_set :: "string \<Rightarrow> string \<Rightarrow> bool"
  ne_commit :: "string \<Rightarrow> bool"

definition nvs_works :: "nvs_env \<Rightarrow> bool" where
  "nvs_works ne \<longleftrightarrow> ne_open_ro ne = (\<lambda>_. True) \<and> ne_open_rw ne = (\<lambda>_. True) \<and> ne_set ne = (\<lambda>_ _. True) \<and>
     ne_commit ne = (\<lambda>_. True)"

definition good_nvs :: nvs_env where
  "good_nvs = \<lparr>ne_open_ro = \<lambda>_. True, ne_open_rw = \<lambda>_. True, ne_set = \<lambda>_ _. True, ne_commit = \<lambda>_. True\<rparr>"

lemma good_nvs_works: "nvs_works good_nvs"
  by (simp add: nvs_works_def good_nvs_def)

definition nvs_put :: "string \<Rightarrow> string \<Rightarrow> nvs_val \<Rightarrow> nvs \<Rightarrow> nvs" where
  "nvs_put ns k v n = n(ns := (n ns)(k \<mapsto> v))"

lemma nvs_put_same [simp]: "nvs_put ns k v n ns k = Some v"
  by (simp add: nvs_put_def)

lemma nvs_put_other [simp]: "ns \<noteq> ns' \<or> k \<noteq> k' \<Longrightarrow> nvs_put ns k v n ns' k' = n ns' k'"
  by (auto simp: nvs_put_def)

text \<open>The chained style, \<open>err = set; if (err == ESP_OK) err = ...; commit\<close>: nothing is written unless all succeed.\<close>

fun nvs_sets :: "nvs_env \<Rightarrow> string \<Rightarrow> (string \<times> nvs_val) list \<Rightarrow> nvs \<Rightarrow> nvs option" where
  "nvs_sets ne ns [] n = Some n"
| "nvs_sets ne ns ((k, v) # kvs) n = (if ne_set ne ns k then nvs_sets ne ns kvs (nvs_put ns k v n) else None)"

definition nvs_write :: "nvs_env \<Rightarrow> string \<Rightarrow> (string \<times> nvs_val) list \<Rightarrow> nvs \<Rightarrow> nvs \<times> bool" where
  "nvs_write ne ns kvs n =
     (if \<not> ne_open_rw ne ns then (n, False)
      else case nvs_sets ne ns kvs n of
             None \<Rightarrow> (n, False)
           | Some n' \<Rightarrow> if ne_commit ne ns then (n', True) else (n, False))"

text \<open>The unchecked style: every set is tried and the results are ignored.\<close>

fun nvs_tries :: "nvs_env \<Rightarrow> string \<Rightarrow> (string \<times> nvs_val) list \<Rightarrow> nvs \<Rightarrow> nvs" where
  "nvs_tries ne ns [] n = n"
| "nvs_tries ne ns ((k, v) # kvs) n = nvs_tries ne ns kvs (if ne_set ne ns k then nvs_put ns k v n else n)"

definition nvs_write_unchecked :: "nvs_env \<Rightarrow> string \<Rightarrow> (string \<times> nvs_val) list \<Rightarrow> nvs \<Rightarrow> nvs" where
  "nvs_write_unchecked ne ns kvs n =
     (if ne_open_rw ne ns \<and> ne_commit ne ns then nvs_tries ne ns kvs n else n)"

definition nvs_read :: "nvs_env \<Rightarrow> string \<Rightarrow> string \<Rightarrow> nvs \<Rightarrow> nvs_val option" where
  "nvs_read ne ns k n = (if ne_open_ro ne ns then n ns k else None)"

definition get_i8 :: "nvs_env \<Rightarrow> string \<Rightarrow> string \<Rightarrow> nvs \<Rightarrow> int option" where
  "get_i8 ne ns k n = (case nvs_read ne ns k n of Some (NV_i8 v) \<Rightarrow> Some v | _ \<Rightarrow> None)"

definition get_u8 :: "nvs_env \<Rightarrow> string \<Rightarrow> string \<Rightarrow> nvs \<Rightarrow> u8 option" where
  "get_u8 ne ns k n = (case nvs_read ne ns k n of Some (NV_u8 v) \<Rightarrow> Some v | _ \<Rightarrow> None)"

definition get_u16 :: "nvs_env \<Rightarrow> string \<Rightarrow> string \<Rightarrow> nvs \<Rightarrow> u16 option" where
  "get_u16 ne ns k n = (case nvs_read ne ns k n of Some (NV_u16 v) \<Rightarrow> Some v | _ \<Rightarrow> None)"

definition get_u32 :: "nvs_env \<Rightarrow> string \<Rightarrow> string \<Rightarrow> nvs \<Rightarrow> u32 option" where
  "get_u32 ne ns k n = (case nvs_read ne ns k n of Some (NV_u32 v) \<Rightarrow> Some v | _ \<Rightarrow> None)"

definition get_u64 :: "nvs_env \<Rightarrow> string \<Rightarrow> string \<Rightarrow> nvs \<Rightarrow> u64 option" where
  "get_u64 ne ns k n = (case nvs_read ne ns k n of Some (NV_u64 v) \<Rightarrow> Some v | _ \<Rightarrow> None)"

text \<open>\<open>nvs_get_str\<close> into a buffer of \<open>cap\<close> bytes: the text and its terminator must fit.\<close>

definition get_str :: "nvs_env \<Rightarrow> string \<Rightarrow> string \<Rightarrow> nat \<Rightarrow> nvs \<Rightarrow> string option" where
  "get_str ne ns k cap n =
     (case nvs_read ne ns k n of Some (NV_str s) \<Rightarrow> if length s < cap then Some s else None | _ \<Rightarrow> None)"

lemmas nvs_gets = get_i8_def get_u8_def get_u16_def get_u32_def get_u64_def get_str_def nvs_read_def

lemma nvs_write_works [simp]: "nvs_works ne \<Longrightarrow> nvs_write ne ns kvs n = (fold (\<lambda>(k, v). nvs_put ns k v) kvs n, True)"
proof -
  assume w: "nvs_works ne"
  then have "nvs_sets ne ns kvs n = Some (fold (\<lambda>(k, v). nvs_put ns k v) kvs n)"
    by (induction kvs arbitrary: n) (auto simp: nvs_works_def)
  then show ?thesis using w by (simp add: nvs_write_def nvs_works_def)
qed

lemma nvs_write_unchecked_works [simp]:
  "nvs_works ne \<Longrightarrow> nvs_write_unchecked ne ns kvs n = fold (\<lambda>(k, v). nvs_put ns k v) kvs n"
proof -
  assume w: "nvs_works ne"
  then have "nvs_tries ne ns kvs n = fold (\<lambda>(k, v). nvs_put ns k v) kvs n"
    by (induction kvs arbitrary: n) (auto simp: nvs_works_def)
  then show ?thesis using w by (simp add: nvs_write_unchecked_def nvs_works_def)
qed

lemma nvs_write_False: "nvs_write ne ns kvs n = (n', False) \<Longrightarrow> n' = n"
  by (auto simp: nvs_write_def split: if_splits option.splits)

lemma nvs_read_works [simp]: "nvs_works ne \<Longrightarrow> nvs_read ne ns k n = n ns k"
  by (simp add: nvs_read_def nvs_works_def)

end
