(* ===== verification/Stats_Settings.thy ===== *)
theory Stats_Settings
  imports Stats_Log Nvs Ble_Backend
begin

text \<open>
  The settings half of \<^verbatim>\<open>components/api_server/stats.cpp\<close>: log level, transmit powers, CPU frequency, advertising
  interval, Wi-Fi power save, host name, passkey, scan duty and trace mode. Each has a setter (validate, persist,
  apply) that the HTTP and the BLE transport share, a JSON getter, and a loader that re-applies the stored value at
  boot. The build is the full one (BLE, Wi-Fi, pairing, console and device panel configured). What ESP-IDF answers
  is in \<open>stats_env\<close>.
\<close>

section \<open>State\<close>

definition NVS_NS :: string where "NVS_NS = ''stats''"
definition ESP_LOG_NONE :: int where "ESP_LOG_NONE = 0"
definition ESP_LOG_ERROR :: int where "ESP_LOG_ERROR = 1"
definition ESP_LOG_WARN :: int where "ESP_LOG_WARN = 2"
definition ESP_LOG_DEBUG :: int where "ESP_LOG_DEBUG = 4"
definition ESP_LOG_VERBOSE :: int where "ESP_LOG_VERBOSE = 5"
definition DEFAULT_PASSKEY :: u32 where "DEFAULT_PASSKEY = 123456"
definition DEFAULT_HOSTNAME :: string where "DEFAULT_HOSTNAME = ''nimble-proxy''"
definition ADV_ITVL_OFF :: u16 where "ADV_ITVL_OFF = 0xFFFF"

definition NIMBLE_SCAN_TAGS :: "string list" where "NIMBLE_SCAN_TAGS = [''NimBLEScan'', ''NimBLEAdvertisedDevice'']"
definition NIMBLE_NOISY_TAGS :: "string list" where "NIMBLE_NOISY_TAGS = [''NimBLERemoteValueAttribute'']"
definition NIMBLE_CORE_TAGS :: "string list" where
  "NIMBLE_CORE_TAGS = [''NimBLE'', ''NimBLEDevice'', ''NimBLEClient'', ''NimBLERemoteCharacteristic'']"

datatype esp_power_level = PWR_N12 | PWR_N9 | PWR_N6 | PWR_N3 | PWR_N0 | PWR_P3 | PWR_P6 | PWR_P9

datatype esp_err = ESP_OK | ESP_FAIL | ESP_ERR_WIFI_NOT_INIT | ESP_ERR_WIFI_NOT_STARTED

record stats_state =
  st_nimble_level :: int
  st_tag_level :: "string \<Rightarrow> int option"     \<comment> \<open>\<open>esp_log_level_set\<close>\<close>
  st_wifi_tx_dbm :: int
  st_ble_tx_dbm :: int
  st_cpu_freq_mhz :: int
  st_wifi_li :: int
  st_light_sleep :: bool
  st_cpu_pd :: bool
  st_wifi_off :: bool
  st_hostname :: string
  st_pm :: "(int \<times> bool) option"               \<comment> \<open>what \<open>esp_pm_configure\<close> accepted last\<close>
  st_cpu_pd_auto :: bool                        \<comment> \<open>\<open>esp_sleep_pd_config\<close> of the CPU domain\<close>
  st_wifi_power :: int                          \<comment> \<open>\<open>esp_wifi_set_max_tx_power\<close>, quarter dBm\<close>
  st_ble_power :: "esp_power_level option"
  st_wifi_ps_max :: bool                        \<comment> \<open>\<open>esp_wifi_set_ps\<close>\<close>
  st_reboot_scheduled :: bool
  st_nvs :: nvs
  st_ble :: ble_backend
  st_log :: log_state

record stats_env =
  se_nvs :: nvs_env
  se_pm_ok :: bool
  se_wifi_stop :: esp_err
  se_wifi_tx_ok :: bool
  se_ble_tx_ok :: bool
  se_radio_ok :: bool

type_synonym query = "string \<Rightarrow> nat \<Rightarrow> string option"
type_synonym setter = "stats_state \<times> string option"

section \<open>Applying a value\<close>

definition set_tags :: "string list \<Rightarrow> int \<Rightarrow> stats_state \<Rightarrow> stats_state" where
  "set_tags tags lvl st = st\<lparr>st_tag_level := fold (\<lambda>tag m. m(tag \<mapsto> lvl)) tags (st_tag_level st)\<rparr>"

definition apply_level :: "int \<Rightarrow> stats_state \<Rightarrow> stats_state" where
  "apply_level lvl st =
     (let st = set_tags NIMBLE_CORE_TAGS lvl st;
          capped = (if lvl < ESP_LOG_WARN then lvl else ESP_LOG_WARN);
          st = set_tags NIMBLE_SCAN_TAGS capped st;
          st = set_tags NIMBLE_NOISY_TAGS capped st
      in st\<lparr>st_nimble_level := lvl\<rparr>)"

definition apply_cpu_freq_mhz :: "stats_env \<Rightarrow> int \<Rightarrow> bool \<Rightarrow> stats_state \<Rightarrow> stats_state \<times> bool" where
  "apply_cpu_freq_mhz env mhz light_sleep st =
     (let st = (if se_pm_ok env then st\<lparr>st_pm := Some (mhz, light_sleep), st_light_sleep := light_sleep\<rparr> else st)
      in (st\<lparr>st_cpu_pd_auto := st_cpu_pd st\<rparr>, se_pm_ok env))"

definition dbm_to_ble_lvl :: "int \<Rightarrow> esp_power_level" where
  "dbm_to_ble_lvl dbm =
     (if dbm \<le> -12 then PWR_N12 else if dbm \<le> -9 then PWR_N9 else if dbm \<le> -6 then PWR_N6
      else if dbm \<le> -3 then PWR_N3 else if dbm \<le> 0 then PWR_N0 else if dbm \<le> 3 then PWR_P3
      else if dbm \<le> 6 then PWR_P6 else PWR_P9)"

definition apply_ble_tx_dbm :: "stats_env \<Rightarrow> int \<Rightarrow> stats_state \<Rightarrow> stats_state \<times> bool" where
  "apply_ble_tx_dbm env dbm st =
     (if se_ble_tx_ok env then (st\<lparr>st_ble_power := Some (dbm_to_ble_lvl dbm)\<rparr>, True) else (st, False))"

definition to_int8 :: "int \<Rightarrow> int" where
  "to_int8 i = sint (word_of_int i :: u8)"

definition apply_wifi_tx_dbm :: "stats_env \<Rightarrow> int \<Rightarrow> stats_state \<Rightarrow> stats_state \<times> bool" where
  "apply_wifi_tx_dbm env dbm st =
     (if se_wifi_tx_ok env then (st\<lparr>st_wifi_power := to_int8 (dbm * 4)\<rparr>, True) else (st, False))"

definition apply_wifi_off :: "stats_env \<Rightarrow> bool" where
  "apply_wifi_off env =
     (let err = se_wifi_stop env in
      if err = ESP_ERR_WIFI_NOT_INIT \<or> err = ESP_ERR_WIFI_NOT_STARTED then True else err = ESP_OK)"

definition nvs_write_i8 :: "stats_env \<Rightarrow> string \<Rightarrow> int \<Rightarrow> stats_state \<Rightarrow> stats_state \<times> bool" where
  "nvs_write_i8 env key v st =
     (case nvs_write (se_nvs env) NVS_NS [(key, NV_i8 (to_int8 v))] (st_nvs st) of (n, ok) \<Rightarrow> (st\<lparr>st_nvs := n\<rparr>, ok))"

definition nvs_read_i8 :: "stats_env \<Rightarrow> string \<Rightarrow> stats_state \<Rightarrow> int option" where
  "nvs_read_i8 env key st = get_i8 (se_nvs env) NVS_NS key (st_nvs st)"

section \<open>The setters\<close>

definition handle_level_set :: "stats_env \<Rightarrow> query \<Rightarrow> stats_state \<Rightarrow> setter" where
  "handle_level_set env kv st =
     (case kv ''nimble'' 8 of
        None \<Rightarrow> (st, Some ''missing nimble='')
      | Some v \<Rightarrow>
          let parsed = c_atoi v in
          if parsed < ESP_LOG_NONE \<or> parsed > ESP_LOG_VERBOSE then (st, Some ''level out of range'')
          else case nvs_write_i8 env ''nimble_lvl'' parsed st of
                 (st, False) \<Rightarrow> (st, Some ''nvs write failed'')
               | (st, True) \<Rightarrow> (apply_level parsed st, None))"

definition txpower_wifi :: "stats_env \<Rightarrow> query \<Rightarrow> stats_state \<Rightarrow> stats_state \<times> (string + bool)" where
  "txpower_wifi env kv st =
     (case kv ''wifi'' 8 of
        None \<Rightarrow> (st, Inr False)
      | Some v \<Rightarrow>
          let dbm = c_atoi v in
          if dbm = 0 then
            (if \<not> st_wifi_off st then
               (if \<not> apply_wifi_off env then (st, Inl ''wifi stop failed'')
                else (st\<lparr>st_wifi_off := True\<rparr>, Inr True))
             else (st, Inr False))
          else if dbm < 2 \<or> dbm > 21 then (st, Inl ''wifi 0 or 2..21'')
          else if st_wifi_off st then (st, Inl ''wifi off; reboot to re-enable'')
          else if dbm \<noteq> st_wifi_tx_dbm st then
            (case apply_wifi_tx_dbm env dbm st of
               (st, False) \<Rightarrow> (st, Inl ''wifi tx apply failed'')
             | (st, True) \<Rightarrow>
                 let st = st\<lparr>st_wifi_tx_dbm := dbm\<rparr>; (st, _) = nvs_write_i8 env ''wifi_tx'' dbm st
                 in (st, Inr True))
          else (st, Inr False))"

definition txpower_ble :: "stats_env \<Rightarrow> query \<Rightarrow> stats_state \<Rightarrow> stats_state \<times> (string + bool)" where
  "txpower_ble env kv st =
     (case kv ''ble'' 8 of
        None \<Rightarrow> (st, Inr False)
      | Some v \<Rightarrow>
          if v = ''off'' then
            (if \<not> bb_powered_off (st_ble st) then (st\<lparr>st_ble := power_off (st_ble st)\<rparr>, Inr True)
             else (st, Inr False))
          else
            let dbm = c_atoi v in
            if dbm < -12 \<or> dbm > 9 then (st, Inl ''ble -12..9 or off'')
            else if bb_powered_off (st_ble st) then (st, Inl ''ble off; reboot to re-enable'')
            else if dbm \<noteq> st_ble_tx_dbm st then
              (case apply_ble_tx_dbm env dbm st of
                 (st, False) \<Rightarrow> (st, Inl ''ble tx apply failed'')
               | (st, True) \<Rightarrow>
                   let st = st\<lparr>st_ble_tx_dbm := dbm\<rparr>; (st, _) = nvs_write_i8 env ''ble_tx'' dbm st
                   in (st, Inr True))
            else (st, Inr False))"

definition handle_txpower_set :: "stats_env \<Rightarrow> query \<Rightarrow> stats_state \<Rightarrow> setter" where
  "handle_txpower_set env kv st =
     (case txpower_wifi env kv st of
        (st, Inl e) \<Rightarrow> (st, Some e)
      | (st, Inr changed_w) \<Rightarrow>
          (case txpower_ble env kv st of
             (st, Inl e) \<Rightarrow> (st, Some e)
           | (st, Inr changed_b) \<Rightarrow>
               if \<not> (changed_w \<or> changed_b) then (st, Some ''no params or no change'') else (st, None)))"

definition handle_cpufreq_set :: "stats_env \<Rightarrow> query \<Rightarrow> stats_state \<Rightarrow> setter" where
  "handle_cpufreq_set env kv st =
     (let mhz = (case kv ''mhz'' 8 of Some v \<Rightarrow> c_atoi v | None \<Rightarrow> st_cpu_freq_mhz st) in
      if kv ''mhz'' 8 \<noteq> None \<and> mhz \<noteq> 80 \<and> mhz \<noteq> 160 \<and> mhz \<noteq> 240 then (st, Some ''mhz must be 80, 160, or 240'')
      else
        let light_sleep = (case kv ''ls'' 8 of Some v \<Rightarrow> c_atoi v \<noteq> 0 | None \<Rightarrow> st_light_sleep st);
            st = (case kv ''pdcpu'' 8 of Some v \<Rightarrow> st\<lparr>st_cpu_pd := (c_atoi v \<noteq> 0)\<rparr> | None \<Rightarrow> st)
        in if kv ''mhz'' 8 = None \<and> kv ''ls'' 8 = None \<and> kv ''pdcpu'' 8 = None
           then (st, Some ''missing mhz=, ls= or pdcpu='')
           else case apply_cpu_freq_mhz env mhz light_sleep st of
                  (st, False) \<Rightarrow> (st, Some ''cpu freq apply failed'')
                | (st, True) \<Rightarrow>
                    let st = st\<lparr>st_cpu_freq_mhz := mhz\<rparr>;
                        st = fst (nvs_write_i8 env ''cpu_freq'' (mhz div 10) st);
                        st = fst (nvs_write_i8 env ''cpu_ls'' (if light_sleep then 1 else 0) st);
                        st = fst (nvs_write_i8 env ''cpu_pd'' (if st_cpu_pd st then 1 else 0) st)
                    in (st, None))"

definition handle_advitvl_set :: "stats_env \<Rightarrow> query \<Rightarrow> stats_state \<Rightarrow> setter" where
  "handle_advitvl_set env kv st =
     (case kv ''ms'' 8 of
        None \<Rightarrow> (st, Some ''missing ms='')
      | Some v \<Rightarrow>
          let parsed = c_atoi v in
          if parsed < -1 \<or> parsed > 10240 then (st, Some ''ms must be -1, 0, or 20..10240'')
          else if parsed > 0 \<and> parsed < 20 then (st, Some ''ms must be -1, 0, or 20..10240'')
          else
            let off = (parsed = -1); stored = (if off then ADV_ITVL_OFF else word_of_int parsed) in
            if \<not> ne_open_rw (se_nvs env) NVS_NS then (st, Some ''nvs open failed'')
            else case nvs_write (se_nvs env) NVS_NS [(''adv_itvl'', NV_u16 stored)] (st_nvs st) of
                   (n, False) \<Rightarrow> (st, Some ''nvs write failed'')
                 | (n, True) \<Rightarrow>
                     let st = st\<lparr>st_nvs := n\<rparr> in
                     if off then (st\<lparr>st_ble := set_advertising_enabled (se_radio_ok env) False (st_ble st)\<rparr>, None)
                     else
                       let b = set_adv_interval_ms (se_radio_ok env) (word_of_int parsed) (st_ble st);
                           b = set_advertising_enabled (se_radio_ok env) True b
                       in (st\<lparr>st_ble := b\<rparr>, None))"

definition handle_wifips_set :: "stats_env \<Rightarrow> query \<Rightarrow> stats_state \<Rightarrow> setter" where
  "handle_wifips_set env kv st =
     (case kv ''li'' 8 of
        None \<Rightarrow> (st, Some ''missing li='')
      | Some v \<Rightarrow>
          let li = c_atoi v in
          if li < 0 \<or> li > 10 then (st, Some ''li 0..10'')
          else if li = st_wifi_li st then (st, None)
          else case nvs_write_i8 env ''wifi_li'' li st of
                 (st, False) \<Rightarrow> (st, Some ''nvs write failed'')
               | (st, True) \<Rightarrow> (st\<lparr>st_wifi_li := li, st_wifi_ps_max := (li > 0)\<rparr>, None))"

definition hostname_char :: "char \<Rightarrow> bool" where
  "hostname_char c \<longleftrightarrow>
     (let n = (of_char c :: nat) in
      (97 \<le> n \<and> n \<le> 122) \<or> (65 \<le> n \<and> n \<le> 90) \<or> (48 \<le> n \<and> n \<le> 57) \<or>
      c = CHR ''-'' \<or> c = CHR ''_'' \<or> c = CHR ''.'')"

definition is_valid_hostname :: "string \<Rightarrow> bool" where
  "is_valid_hostname s \<longleftrightarrow>
     \<not> (length s = 0 \<or> length s > HOSTNAME_MAX) \<and>
     \<not> (hd s = CHR ''-'' \<or> hd s = CHR ''.'') \<and>
     \<not> (last s = CHR ''-'' \<or> last s = CHR ''.'') \<and>
     list_all hostname_char s"

definition handle_hostname_set :: "stats_env \<Rightarrow> query \<Rightarrow> stats_state \<Rightarrow> setter" where
  "handle_hostname_set env kv st =
     (case kv ''val'' (HOSTNAME_MAX + 1) of
        None \<Rightarrow> (st, Some ''missing val='')
      | Some v \<Rightarrow>
          if \<not> is_valid_hostname v then (st, Some ''invalid hostname (1..32 chars: A-Za-z0-9._-)'')
          else if v = st_hostname st then (st, None)
          else if \<not> ne_open_rw (se_nvs env) NVS_NS then (st, Some ''nvs open failed'')
          else case nvs_write (se_nvs env) NVS_NS [(''hostname'', NV_str v)] (st_nvs st) of
                 (n, False) \<Rightarrow> (st, Some ''nvs write failed'')
               | (n, True) \<Rightarrow> (st\<lparr>st_nvs := n\<rparr>, None))"

definition stats_set_passkey :: "stats_env \<Rightarrow> u32 \<Rightarrow> stats_state \<Rightarrow> setter" where
  "stats_set_passkey env pin st =
     (if pin > 999999 then (st, Some ''passkey must be 0..999999'')
      else case nvs_write (se_nvs env) NVS_NS [(''ble_passkey'', NV_u32 pin)] (st_nvs st) of
             (n, False) \<Rightarrow> (st, Some ''nvs write failed'')
           | (n, True) \<Rightarrow> (st\<lparr>st_nvs := n, st_ble := (st_ble st)\<lparr>bb_pool := set_passkey pin (bb_pool (st_ble st))\<rparr>\<rparr>, None))"

definition handle_trace_set :: "stats_env \<Rightarrow> query \<Rightarrow> stats_state \<Rightarrow> stats_state \<times> bool" where
  "handle_trace_set env kv st =
     (let on = (case kv ''on'' 8 of Some v \<Rightarrow> c_atoi v \<noteq> 0 | None \<Rightarrow> True);
          b = st_ble st
      in if on then
           let st = set_tags NIMBLE_SCAN_TAGS ESP_LOG_ERROR st;
               st = set_tags NIMBLE_NOISY_TAGS ESP_LOG_DEBUG st;
               st = set_tags NIMBLE_CORE_TAGS ESP_LOG_DEBUG st
           in (st\<lparr>st_ble := b\<lparr>bb_scanner := scanner_pause (bb_scanner b)\<rparr>, st_log := log_ring_reset (st_log st)\<rparr>, True)
         else
           let st = apply_level (st_nimble_level st) st
           in (st\<lparr>st_ble := b\<lparr>bb_scanner := scanner_resume (se_radio_ok env) (bb_scanner b)\<rparr>\<rparr>, False))"

definition handle_scan_set :: "stats_env \<Rightarrow> query \<Rightarrow> stats_state \<Rightarrow> setter" where
  "handle_scan_set env kv st =
     (let sc = bb_scanner (st_ble st);
          window = (case kv ''window'' 8 of Some v \<Rightarrow> c_atoi v | None \<Rightarrow> uint (sc_window_ms sc));
          interval = (case kv ''interval'' 8 of Some v \<Rightarrow> c_atoi v | None \<Rightarrow> uint (sc_interval_ms sc));
          duty_changed = (kv ''window'' 8 \<noteq> None \<or> kv ''interval'' 8 \<noteq> None);
          active = (case kv ''active'' 8 of Some v \<Rightarrow> c_atoi v \<noteq> 0 | None \<Rightarrow> sc_active sc);
          active_changed = (kv ''active'' 8 \<noteq> None)
      in if \<not> duty_changed \<and> \<not> active_changed then (st, Some ''missing window= / interval= / active='')
         else if duty_changed \<and> (window < 20 \<or> window > 10000) then (st, Some ''window 20..10000 ms'')
         else if duty_changed \<and> (interval < 20 \<or> interval > 10000) then (st, Some ''interval 20..10000 ms'')
         else if duty_changed \<and> window > interval then (st, Some ''window must be <= interval'')
         else
           let n = nvs_write_unchecked (se_nvs env) NVS_NS
                     ((if duty_changed then [(''scan_win'', NV_u16 (word_of_int window)), (''scan_int'', NV_u16 (word_of_int interval))] else []) @
                      (if active_changed then [(''scan_act'', NV_i8 (if active then 1 else 0))] else [])) (st_nvs st);
               sc = (if duty_changed then set_duty (se_radio_ok env) (word_of_int window) (word_of_int interval) sc else sc);
               sc = (if active_changed then set_active (se_radio_ok env) active sc else sc)
           in (st\<lparr>st_nvs := n, st_ble := (st_ble st)\<lparr>bb_scanner := sc\<rparr>\<rparr>, None))"

definition schedule_reboot :: "stats_state \<Rightarrow> stats_state" where
  "schedule_reboot st = st\<lparr>st_reboot_scheduled := True\<rparr>"

section \<open>The loaders\<close>

definition apply_scan_from_nvs :: "stats_env \<Rightarrow> stats_state \<Rightarrow> stats_state" where
  "apply_scan_from_nvs env st =
     (let w = get_u16 (se_nvs env) NVS_NS ''scan_win'' (st_nvs st);
          i = get_u16 (se_nvs env) NVS_NS ''scan_int'' (st_nvs st);
          a = get_i8 (se_nvs env) NVS_NS ''scan_act'' (st_nvs st);
          sc = bb_scanner (st_ble st);
          sc = (case (w, i) of
                  (Some window, Some interval) \<Rightarrow>
                    if window \<ge> 20 \<and> window \<le> interval \<and> interval \<le> 10000
                    then set_duty (se_radio_ok env) window interval sc else sc
                | _ \<Rightarrow> sc);
          sc = (case a of Some active \<Rightarrow> set_active (se_radio_ok env) (active \<noteq> 0) sc | None \<Rightarrow> sc)
      in st\<lparr>st_ble := (st_ble st)\<lparr>bb_scanner := sc\<rparr>\<rparr>)"

definition apply_adv_interval_from_nvs :: "stats_env \<Rightarrow> stats_state \<Rightarrow> stats_state" where
  "apply_adv_interval_from_nvs env st =
     (let stored = (case get_u16 (se_nvs env) NVS_NS ''adv_itvl'' (st_nvs st) of Some v \<Rightarrow> v | None \<Rightarrow> 0);
          ok = se_radio_ok env
      in if stored = ADV_ITVL_OFF
         then st\<lparr>st_ble := set_advertising_enabled ok False (set_adv_interval_ms ok 0 (st_ble st))\<rparr>
         else st\<lparr>st_ble := set_adv_interval_ms ok stored (st_ble st)\<rparr>)"

definition apply_hostname_from_nvs :: "stats_env \<Rightarrow> stats_state \<Rightarrow> stats_state" where
  "apply_hostname_from_nvs env st =
     (case get_str (se_nvs env) NVS_NS ''hostname'' (HOSTNAME_MAX + 1) (st_nvs st) of
        None \<Rightarrow> st
      | Some s \<Rightarrow> if \<not> is_valid_hostname s then st else st\<lparr>st_hostname := s\<rparr>)"

definition apply_log_overrides_from_nvs :: "stats_env \<Rightarrow> stats_state \<Rightarrow> stats_state" where
  "apply_log_overrides_from_nvs env st =
     (let st = (case nvs_read_i8 env ''nimble_lvl'' st of Some lvl \<Rightarrow> apply_level lvl st | None \<Rightarrow> apply_level ESP_LOG_WARN st);
          pin = (case get_u32 (se_nvs env) NVS_NS ''ble_passkey'' (st_nvs st) of Some p \<Rightarrow> p | None \<Rightarrow> DEFAULT_PASSKEY)
      in st\<lparr>st_ble := (st_ble st)\<lparr>bb_pool := set_passkey pin (bb_pool (st_ble st))\<rparr>\<rparr>)"

definition apply_tx_power_from_nvs :: "stats_env \<Rightarrow> stats_state \<Rightarrow> stats_state" where
  "apply_tx_power_from_nvs env st =
     (let st = (case nvs_read_i8 env ''wifi_tx'' st of Some v \<Rightarrow> st\<lparr>st_wifi_tx_dbm := v\<rparr> | None \<Rightarrow> st);
          st = (case nvs_read_i8 env ''ble_tx'' st of Some v \<Rightarrow> st\<lparr>st_ble_tx_dbm := v\<rparr> | None \<Rightarrow> st);
          st = fst (apply_wifi_tx_dbm env (st_wifi_tx_dbm st) st)
      in fst (apply_ble_tx_dbm env (st_ble_tx_dbm st) st))"

definition apply_cpu_freq_from_nvs :: "stats_env \<Rightarrow> stats_state \<Rightarrow> stats_state" where
  "apply_cpu_freq_from_nvs env st =
     (let st = (case nvs_read_i8 env ''cpu_freq'' st of
                  Some stored \<Rightarrow> let mhz = stored * 10 in
                    if mhz = 80 \<or> mhz = 160 \<or> mhz = 240 then st\<lparr>st_cpu_freq_mhz := mhz\<rparr> else st
                | None \<Rightarrow> st);
          st = (case nvs_read_i8 env ''cpu_ls'' st of Some ls \<Rightarrow> st\<lparr>st_light_sleep := (ls \<noteq> 0)\<rparr> | None \<Rightarrow> st);
          st = (case nvs_read_i8 env ''cpu_pd'' st of Some pd \<Rightarrow> st\<lparr>st_cpu_pd := (pd \<noteq> 0)\<rparr> | None \<Rightarrow> st)
      in fst (apply_cpu_freq_mhz env (st_cpu_freq_mhz st) (st_light_sleep st) st))"

definition apply_wifi_ps_from_nvs :: "stats_env \<Rightarrow> stats_state \<Rightarrow> stats_state" where
  "apply_wifi_ps_from_nvs env st =
     (case nvs_read_i8 env ''wifi_li'' st of
        Some v \<Rightarrow> if v \<ge> 0 \<and> v \<le> 10 then st\<lparr>st_wifi_li := v\<rparr> else st
      | None \<Rightarrow> st)"

section \<open>Requests and boot\<close>

text \<open>The POST endpoints, and the passkey that comes in through the clone endpoint.\<close>

datatype setting = Set_level | Set_txpower | Set_cpufreq | Set_advitvl | Set_wifips | Set_hostname | Set_scan | Set_trace
  | Set_passkey u32

definition handle_setting :: "stats_env \<Rightarrow> setting \<Rightarrow> query \<Rightarrow> stats_state \<Rightarrow> setter" where
  "handle_setting env s kv st =
     (case s of
        Set_level \<Rightarrow> handle_level_set env kv st
      | Set_txpower \<Rightarrow> handle_txpower_set env kv st
      | Set_cpufreq \<Rightarrow> handle_cpufreq_set env kv st
      | Set_advitvl \<Rightarrow> handle_advitvl_set env kv st
      | Set_wifips \<Rightarrow> handle_wifips_set env kv st
      | Set_hostname \<Rightarrow> handle_hostname_set env kv st
      | Set_scan \<Rightarrow> handle_scan_set env kv st
      | Set_trace \<Rightarrow> (fst (handle_trace_set env kv st), None)
      | Set_passkey pin \<Rightarrow> stats_set_passkey env pin st)"

fun handle_settings :: "stats_env \<Rightarrow> (setting \<times> query) list \<Rightarrow> stats_state \<Rightarrow> stats_state" where
  "handle_settings env [] st = st"
| "handle_settings env ((s, kv) # rs) st = handle_settings env rs (fst (handle_setting env s kv st))"

text \<open>The globals at power-on over a store \<open>n\<close>, and the loaders in the order of \<open>app_main\<close>.\<close>

definition stats_initial :: "nvs \<Rightarrow> stats_state" where
  "stats_initial n =
     \<lparr>st_nimble_level = ESP_LOG_WARN, st_tag_level = (\<lambda>_. None), st_wifi_tx_dbm = 20, st_ble_tx_dbm = 9,
      st_cpu_freq_mhz = 240, st_wifi_li = 0, st_light_sleep = False, st_cpu_pd = False, st_wifi_off = False,
      st_hostname = DEFAULT_HOSTNAME, st_pm = None, st_cpu_pd_auto = True, st_wifi_power = 80, st_ble_power = None,
      st_wifi_ps_max = False, st_reboot_scheduled = False, st_nvs = n, st_ble = ble_initial, st_log = log_initial\<rparr>"

definition stats_boot :: "stats_env \<Rightarrow> nvs \<Rightarrow> stats_state" where
  "stats_boot env n =
     (let st = stats_initial n;
          st = st\<lparr>st_log := install_log_hook (st_log st)\<rparr>;
          st = apply_hostname_from_nvs env st;
          st = apply_log_overrides_from_nvs env st;
          st = apply_cpu_freq_from_nvs env st;
          st = apply_wifi_ps_from_nvs env st;
          st = st\<lparr>st_ble := ble_start (se_radio_ok env) (st_ble st)\<rparr>;
          st = apply_adv_interval_from_nvs env st;
          st = apply_tx_power_from_nvs env st
      in apply_scan_from_nvs env st)"

section \<open>What the settings are\<close>

record settings =
  sg_level :: int
  sg_wifi_tx :: int
  sg_ble_tx :: int
  sg_cpu :: "int \<times> bool \<times> bool"
  sg_li :: int
  sg_passkey :: u32
  sg_adv :: "u16 option"             \<comment> \<open>\<open>None\<close> when switched off, else the interval\<close>
  sg_scan :: "u16 \<times> u16 \<times> bool"

definition settings_of :: "stats_state \<Rightarrow> settings" where
  "settings_of st =
     \<lparr>sg_level = st_nimble_level st, sg_wifi_tx = st_wifi_tx_dbm st, sg_ble_tx = st_ble_tx_dbm st,
      sg_cpu = (st_cpu_freq_mhz st, st_light_sleep st, st_cpu_pd st), sg_li = st_wifi_li st,
      sg_passkey = cp_passkey (bb_pool (st_ble st)),
      sg_adv = (if bb_adv_enabled (st_ble st) then Some (bb_adv_interval_units (st_ble st)) else None),
      sg_scan = (let sc = bb_scanner (st_ble st) in (sc_window_ms sc, sc_interval_ms sc, sc_active sc))\<rparr>"

text \<open>The interval in units of 0.625 ms that \<open>set_adv_interval_ms\<close> configures.\<close>

definition adv_units :: "u16 \<Rightarrow> u16" where
  "adv_units ms = bb_adv_interval_units (set_adv_interval_ms True ms ble_initial)"

lemma set_adv_interval_units: "bb_adv_interval_units (set_adv_interval_ms ok ms b) = adv_units ms"
  by (auto simp: adv_units_def set_adv_interval_ms_def Let_def ble_initial_def split: option.split)

lemma adv_frames [simp]:
  "bb_adv_enabled (set_adv_interval_ms ok ms b) = bb_adv_enabled b"
  "bb_scanner (set_adv_interval_ms ok ms b) = bb_scanner b" "bb_pool (set_adv_interval_ms ok ms b) = bb_pool b"
  "bb_adv_enabled (set_advertising_enabled ok on b) = on"
  "bb_adv_interval_units (set_advertising_enabled ok on b) = bb_adv_interval_units b"
  "bb_scanner (set_advertising_enabled ok on b) = bb_scanner b" "bb_pool (set_advertising_enabled ok on b) = bb_pool b"
  "bb_adv_enabled (power_off b) = bb_adv_enabled b" "bb_adv_interval_units (power_off b) = bb_adv_interval_units b"
  "bb_pool (power_off b) = bb_pool b" "sc_window_ms (bb_scanner (power_off b)) = sc_window_ms (bb_scanner b)"
  "sc_interval_ms (bb_scanner (power_off b)) = sc_interval_ms (bb_scanner b)"
  "sc_active (bb_scanner (power_off b)) = sc_active (bb_scanner b)" "sc_present (bb_scanner (power_off b)) = sc_present (bb_scanner b)"
  by (auto simp: set_adv_interval_ms_def set_advertising_enabled_def apply_adv_state_def power_off_def stop_forwarding_def Let_def
      split: option.split)

lemma scan_frames [simp]:
  "sc_present (set_duty ok w i sc) = sc_present sc" "sc_present (set_active ok a sc) = sc_present sc"
  "sc_active (set_duty ok w i sc) = sc_active sc"
  "sc_window_ms (set_active ok a sc) = sc_window_ms sc" "sc_interval_ms (set_active ok a sc) = sc_interval_ms sc"
  "sc_present sc \<Longrightarrow> sc_window_ms (set_duty ok w i sc) = w" "sc_present sc \<Longrightarrow> sc_interval_ms (set_duty ok w i sc) = i"
  "sc_present sc \<Longrightarrow> sc_active (set_active ok a sc) = a"
  "sc_present (scanner_pause sc) = sc_present sc" "sc_present (scanner_resume ok sc) = sc_present sc"
  "sc_window_ms (scanner_pause sc) = sc_window_ms sc" "sc_window_ms (scanner_resume ok sc) = sc_window_ms sc"
  "sc_interval_ms (scanner_pause sc) = sc_interval_ms sc" "sc_interval_ms (scanner_resume ok sc) = sc_interval_ms sc"
  "sc_active (scanner_pause sc) = sc_active sc" "sc_active (scanner_resume ok sc) = sc_active sc"
  by (simp_all add: set_duty_def set_active_def restart_scan_def scanner_pause_def scanner_resume_def)

text \<open>The settings a store stands for: the stored values where they are valid, else the defaults.\<close>

definition nvs_int :: "nvs \<Rightarrow> string \<Rightarrow> int option" where
  "nvs_int n k = (case n NVS_NS k of Some (NV_i8 v) \<Rightarrow> Some v | _ \<Rightarrow> None)"

definition nvs_u16 :: "nvs \<Rightarrow> string \<Rightarrow> u16 option" where
  "nvs_u16 n k = (case n NVS_NS k of Some (NV_u16 v) \<Rightarrow> Some v | _ \<Rightarrow> None)"

definition or_default :: "'a option \<Rightarrow> 'a \<Rightarrow> 'a" where
  "or_default x d = (case x of Some v \<Rightarrow> v | None \<Rightarrow> d)"

definition stored_cpu :: "nvs \<Rightarrow> int \<times> bool \<times> bool" where
  "stored_cpu n =
     (let mhz = or_default (nvs_int n ''cpu_freq'') 24 * 10
      in (if mhz = 80 \<or> mhz = 160 \<or> mhz = 240 then mhz else 240,
          or_default (nvs_int n ''cpu_ls'') 0 \<noteq> 0, or_default (nvs_int n ''cpu_pd'') 0 \<noteq> 0))"

definition stored_li :: "nvs \<Rightarrow> int" where
  "stored_li n = (let v = or_default (nvs_int n ''wifi_li'') 0 in if 0 \<le> v \<and> v \<le> 10 then v else 0)"

definition stored_adv :: "nvs \<Rightarrow> u16 option" where
  "stored_adv n = (let v = or_default (nvs_u16 n ''adv_itvl'') 0 in if v = ADV_ITVL_OFF then None else Some (adv_units v))"

definition stored_scan :: "nvs \<Rightarrow> u16 \<times> u16 \<times> bool" where
  "stored_scan n =
     (let (w, i) = (case (nvs_u16 n ''scan_win'', nvs_u16 n ''scan_int'') of
                      (Some w, Some i) \<Rightarrow> if 20 \<le> w \<and> w \<le> i \<and> i \<le> 10000 then (w, i) else (30, 60)
                    | _ \<Rightarrow> (30, 60))
      in (w, i, or_default (nvs_int n ''scan_act'') 1 \<noteq> 0))"

definition nvs_settings :: "nvs \<Rightarrow> settings" where
  "nvs_settings n =
     \<lparr>sg_level = or_default (nvs_int n ''nimble_lvl'') 2, sg_wifi_tx = or_default (nvs_int n ''wifi_tx'') 20,
      sg_ble_tx = or_default (nvs_int n ''ble_tx'') 9, sg_cpu = stored_cpu n, sg_li = stored_li n,
      sg_passkey = (case n NVS_NS ''ble_passkey'' of Some (NV_u32 p) \<Rightarrow> p | _ \<Rightarrow> DEFAULT_PASSKEY),
      sg_adv = stored_adv n, sg_scan = stored_scan n\<rparr>"

lemma get_works:
  "nvs_works ne \<Longrightarrow> get_i8 ne NVS_NS k n = nvs_int n k" "nvs_works ne \<Longrightarrow> get_u16 ne NVS_NS k n = nvs_u16 n k"
  by (simp_all add: get_i8_def get_u16_def nvs_int_def nvs_u16_def)

lemma level_frames [simp]:
  "st_nimble_level (apply_level l st) = l" "st_wifi_tx_dbm (apply_level l st) = st_wifi_tx_dbm st"
  "st_ble_tx_dbm (apply_level l st) = st_ble_tx_dbm st" "st_cpu_freq_mhz (apply_level l st) = st_cpu_freq_mhz st"
  "st_light_sleep (apply_level l st) = st_light_sleep st" "st_cpu_pd (apply_level l st) = st_cpu_pd st"
  "st_wifi_li (apply_level l st) = st_wifi_li st" "st_ble (apply_level l st) = st_ble st"
  "st_nvs (apply_level l st) = st_nvs st" "st_hostname (apply_level l st) = st_hostname st"
  by (simp_all add: apply_level_def set_tags_def Let_def)

lemma tag_frames [simp]:
  "settings_of (set_tags ts l st) = settings_of st" "st_nvs (set_tags ts l st) = st_nvs st"
  "st_ble (set_tags ts l st) = st_ble st" "st_hostname (set_tags ts l st) = st_hostname st"
  by (simp_all add: set_tags_def settings_of_def)

text \<open>Each loader sets its part of the settings from the store and leaves the rest.\<close>

lemma boot_hostname: "settings_of (apply_hostname_from_nvs env st) = settings_of st"
  by (simp add: apply_hostname_from_nvs_def settings_of_def split: option.split)

lemma boot_log:
  "nvs_works (se_nvs env) \<Longrightarrow> settings_of (apply_log_overrides_from_nvs env st) =
     (settings_of st)\<lparr>sg_level := or_default (nvs_int (st_nvs st) ''nimble_lvl'') 2,
        sg_passkey := (case st_nvs st NVS_NS ''ble_passkey'' of Some (NV_u32 p) \<Rightarrow> p | _ \<Rightarrow> DEFAULT_PASSKEY)\<rparr>"
  by (simp add: apply_log_overrides_from_nvs_def settings_of_def nvs_read_i8_def get_works get_u32_def or_default_def
      set_passkey_def ESP_LOG_WARN_def Let_def split: option.split nvs_val.split)

lemma boot_cpu:
  "nvs_works (se_nvs env) \<Longrightarrow> sg_cpu (settings_of st) = (240, False, False) \<Longrightarrow>
   settings_of (apply_cpu_freq_from_nvs env st) = (settings_of st)\<lparr>sg_cpu := stored_cpu (st_nvs st)\<rparr>"
  by (simp add: apply_cpu_freq_from_nvs_def settings_of_def nvs_read_i8_def get_works or_default_def stored_cpu_def
      apply_cpu_freq_mhz_def Let_def split: option.split)

lemma boot_wifi_ps:
  "nvs_works (se_nvs env) \<Longrightarrow> sg_li (settings_of st) = 0 \<Longrightarrow>
   settings_of (apply_wifi_ps_from_nvs env st) = (settings_of st)\<lparr>sg_li := stored_li (st_nvs st)\<rparr>"
  by (simp add: apply_wifi_ps_from_nvs_def settings_of_def nvs_read_i8_def get_works or_default_def stored_li_def
      Let_def split: option.split)

lemma boot_adv:
  "nvs_works (se_nvs env) \<Longrightarrow> bb_adv_enabled (st_ble st) \<Longrightarrow>
   settings_of (apply_adv_interval_from_nvs env st) = (settings_of st)\<lparr>sg_adv := stored_adv (st_nvs st)\<rparr>"
  by (simp add: apply_adv_interval_from_nvs_def settings_of_def get_works or_default_def stored_adv_def
      set_adv_interval_units Let_def split: option.split)

lemma boot_tx:
  "nvs_works (se_nvs env) \<Longrightarrow> sg_wifi_tx (settings_of st) = 20 \<Longrightarrow> sg_ble_tx (settings_of st) = 9 \<Longrightarrow>
   settings_of (apply_tx_power_from_nvs env st) =
     (settings_of st)\<lparr>sg_wifi_tx := or_default (nvs_int (st_nvs st) ''wifi_tx'') 20, sg_ble_tx := or_default (nvs_int (st_nvs st) ''ble_tx'') 9\<rparr>"
  by (simp add: apply_tx_power_from_nvs_def settings_of_def nvs_read_i8_def get_works or_default_def
      apply_wifi_tx_dbm_def apply_ble_tx_dbm_def Let_def split: option.split)

lemma boot_scan:
  "nvs_works (se_nvs env) \<Longrightarrow> sg_scan (settings_of st) = (30, 60, True) \<Longrightarrow> sc_present (bb_scanner (st_ble st)) \<Longrightarrow>
   settings_of (apply_scan_from_nvs env st) = (settings_of st)\<lparr>sg_scan := stored_scan (st_nvs st)\<rparr>"
  by (simp add: apply_scan_from_nvs_def settings_of_def get_works or_default_def stored_scan_def
      Let_def split: option.split)

lemma boot_nvs [simp]:
  "st_nvs (apply_hostname_from_nvs env st) = st_nvs st" "st_nvs (apply_log_overrides_from_nvs env st) = st_nvs st"
  "st_nvs (apply_cpu_freq_from_nvs env st) = st_nvs st" "st_nvs (apply_wifi_ps_from_nvs env st) = st_nvs st"
  "st_nvs (apply_adv_interval_from_nvs env st) = st_nvs st" "st_nvs (apply_tx_power_from_nvs env st) = st_nvs st"
  "st_nvs (apply_scan_from_nvs env st) = st_nvs st"
  by (simp_all add: apply_hostname_from_nvs_def apply_log_overrides_from_nvs_def apply_cpu_freq_from_nvs_def
      apply_wifi_ps_from_nvs_def apply_adv_interval_from_nvs_def apply_tx_power_from_nvs_def apply_scan_from_nvs_def
      apply_wifi_tx_dbm_def apply_ble_tx_dbm_def apply_cpu_freq_mhz_def Let_def split: option.split)

lemma boot_ble [simp]:
  "st_ble (apply_hostname_from_nvs env st) = st_ble st"
  "bb_started (st_ble (apply_log_overrides_from_nvs env st)) = bb_started (st_ble st)"
  "bb_scanner (st_ble (apply_log_overrides_from_nvs env st)) = bb_scanner (st_ble st)"
  "bb_adv_enabled (st_ble (apply_log_overrides_from_nvs env st)) = bb_adv_enabled (st_ble st)"
  "st_ble (apply_cpu_freq_from_nvs env st) = st_ble st" "st_ble (apply_wifi_ps_from_nvs env st) = st_ble st"
  "bb_scanner (st_ble (apply_adv_interval_from_nvs env st)) = bb_scanner (st_ble st)"
  "st_ble (apply_tx_power_from_nvs env st) = st_ble st"
  by (simp_all add: apply_hostname_from_nvs_def apply_log_overrides_from_nvs_def apply_cpu_freq_from_nvs_def
      apply_wifi_ps_from_nvs_def apply_adv_interval_from_nvs_def apply_tx_power_from_nvs_def
      apply_wifi_tx_dbm_def apply_ble_tx_dbm_def apply_cpu_freq_mhz_def Let_def split: option.split)

lemma settings_ble_start:
  "settings_of (st\<lparr>st_ble := ble_start ok (st_ble st)\<rparr>) = settings_of st"
  by (simp add: settings_of_def ble_start_def scanner_start_def scanner_init_def Let_def)

lemma settings_log [simp]: "settings_of (st\<lparr>st_log := g\<rparr>) = settings_of st"
  by (simp add: settings_of_def)

text \<open>Booting over a store gives exactly the settings it stands for.\<close>

lemma boot_settings:
  assumes w: "nvs_works (se_nvs env)"
  shows "settings_of (stats_boot env n) = nvs_settings n \<and> sc_present (bb_scanner (st_ble (stats_boot env n))) \<and>
         st_nvs (stats_boot env n) = n"
proof -
  define s1 where "s1 = (stats_initial n)\<lparr>st_log := install_log_hook (st_log (stats_initial n))\<rparr>"
  define s2 where "s2 = apply_hostname_from_nvs env s1"
  define s3 where "s3 = apply_log_overrides_from_nvs env s2"
  define s4 where "s4 = apply_cpu_freq_from_nvs env s3"
  define s5 where "s5 = apply_wifi_ps_from_nvs env s4"
  define s6 where "s6 = s5\<lparr>st_ble := ble_start (se_radio_ok env) (st_ble s5)\<rparr>"
  define s7 where "s7 = apply_adv_interval_from_nvs env s6"
  define s8 where "s8 = apply_tx_power_from_nvs env s7"
  note ds = s2_def s3_def s4_def s5_def s6_def s7_def s8_def
  have b: "stats_boot env n = apply_scan_from_nvs env s8"
    by (simp only: stats_boot_def Let_def ds s1_def)
  have nv: "st_nvs s1 = n" "st_nvs s2 = n" "st_nvs s3 = n" "st_nvs s4 = n" "st_nvs s5 = n" "st_nvs s6 = n" "st_nvs s7 = n" "st_nvs s8 = n"
    by (simp_all add: ds s1_def stats_initial_def)
  have i: "settings_of s1 = \<lparr>sg_level = 2, sg_wifi_tx = 20, sg_ble_tx = 9, sg_cpu = (240, False, False), sg_li = 0,
      sg_passkey = 123456, sg_adv = Some 0, sg_scan = (30, 60, True)\<rparr>"
    by (simp add: s1_def settings_of_def stats_initial_def ble_initial_def initial_pool_def scanner_initial_def ESP_LOG_WARN_def)
  have fresh: "\<not> bb_started (st_ble s5)" "bb_adv_enabled (st_ble s5)"
    by (simp_all add: ds s1_def stats_initial_def ble_initial_def)
  have e: "settings_of s2 = settings_of s1" by (simp add: s2_def boot_hostname)
  have c: "sc_present (bb_scanner (st_ble s6))" "bb_adv_enabled (st_ble s6)"
    using fresh by (simp_all add: s6_def ble_start_def scanner_init_def scanner_start_def)
  have p8: "sc_present (bb_scanner (st_ble s8))" using c by (simp add: s8_def s7_def)
  have e3: "settings_of s3 = (settings_of s1)\<lparr>sg_level := sg_level (nvs_settings n), sg_passkey := sg_passkey (nvs_settings n)\<rparr>"
    by (simp add: s3_def boot_log [OF w] e nv nvs_settings_def)
  have e4: "settings_of s4 = (settings_of s3)\<lparr>sg_cpu := stored_cpu n\<rparr>"
    by (simp add: s4_def boot_cpu [OF w] e3 i nv)
  have e5: "settings_of s5 = (settings_of s4)\<lparr>sg_li := stored_li n\<rparr>"
    by (simp add: s5_def boot_wifi_ps [OF w] e4 e3 i nv)
  have e6: "settings_of s6 = settings_of s5" by (simp add: s6_def settings_ble_start)
  have e7: "settings_of s7 = (settings_of s6)\<lparr>sg_adv := stored_adv n\<rparr>"
    by (simp add: s7_def boot_adv [OF w c(2)] nv)
  have e8: "settings_of s8 = (settings_of s7)\<lparr>sg_wifi_tx := sg_wifi_tx (nvs_settings n), sg_ble_tx := sg_ble_tx (nvs_settings n)\<rparr>"
    by (simp add: s8_def boot_tx [OF w] e7 e6 e5 e4 e3 i nv nvs_settings_def)
  have "settings_of (apply_scan_from_nvs env s8) = (settings_of s8)\<lparr>sg_scan := stored_scan n\<rparr>"
    using p8 by (simp add: boot_scan [OF w] e8 e7 e6 e5 e4 e3 i nv)
  then have "settings_of (stats_boot env n) = nvs_settings n"
    by (simp add: b e8 e7 e6 e5 e4 e3 i nvs_settings_def)
  moreover have "sc_present (bb_scanner (st_ble (stats_boot env n)))"
    using p8 by (simp add: b apply_scan_from_nvs_def Let_def split: option.split)
  ultimately show ?thesis by (simp add: b nv)
qed

section \<open>The setters keep store and settings together\<close>

lemma nvs_put_lookup [simp]:
  "nvs_int (nvs_put NVS_NS k v n) k' = (if k = k' then (case v of NV_i8 i \<Rightarrow> Some i | _ \<Rightarrow> None) else nvs_int n k')"
  "nvs_u16 (nvs_put NVS_NS k v n) k' = (if k = k' then (case v of NV_u16 i \<Rightarrow> Some i | _ \<Rightarrow> None) else nvs_u16 n k')"
  by (simp_all add: nvs_int_def nvs_u16_def nvs_put_def)

lemma nvs_put_at: "nvs_put NVS_NS k v n NVS_NS k' = (if k = k' then Some v else n NVS_NS k')"
  by (simp add: nvs_put_def)

lemmas stored_defs = nvs_settings_def stored_cpu_def stored_li_def stored_adv_def stored_scan_def or_default_def

lemma to_int8_id [simp]: "-128 \<le> i \<Longrightarrow> i < 128 \<Longrightarrow> to_int8 i = i"
  by (simp add: to_int8_def signed_of_int signed_take_bit_int_eq_self)

text \<open>What storing one value does to the settings a store stands for.\<close>

lemma settings_put:
  "nvs_settings (nvs_put NVS_NS ''nimble_lvl'' (NV_i8 i) n) = (nvs_settings n)\<lparr>sg_level := i\<rparr>"
  "nvs_settings (nvs_put NVS_NS ''wifi_tx'' (NV_i8 i) n) = (nvs_settings n)\<lparr>sg_wifi_tx := i\<rparr>"
  "nvs_settings (nvs_put NVS_NS ''ble_tx'' (NV_i8 i) n) = (nvs_settings n)\<lparr>sg_ble_tx := i\<rparr>"
  "nvs_settings (nvs_put NVS_NS ''ble_passkey'' (NV_u32 pin) n) = (nvs_settings n)\<lparr>sg_passkey := pin\<rparr>"
  "nvs_settings (nvs_put NVS_NS ''hostname'' (NV_str h) n) = nvs_settings n"
  "nvs_settings (nvs_put NVS_NS ''scan_act'' (NV_i8 i) n) =
     (nvs_settings n)\<lparr>sg_scan := (fst (sg_scan (nvs_settings n)), fst (snd (sg_scan (nvs_settings n))), i \<noteq> 0)\<rparr>"
  by (simp_all add: stored_defs nvs_put_at Let_def split: prod.split)

lemma settings_put_li:
  "0 \<le> i \<Longrightarrow> i \<le> 10 \<Longrightarrow> nvs_settings (nvs_put NVS_NS ''wifi_li'' (NV_i8 i) n) = (nvs_settings n)\<lparr>sg_li := i\<rparr>"
  by (simp add: stored_defs nvs_put_at Let_def)

lemma settings_put_adv:
  "nvs_settings (nvs_put NVS_NS ''adv_itvl'' (NV_u16 w) n) =
     (nvs_settings n)\<lparr>sg_adv := (if w = ADV_ITVL_OFF then None else Some (adv_units w))\<rparr>"
  by (simp add: stored_defs nvs_put_at Let_def)

lemma settings_put_scan:
  "20 \<le> w \<Longrightarrow> w \<le> i \<Longrightarrow> i \<le> 10000 \<Longrightarrow>
   nvs_settings (nvs_put NVS_NS ''scan_int'' (NV_u16 i) (nvs_put NVS_NS ''scan_win'' (NV_u16 w) n)) =
     (nvs_settings n)\<lparr>sg_scan := (w, i, snd (snd (sg_scan (nvs_settings n))))\<rparr>"
  by (simp add: stored_defs nvs_put_at Let_def split: prod.split)

lemma settings_put_cpu:
  "mhz = 80 \<or> mhz = 160 \<or> mhz = 240 \<Longrightarrow>
   nvs_settings (nvs_put NVS_NS ''cpu_pd'' (NV_i8 c) (nvs_put NVS_NS ''cpu_ls'' (NV_i8 b) (nvs_put NVS_NS ''cpu_freq'' (NV_i8 (mhz div 10)) n))) =
     (nvs_settings n)\<lparr>sg_cpu := (mhz, b \<noteq> 0, c \<noteq> 0)\<rparr>"
  by (auto simp add: stored_defs nvs_put_at Let_def)

lemma stored_cpu_valid: "fst (stored_cpu n) = 80 \<or> fst (stored_cpu n) = 160 \<or> fst (stored_cpu n) = 240"
  by (simp add: stored_cpu_def Let_def)

definition synced :: "stats_state \<Rightarrow> bool" where
  "synced st \<longleftrightarrow> settings_of st = nvs_settings (st_nvs st) \<and> sc_present (bb_scanner (st_ble st))"

lemma settings_upd [simp]:
  "settings_of (st\<lparr>st_nvs := n\<rparr>) = settings_of st" "settings_of (st\<lparr>st_wifi_off := x\<rparr>) = settings_of st"
  "settings_of (st\<lparr>st_wifi_power := p\<rparr>) = settings_of st" "settings_of (st\<lparr>st_ble_power := q\<rparr>) = settings_of st"
  "settings_of (st\<lparr>st_wifi_ps_max := x\<rparr>) = settings_of st"
  "settings_of (apply_level l st) = (settings_of st)\<lparr>sg_level := l\<rparr>"
  "settings_of (st\<lparr>st_wifi_tx_dbm := d\<rparr>) = (settings_of st)\<lparr>sg_wifi_tx := d\<rparr>"
  "settings_of (st\<lparr>st_ble_tx_dbm := d\<rparr>) = (settings_of st)\<lparr>sg_ble_tx := d\<rparr>"
  "settings_of (st\<lparr>st_wifi_li := d\<rparr>) = (settings_of st)\<lparr>sg_li := d\<rparr>"
  "settings_of (st\<lparr>st_ble := b\<rparr>) = (settings_of st)\<lparr>sg_passkey := cp_passkey (bb_pool b),
     sg_adv := (if bb_adv_enabled b then Some (bb_adv_interval_units b) else None),
     sg_scan := (let sc = bb_scanner b in (sc_window_ms sc, sc_interval_ms sc, sc_active sc))\<rparr>"
  by (simp_all add: settings_of_def)

lemma settings_scanner:
  "settings_of (st\<lparr>st_nvs := n, st_ble := (st_ble st)\<lparr>bb_scanner := sc\<rparr>\<rparr>) =
     (settings_of st)\<lparr>sg_scan := (sc_window_ms sc, sc_interval_ms sc, sc_active sc)\<rparr>"
  by (simp add: settings_of_def)

lemma synced_fields:
  assumes "synced st"
  shows "cp_passkey (bb_pool (st_ble st)) = sg_passkey (nvs_settings (st_nvs st))"
    and "(if bb_adv_enabled (st_ble st) then Some (bb_adv_interval_units (st_ble st)) else None) = sg_adv (nvs_settings (st_nvs st))"
    and "(sc_window_ms (bb_scanner (st_ble st)), sc_interval_ms (bb_scanner (st_ble st)), sc_active (bb_scanner (st_ble st))) =
         sg_scan (nvs_settings (st_nvs st))"
    and "st_nimble_level st = sg_level (nvs_settings (st_nvs st))"
    and "(st_cpu_freq_mhz st, st_light_sleep st, st_cpu_pd st) = stored_cpu (st_nvs st)"
proof -
  have s: "nvs_settings (st_nvs st) = settings_of st" using assms by (simp add: synced_def)
  show "cp_passkey (bb_pool (st_ble st)) = sg_passkey (nvs_settings (st_nvs st))"
    and "(if bb_adv_enabled (st_ble st) then Some (bb_adv_interval_units (st_ble st)) else None) = sg_adv (nvs_settings (st_nvs st))"
    and "(sc_window_ms (bb_scanner (st_ble st)), sc_interval_ms (bb_scanner (st_ble st)), sc_active (bb_scanner (st_ble st))) =
         sg_scan (nvs_settings (st_nvs st))"
    and "st_nimble_level st = sg_level (nvs_settings (st_nvs st))"
    unfolding s by (simp_all add: settings_of_def Let_def)
  have "stored_cpu (st_nvs st) = sg_cpu (nvs_settings (st_nvs st))" by (simp add: nvs_settings_def)
  then show "(st_cpu_freq_mhz st, st_light_sleep st, st_cpu_pd st) = stored_cpu (st_nvs st)"
    unfolding s by (simp add: settings_of_def)
qed

lemma synced_level: "nvs_works (se_nvs env) \<Longrightarrow> synced st \<Longrightarrow> synced (fst (handle_level_set env kv st))"
  by (auto simp: handle_level_set_def nvs_write_i8_def synced_def settings_put ESP_LOG_NONE_def ESP_LOG_VERBOSE_def
      Let_def split: option.split)

lemma synced_txpower: "nvs_works (se_nvs env) \<Longrightarrow> synced st \<Longrightarrow> synced (fst (handle_txpower_set env kv st))"
proof -
  assume w: "nvs_works (se_nvs env)" and s: "synced st"
  have a: "synced st' \<Longrightarrow> synced (fst (txpower_wifi env kv st'))" for st' using w
    by (auto simp: txpower_wifi_def apply_wifi_tx_dbm_def nvs_write_i8_def synced_def settings_put Let_def split: option.split)
  have b: "synced (fst (txpower_ble env kv st'))" if "synced st'" for st'
    using w that synced_fields [OF that]
    by (auto simp: txpower_ble_def apply_ble_tx_dbm_def nvs_write_i8_def synced_def settings_put Let_def split: option.split)
  show ?thesis using a [OF s] b [of "fst (txpower_wifi env kv st)"]
    by (auto simp: handle_txpower_set_def split: prod.splits sum.splits)
qed

lemma synced_wifips: "nvs_works (se_nvs env) \<Longrightarrow> synced st \<Longrightarrow> synced (fst (handle_wifips_set env kv st))"
  by (auto simp: handle_wifips_set_def nvs_write_i8_def synced_def settings_put_li Let_def split: option.split)

lemma synced_hostname: "nvs_works (se_nvs env) \<Longrightarrow> synced st \<Longrightarrow> synced (fst (handle_hostname_set env kv st))"
  by (auto simp: handle_hostname_set_def synced_def settings_put Let_def split: option.split)

lemma synced_passkey: "nvs_works (se_nvs env) \<Longrightarrow> synced st \<Longrightarrow> synced (fst (stats_set_passkey env pin st))"
  using synced_fields [of st] by (auto simp: stats_set_passkey_def synced_def settings_put set_passkey_def Let_def)

lemma synced_trace: "synced st \<Longrightarrow> synced (fst (handle_trace_set env kv st))"
  using synced_fields [of st] by (auto simp: handle_trace_set_def synced_def Let_def intro!: settings.equality)


lemma synced_advitvl: "nvs_works (se_nvs env) \<Longrightarrow> synced st \<Longrightarrow> synced (fst (handle_advitvl_set env kv st))"
proof -
  assume w: "nvs_works (se_nvs env)" and s: "synced st"
  have n: "word_of_int i \<noteq> ADV_ITVL_OFF" if "0 \<le> i" "i \<le> 10240" for i
  proof
    assume "word_of_int i = ADV_ITVL_OFF"
    then have "uint (word_of_int i :: u16) = 65535" by (simp add: ADV_ITVL_OFF_def)
    then show False using that by (simp add: unsigned_of_int take_bit_int_eq_self)
  qed
  have rw: "ne_open_rw (se_nvs env) NVS_NS" using w by (simp add: nvs_works_def)
  show ?thesis using w s synced_fields [OF s] rw
    by (auto simp: handle_advitvl_set_def synced_def settings_put_adv set_adv_interval_units n Let_def
        split: option.split intro!: settings.equality)
qed

lemma synced_cpufreq: "nvs_works (se_nvs env) \<Longrightarrow> se_pm_ok env \<Longrightarrow> synced st \<Longrightarrow> synced (fst (handle_cpufreq_set env kv st))"
proof -
  assume w: "nvs_works (se_nvs env)" and pm: "se_pm_ok env" and s: "synced st"
  define mhz where "mhz = (case kv ''mhz'' 8 of Some v \<Rightarrow> c_atoi v | None \<Rightarrow> st_cpu_freq_mhz st)"
  define ls where "ls = (case kv ''ls'' 8 of Some v \<Rightarrow> c_atoi v \<noteq> 0 | None \<Rightarrow> st_light_sleep st)"
  define pd where "pd = (case kv ''pdcpu'' 8 of Some v \<Rightarrow> c_atoi v \<noteq> 0 | None \<Rightarrow> st_cpu_pd st)"
  have cur: "st_cpu_freq_mhz st = 80 \<or> st_cpu_freq_mhz st = 160 \<or> st_cpu_freq_mhz st = 240"
    using stored_cpu_valid [of "st_nvs st"] synced_fields(5) [OF s] by (metis fst_conv)
  show ?thesis
  proof (cases "kv ''mhz'' 8 \<noteq> None \<and> mhz \<noteq> 80 \<and> mhz \<noteq> 160 \<and> mhz \<noteq> 240")
    case True
    then show ?thesis using s by (simp add: handle_cpufreq_set_def mhz_def)
  next
    case False
    then have ok: "mhz = 80 \<or> mhz = 160 \<or> mhz = 240" using cur by (auto simp: mhz_def)
    show ?thesis
    proof (cases "kv ''mhz'' 8 = None \<and> kv ''ls'' 8 = None \<and> kv ''pdcpu'' 8 = None")
      case True
      then show ?thesis using s by (simp add: handle_cpufreq_set_def Let_def)
    next
      case F: False
      have st: "(case kv ''pdcpu'' 8 of Some v \<Rightarrow> st\<lparr>st_cpu_pd := (c_atoi v \<noteq> 0)\<rparr> | None \<Rightarrow> st) = st\<lparr>st_cpu_pd := pd\<rparr>"
        by (simp add: pd_def split: option.split)
      let ?n = "nvs_put NVS_NS ''cpu_pd'' (NV_i8 (if pd then 1 else 0)) (nvs_put NVS_NS ''cpu_ls'' (NV_i8 (if ls then 1 else 0))
                  (nvs_put NVS_NS ''cpu_freq'' (NV_i8 (mhz div 10)) (st_nvs st)))"
      have "fst (handle_cpufreq_set env kv st) =
          st\<lparr>st_cpu_pd := pd, st_pm := Some (mhz, ls), st_light_sleep := ls, st_cpu_pd_auto := pd, st_cpu_freq_mhz := mhz, st_nvs := ?n\<rparr>"
        unfolding handle_cpufreq_set_def mhz_def [symmetric] ls_def [symmetric] st Let_def if_not_P [OF False] if_not_P [OF F]
        using w pm ok by (auto simp: apply_cpu_freq_mhz_def nvs_write_i8_def)
      moreover have "settings_of (st\<lparr>st_cpu_pd := pd, st_pm := Some (mhz, ls), st_light_sleep := ls, st_cpu_pd_auto := pd,
          st_cpu_freq_mhz := mhz, st_nvs := ?n\<rparr>) = (settings_of st)\<lparr>sg_cpu := (mhz, ls, pd)\<rparr>"
        by (simp add: settings_of_def)
      ultimately show ?thesis using s by (simp add: synced_def settings_put_cpu [OF ok])
    qed
  qed
qed

lemma synced_scan: "nvs_works (se_nvs env) \<Longrightarrow> synced st \<Longrightarrow> synced (fst (handle_scan_set env kv st))"
proof -
  assume w: "nvs_works (se_nvs env)" and s: "synced st"
  have rng: "(20 :: u16) \<le> word_of_int a \<and> word_of_int a \<le> (word_of_int b :: u16) \<and> word_of_int b \<le> (10000 :: u16)"
    if "\<not> a < 20" "\<not> a > b" "\<not> b > 10000" for a b
  proof -
    have "uint (word_of_int a :: u16) = a" "uint (word_of_int b :: u16) = b"
      using that by (simp_all add: unsigned_of_int take_bit_int_eq_self)
    then show ?thesis using that by (simp add: word_le_def)
  qed
  have d: "sc_window_ms (bb_scanner (st_ble st)) = fst (sg_scan (nvs_settings (st_nvs st)))"
    "sc_interval_ms (bb_scanner (st_ble st)) = fst (snd (sg_scan (nvs_settings (st_nvs st))))"
    "sc_active (bb_scanner (st_ble st)) = snd (snd (sg_scan (nvs_settings (st_nvs st))))"
    using synced_fields(3) [OF s] by (metis fst_conv snd_conv)+
  define win where "win = (case kv ''window'' 8 of Some v \<Rightarrow> c_atoi v | None \<Rightarrow> uint (sc_window_ms (bb_scanner (st_ble st))))"
  define itv where "itv = (case kv ''interval'' 8 of Some v \<Rightarrow> c_atoi v | None \<Rightarrow> uint (sc_interval_ms (bb_scanner (st_ble st))))"
  define act where "act = (case kv ''active'' 8 of Some v \<Rightarrow> c_atoi v \<noteq> 0 | None \<Rightarrow> sc_active (bb_scanner (st_ble st)))"
  define dc where "dc = (kv ''window'' 8 \<noteq> None \<or> kv ''interval'' 8 \<noteq> None)"
  define ac where "ac = (kv ''active'' 8 \<noteq> None)"
  note hs = handle_scan_set_def [of env kv st, unfolded Let_def, folded win_def itv_def act_def dc_def ac_def]
  have S: "settings_of st = nvs_settings (st_nvs st)" "sc_present (bb_scanner (st_ble st))" using s by (simp_all add: synced_def)
  consider "\<not> dc" "\<not> ac" | "dc" "win < 20 \<or> win > 10000 \<or> itv < 20 \<or> itv > 10000 \<or> win > itv"
    | "dc" "\<not> win < 20" "\<not> win > itv" "\<not> itv > 10000" "\<not> win > 10000" "\<not> itv < 20" | "\<not> dc" "ac" by blast
  then show ?thesis
  proof cases
    case 1
    then show ?thesis unfolding hs using s by (simp only: simp_thms if_True fst_conv)
  next
    case 2
    then show ?thesis unfolding hs using s by (elim disjE) (simp_all only: simp_thms if_True if_False fst_conv if_cancel if_distrib [of fst])
  next
    case 3
    note r = rng [OF 3(2-4)]
    show ?thesis unfolding hs using 3 r w S d(3)
      by (cases ac) (simp_all add: synced_def settings_put settings_put_scan settings_scanner del: settings_upd(10) not_less)
  next
    case 4
    then show ?thesis unfolding hs using w S d(1,2)
      by (simp add: synced_def settings_put settings_scanner del: settings_upd(10))
  qed
qed

lemma synced_setting:
  assumes "nvs_works (se_nvs env)" "se_pm_ok env" "synced st"
  shows "synced (fst (handle_setting env s kv st))"
  using assms by (cases s) (simp_all add: handle_setting_def synced_level synced_txpower synced_cpufreq synced_advitvl
      synced_wifips synced_hostname synced_scan synced_trace synced_passkey)

lemma synced_settings:
  "nvs_works (se_nvs env) \<Longrightarrow> se_pm_ok env \<Longrightarrow> synced st \<Longrightarrow> synced (handle_settings env rs st)"
  by (induction rs arbitrary: st) (auto simp: synced_setting)

lemma synced_boot: "nvs_works (se_nvs env) \<Longrightarrow> synced (stats_boot env n)"
  using boot_settings [of env n] by (simp add: synced_def)

section \<open>Properties\<close>

text \<open>C20: Settings survive a reboot. Whatever the store held at boot and whatever requests came in since, valid or
  not, in any order and over any setting, booting again over the store restores exactly the settings in force: log
  level, transmit powers, CPU clock and sleep modes, Wi-Fi listen interval, passkey, advertising and scan duty.
  (Switching a radio off is deliberately not persisted and is not part of the settings.)\<close>

theorem settings_survive_reboot:
  assumes "nvs_works (se_nvs env)" "se_pm_ok env"
    and "st = handle_settings env rs (stats_boot env n)"
  shows "settings_of (stats_boot env (st_nvs st)) = settings_of st"
proof -
  have "synced st" unfolding assms(3) by (rule synced_settings [OF assms(1,2) synced_boot [OF assms(1)]])
  then show ?thesis using boot_settings [OF assms(1), of "st_nvs st"] by (simp add: synced_def)
qed

definition good_env :: stats_env where
  "good_env = \<lparr>se_nvs = good_nvs, se_pm_ok = True, se_wifi_stop = ESP_OK, se_wifi_tx_ok = True, se_ble_tx_ok = True, se_radio_ok = True\<rparr>"

theorem settings_survive_reboot_witness:
  "let st = handle_settings good_env [(Set_wifips, \<lambda>_ _. Some ''3''), (Set_level, \<lambda>_ _. Some ''9'')] (stats_boot good_env (\<lambda>_ _. None))
   in settings_of (stats_boot good_env (st_nvs st)) = settings_of st"
  using settings_survive_reboot [of good_env _ "[(Set_wifips, \<lambda>_ _. Some ''3''), (Set_level, \<lambda>_ _. Some ''9'')]" "\<lambda>_ _. None"]
  by (simp add: good_env_def good_nvs_works Let_def)

text \<open>C21: A refused request has no effect. When the setter of the log level, the advertising interval, the Wi-Fi
  power save, the host name, the scan duty or the passkey answers with an error (missing or out-of-range value, or a
  store that cannot be written), neither the store, nor the running configuration, nor a radio has changed.\<close>

theorem refused_setting_harmless:
  assumes "handle_setting env s kv st = (st', Some e)" "s \<noteq> Set_txpower" "s \<noteq> Set_cpufreq"
  shows "st' = st"
proof (cases s)
  case Set_level
  then show ?thesis using assms(1)
    by (auto simp: handle_setting_def handle_level_set_def nvs_write_i8_def Let_def dest: nvs_write_False
        split: option.splits if_splits prod.splits bool.splits)
next
  case Set_advitvl
  then show ?thesis using assms(1)
    by (auto simp: handle_setting_def handle_advitvl_set_def Let_def split: option.splits if_splits prod.splits bool.splits)
next
  case Set_wifips
  then show ?thesis using assms(1)
    by (auto simp: handle_setting_def handle_wifips_set_def nvs_write_i8_def Let_def dest: nvs_write_False
        split: option.splits if_splits prod.splits bool.splits)
next
  case Set_hostname
  then show ?thesis using assms(1)
    by (auto simp: handle_setting_def handle_hostname_set_def Let_def split: option.splits if_splits prod.splits bool.splits)
next
  case Set_scan
  then show ?thesis using assms(1)
    unfolding handle_setting_def setting.case handle_scan_set_def Let_def by (simp split: if_splits)
next
  case (Set_passkey pin)
  then show ?thesis using assms(1)
    by (auto simp: handle_setting_def stats_set_passkey_def Let_def split: if_splits prod.splits bool.splits)
qed (use assms in \<open>simp_all add: handle_setting_def\<close>)

theorem refused_setting_harmless_witness:
  "fst (handle_setting good_env Set_level (\<lambda>_ _. Some ''9'') (stats_boot good_env (\<lambda>_ _. None))) = stats_boot good_env (\<lambda>_ _. None)"
proof -
  have "c_atoi ''9'' = 9" by code_simp
  then have "handle_setting good_env Set_level (\<lambda>_ _. Some ''9'') st = (st, Some ''level out of range'')" for st
    by (simp add: handle_setting_def handle_level_set_def ESP_LOG_VERBOSE_def ESP_LOG_NONE_def)
  from refused_setting_harmless [OF this] this show ?thesis by simp
qed

text \<open>Two requests that are refused do have effects. A \<^verbatim>\<open>pdcpu\<close> change stays in force when the CPU frequency
  cannot be applied, although the request is answered by an error and nothing is stored; and a transmit-power request
  whose BLE part is refused has already applied and stored its Wi-Fi part.\<close>

theorem refused_settings_with_effects:
  "(let r = handle_cpufreq_set (good_env\<lparr>se_pm_ok := False\<rparr>) (\<lambda>k _. if k = ''pdcpu'' then Some ''1'' else None) (stats_initial n)
    in snd r = Some ''cpu freq apply failed'' \<and> st_cpu_pd (fst r) \<and> \<not> st_cpu_pd (stats_initial n) \<and> st_nvs (fst r) = n) \<and>
   (let r = handle_txpower_set good_env (\<lambda>k _. if k = ''wifi'' then Some ''5'' else if k = ''ble'' then Some ''99'' else None) (stats_initial n)
    in snd r = Some ''ble -12..9 or off'' \<and> st_wifi_tx_dbm (fst r) = 5 \<and> st_nvs (fst r) NVS_NS ''wifi_tx'' = Some (NV_i8 5))"
proof -
  have a: "c_atoi ''1'' = 1" "c_atoi ''5'' = 5" "c_atoi ''99'' = 99" by code_simp+
  show ?thesis
    by (simp add: handle_cpufreq_set_def handle_txpower_set_def txpower_wifi_def txpower_ble_def apply_cpu_freq_mhz_def
        apply_wifi_tx_dbm_def nvs_write_i8_def good_env_def good_nvs_works stats_initial_def a Let_def)
qed

text \<open>Host names. A name is accepted exactly when it has 1 to 30 of the allowed characters and neither begins nor
  ends with a hyphen or a dot; an accepted new name is in the store and is the host name after the next boot, and
  every name a boot can load is a valid one.\<close>

theorem hostname_accepted:
  assumes "nvs_works (se_nvs env)" "kv ''val'' 31 = Some v" "v \<noteq> st_hostname st" "is_valid_hostname (st_hostname st)"
  shows "(snd (handle_hostname_set env kv st) = None) = is_valid_hostname v \<and>
         (is_valid_hostname v \<longrightarrow> st_hostname (apply_hostname_from_nvs env (fst (handle_hostname_set env kv st))) = v) \<and>
         is_valid_hostname (st_hostname (apply_hostname_from_nvs env st)) \<and>
         length (st_hostname (apply_hostname_from_nvs env st)) \<le> 30"
proof -
  have rw: "ne_open_rw (se_nvs env) NVS_NS" using assms(1) by (simp add: nvs_works_def)
  have l: "length s \<le> 30" if "is_valid_hostname s" for s using that by (simp add: is_valid_hostname_def HOSTNAME_MAX_def)
  have v: "is_valid_hostname (st_hostname (apply_hostname_from_nvs env st))"
    using assms(4) by (simp add: apply_hostname_from_nvs_def split: option.split)
  show ?thesis using assms(1-3) rw v l [OF v] l [of v]
    by (auto simp: handle_hostname_set_def apply_hostname_from_nvs_def get_str_def HOSTNAME_MAX_def)
qed

theorem hostname_accepted_witness:
  "st_hostname (apply_hostname_from_nvs good_env (fst (handle_hostname_set good_env (\<lambda>_ _. Some ''attic.2'') (stats_initial (\<lambda>_ _. None))))) = ''attic.2''"
proof -
  have "is_valid_hostname ''attic.2''" "is_valid_hostname DEFAULT_HOSTNAME" "''attic.2'' \<noteq> DEFAULT_HOSTNAME" by code_simp+
  then show ?thesis
    using hostname_accepted [of good_env "\<lambda>_ _. Some ''attic.2''" "''attic.2''" "stats_initial (\<lambda>_ _. None)"]
    by (simp add: good_env_def good_nvs_works stats_initial_def)
qed

text \<open>Taking back a rename does not take it back. A new name is stored for the next boot; asking for the running
  name again before that is answered by success without touching the store, so the device comes up under the name that
  was taken back.\<close>

theorem hostname_revert_lost:
  assumes "nvs_works (se_nvs env)" "is_valid_hostname v" "v \<noteq> st_hostname st" "is_valid_hostname (st_hostname st)"
    and "handle_hostname_set env (\<lambda>_ _. Some v) st = (st1, e1)"
    and "handle_hostname_set env (\<lambda>_ _. Some (st_hostname st)) st1 = (st2, e2)"
  shows "e1 = None \<and> e2 = None \<and> st_hostname (apply_hostname_from_nvs env st2) = v"
proof -
  have rw: "ne_open_rw (se_nvs env) NVS_NS" using assms(1) by (simp add: nvs_works_def)
  have "length v \<le> 30" using assms(2) by (simp add: is_valid_hostname_def HOSTNAME_MAX_def)
  then show ?thesis using assms rw
    by (auto simp: handle_hostname_set_def apply_hostname_from_nvs_def get_str_def HOSTNAME_MAX_def)
qed

theorem hostname_revert_lost_witness:
  "let st = stats_initial (\<lambda>_ _. None);
       st1 = fst (handle_hostname_set good_env (\<lambda>_ _. Some ''attic'') st);
       st2 = fst (handle_hostname_set good_env (\<lambda>_ _. Some (st_hostname st)) st1)
   in st_hostname (apply_hostname_from_nvs good_env st2) = ''attic''"
proof -
  have "is_valid_hostname ''attic''" "is_valid_hostname DEFAULT_HOSTNAME" "''attic'' \<noteq> DEFAULT_HOSTNAME" by code_simp+
  then show ?thesis
    using hostname_revert_lost [of good_env "''attic''" "stats_initial (\<lambda>_ _. None)", OF _ _ _ _ prod.collapse [symmetric] prod.collapse [symmetric]]
    by (simp add: good_env_def good_nvs_works stats_initial_def Let_def)
qed

end
