(* ===== verification/Devices_Json.thy ===== *)
theory Devices_Json
  imports Httpd Handshake Scanner Bthome
begin

text \<open>
  The device list of the dashboard, \<open>build_devices_json\<close> of \<^verbatim>\<open>components/api_server/stats.cpp\<close>: a JSON text
  written piece by piece into a fixed buffer. Each piece is cut to the room that is left, single characters are
  guarded by hand, and the name of a device is escaped character by character. The buffer is the text written so
  far; \<open>cap\<close> is its size.
\<close>

section \<open>Writing into the buffer\<close>

definition room_left :: "nat \<Rightarrow> string \<Rightarrow> nat" where
  "room_left cap out = cap - length out"

text \<open>\<open>bump(snprintf(p, room_left(), ...))\<close>: nothing without room, otherwise what fits before the terminator.\<close>

definition bump :: "nat \<Rightarrow> string \<Rightarrow> string \<Rightarrow> string" where
  "bump cap s out =
     (let r = room_left cap out in if r = 0 then out else out @ take (if length s < r then length s else r - 1) s)"

definition put_if :: "nat \<Rightarrow> nat \<Rightarrow> string \<Rightarrow> string \<Rightarrow> string" where
  "put_if cap k cs out = (if room_left cap out \<ge> k then out @ cs else out)"

definition unicode_escape :: "char \<Rightarrow> string" where
  "unicode_escape c = CHR 0x5C # ''u00'' @ [hex_lower (of_char c div 16), hex_lower (of_char c mod 16)]"

fun emit_name :: "nat \<Rightarrow> string \<Rightarrow> string \<Rightarrow> string" where
  "emit_name cap [] out = out"
| "emit_name cap (c # cs) out =
     (if room_left cap out > 8 then
        emit_name cap cs
          (if c = CHR 0x22 \<or> c = CHR 0x5C then out @ [CHR 0x5C, c]
           else if (of_char c :: nat) < 0x20 then bump cap (unicode_escape c) out
           else out @ [c])
      else out)"

section \<open>A row\<close>

definition addr_text :: "u64 \<Rightarrow> string" where
  "addr_text a = join_colon (map (\<lambda>k. hex_byte (ucast (drop_bit ((5 - k) * 8) a AND 0xFF))) [0..<6])"

definition row_head :: "bool \<Rightarrow> u32 \<Rightarrow> device_row \<Rightarrow> string" where
  "row_head first now r =
     (if first then '''' else '','') @ ''{\"addr\":\"'' @ addr_text (dv_addr r) @ ''\",\"type\":'' @ show_nat (unat (dv_addr_type r)) @
     '',\"rssi\":'' @ show_int (dv_rssi r) @ '',\"count\":'' @ show_nat (unat (dv_adv_count r)) @
     '',\"age\":'' @ show_nat (unat (now - dv_last_ms r)) @ '',\"name\":\"''"

definition emit_kv :: "nat \<Rightarrow> string \<Rightarrow> string \<Rightarrow> bool \<times> string \<Rightarrow> bool \<times> string" where
  "emit_kv cap k v s = (let (first, out) = s in (False, bump cap ((if first then '''' else '','') @ ''\"'' @ k @ ''\":'' @ v) out))"

definition emit_kv_opt :: "nat \<Rightarrow> string \<Rightarrow> string option \<Rightarrow> bool \<times> string \<Rightarrow> bool \<times> string" where
  "emit_kv_opt cap k v s = (case v of Some t \<Rightarrow> emit_kv cap k t s | None \<Rightarrow> s)"

definition show_u8 :: "u8 \<Rightarrow> string" where "show_u8 w = show_nat (unat w)"
definition show_u16 :: "u16 \<Rightarrow> string" where "show_u16 w = show_nat (unat w)"
definition show_u32 :: "u32 \<Rightarrow> string" where "show_u32 w = show_nat (unat w)"

text \<open>The fields of a BTHome reading, in the order they are written.\<close>

definition reading_fields :: "reading \<Rightarrow> (string \<times> string option) list" where
  "reading_fields b =
     [(''enc'', if bt_encrypted b then Some ''1'' else None), (''t'', map_option show_int (bt_temperature b)),
      (''h'', map_option show_u16 (bt_humidity b)), (''b'', map_option show_u8 (bt_battery b)),
      (''v'', map_option show_u16 (bt_voltage b)), (''l'', map_option show_u32 (bt_illuminance b)),
      (''m'', map_option show_u8 (bt_motion b)), (''btn'', map_option show_u8 (bt_button b)),
      (''w'', map_option show_u32 (bt_power b)), (''co2'', map_option show_u16 (bt_co2 b)),
      (''p'', map_option show_u8 (bt_packet_id b))]"

definition emit_reading :: "nat \<Rightarrow> reading \<Rightarrow> string \<Rightarrow> string" where
  "emit_reading cap b out =
     (let out = bump cap '',\"bthome\":{'' out;
          (_, out) = fold (\<lambda>(k, v). emit_kv_opt cap k v) (reading_fields b) (True, out)
      in put_if cap 1 ''}'' out)"

definition emit_row :: "nat \<Rightarrow> u32 \<Rightarrow> reading list \<Rightarrow> bool \<Rightarrow> device_row \<Rightarrow> string \<Rightarrow> string" where
  "emit_row cap now bs first r out =
     (let out = bump cap (row_head first now r) out;
          out = emit_name cap (dv_name r) out;
          out = put_if cap 1 [CHR 0x22] out;
          out = (if dv_appearance r \<noteq> 0 then bump cap ('',\"app\":'' @ show_u16 (dv_appearance r)) out else out);
          out = (if dv_connectable r then bump cap '',\"conn\":1'' out else out);
          out = (case dv_tag r of Some t \<Rightarrow> bump cap ('',\"tag\":\"'' @ t @ ''\"'') out | None \<Rightarrow> out);
          out = (case find (\<lambda>b. bt_addr b = dv_addr r) bs of Some b \<Rightarrow> emit_reading cap b out | None \<Rightarrow> out)
      in put_if cap 1 ''}'' out)"

fun emit_rows :: "nat \<Rightarrow> u32 \<Rightarrow> reading list \<Rightarrow> bool \<Rightarrow> device_row list \<Rightarrow> string \<Rightarrow> string" where
  "emit_rows cap now bs first [] out = out"
| "emit_rows cap now bs first (r # rs) out = emit_rows cap now bs False rs (emit_row cap now bs first r out)"

definition build_devices_json :: "nat \<Rightarrow> u32 \<Rightarrow> scanner \<Rightarrow> reading list \<Rightarrow> string" where
  "build_devices_json cap now sc cache =
     (let snap = snapshot_devices 64 sc; bsnap = bt_snapshot 32 cache;
          out = bump cap ''{\"devices\":['' [];
          out = emit_rows cap now bsnap True snap out
      in put_if cap 2 '']}'' out)"

section \<open>The text without a buffer\<close>

text \<open>The same text as one would write it with room to spare, and the reading of an escaped name.\<close>

definition escape_char :: "char \<Rightarrow> string" where
  "escape_char c = (if c = CHR 0x22 \<or> c = CHR 0x5C then [CHR 0x5C, c]
                    else if (of_char c :: nat) < 0x20 then unicode_escape c else [c])"

definition escape_name :: "string \<Rightarrow> string" where
  "escape_name s = concat (map escape_char s)"

fun fields_text :: "bool \<Rightarrow> (string \<times> string option) list \<Rightarrow> string" where
  "fields_text first [] = ''''"
| "fields_text first ((k, None) # fs) = fields_text first fs"
| "fields_text first ((k, Some v) # fs) = (if first then '''' else '','') @ ''\"'' @ k @ ''\":'' @ v @ fields_text False fs"

definition row_text :: "u32 \<Rightarrow> reading list \<Rightarrow> bool \<Rightarrow> device_row \<Rightarrow> string" where
  "row_text now bs first r =
     row_head first now r @ escape_name (dv_name r) @ [CHR 0x22] @
     (if dv_appearance r \<noteq> 0 then '',\"app\":'' @ show_u16 (dv_appearance r) else '''') @
     (if dv_connectable r then '',\"conn\":1'' else '''') @
     (case dv_tag r of Some t \<Rightarrow> '',\"tag\":\"'' @ t @ ''\"'' | None \<Rightarrow> '''') @
     (case find (\<lambda>b. bt_addr b = dv_addr r) bs of
        Some b \<Rightarrow> '',\"bthome\":{'' @ fields_text True (reading_fields b) @ ''}'' | None \<Rightarrow> '''') @ ''}''"

fun rows_text :: "u32 \<Rightarrow> reading list \<Rightarrow> bool \<Rightarrow> device_row list \<Rightarrow> string" where
  "rows_text now bs first [] = ''''"
| "rows_text now bs first (r # rs) = row_text now bs first r @ rows_text now bs False rs"

definition devices_text :: "u32 \<Rightarrow> device_row list \<Rightarrow> reading list \<Rightarrow> string" where
  "devices_text now rows bs = ''{\"devices\":['' @ rows_text now bs True rows @ '']}''"

section \<open>Bounds\<close>

lemma bump_length [simp]: "length out \<le> cap \<Longrightarrow> length (bump cap s out) \<le> cap"
  by (auto simp: bump_def room_left_def Let_def)

lemma put_if_length [simp]: "length out \<le> cap \<Longrightarrow> length cs \<le> k \<Longrightarrow> length (put_if cap k cs out) \<le> cap"
  by (auto simp: put_if_def room_left_def)

lemma emit_name_length: "length out \<le> cap \<Longrightarrow> length (emit_name cap cs out) \<le> cap"
proof (induction cs arbitrary: out)
  case (Cons c cs)
  show ?case
  proof (cases "room_left cap out > 8")
    case True
    then have "length out + 2 \<le> cap" by (simp add: room_left_def)
    then show ?thesis using True Cons by (simp)
  next
    case False
    then show ?thesis using Cons.prems by simp
  qed
qed simp

lemma kv_fold_length: "length (snd s) \<le> cap \<Longrightarrow> length (snd (fold (\<lambda>(k, v). emit_kv_opt cap k v) fs s)) \<le> cap"
proof (induction fs arbitrary: s)
  case (Cons f fs)
  have "length (snd (emit_kv_opt cap (fst f) (snd f) s)) \<le> cap"
    using Cons.prems by (cases s; cases "snd f") (simp_all add: emit_kv_opt_def emit_kv_def)
  then show ?case using Cons.IH [of "emit_kv_opt cap (fst f) (snd f) s"] by (simp add: case_prod_beta)
qed simp

lemma emit_reading_length: "length out \<le> cap \<Longrightarrow> length (emit_reading cap b out) \<le> cap"
  using kv_fold_length [of "(True, bump cap '',\"bthome\":{'' out)" cap "reading_fields b"]
  by (simp add: emit_reading_def case_prod_beta Let_def)

lemma emit_row_length: "length out \<le> cap \<Longrightarrow> length (emit_row cap now bs first r out) \<le> cap"
  by (simp add: emit_row_def emit_name_length emit_reading_length Let_def split: option.split)

lemma emit_rows_length: "length out \<le> cap \<Longrightarrow> length (emit_rows cap now bs first rs out) \<le> cap"
  by (induction rs arbitrary: first out) (simp_all add: emit_row_length)

section \<open>Exactness\<close>

lemma bump_fits: "length out + length s < cap \<Longrightarrow> bump cap s out = out @ s"
  by (auto simp: bump_def room_left_def Let_def)

lemma put_if_fits: "length out + k \<le> cap \<Longrightarrow> put_if cap k cs out = out @ cs"
  by (auto simp: put_if_def room_left_def)

lemma escape_char_length: "1 \<le> length (escape_char c)" "length (escape_char c) \<le> 6"
  by (simp_all add: escape_char_def unicode_escape_def)

lemma emit_name_fits: "length out + length (escape_name cs) + 8 < cap \<Longrightarrow> emit_name cap cs out = out @ escape_name cs"
proof (induction cs arbitrary: out)
  case (Cons c cs)
  have r: "room_left cap out > 8" using Cons.prems by (simp add: room_left_def)
  have l: "length out + length (escape_char c) < cap" using Cons.prems by (simp add: escape_name_def)
  have "(if c = CHR 0x22 \<or> c = CHR 0x5C then out @ [CHR 0x5C, c]
         else if (of_char c :: nat) < 0x20 then bump cap (unicode_escape c) out else out @ [c]) = out @ escape_char c"
    using l by (auto simp: escape_char_def bump_fits)
  then show ?case using r Cons.IH [of "out @ escape_char c"] Cons.prems by (simp add: escape_name_def)
qed (simp add: escape_name_def)

lemma kv_fold_fits:
  "length out + length (fields_text first fs) < cap \<Longrightarrow>
   snd (fold (\<lambda>(k, v). emit_kv_opt cap k v) fs (first, out)) = out @ fields_text first fs"
proof (induction first fs arbitrary: out rule: fields_text.induct)
  case (3 first k v fs)
  have "emit_kv_opt cap k (Some v) (first, out) = (False, out @ (if first then '''' else '','') @ ''\"'' @ k @ ''\":'' @ v)"
    using 3(2) by (auto simp: emit_kv_opt_def emit_kv_def bump_fits)
  then show ?case using 3(1) [of "out @ (if first then '''' else '','') @ ''\"'' @ k @ ''\":'' @ v"] 3(2) by simp
qed (simp_all add: emit_kv_opt_def)

lemma emit_reading_fits:
  assumes "length out + length ('',\"bthome\":{'' @ fields_text True (reading_fields b) @ ''}'') < cap"
  shows "emit_reading cap b out = out @ '',\"bthome\":{'' @ fields_text True (reading_fields b) @ ''}''"
proof -
  have b: "bump cap '',\"bthome\":{'' out = out @ '',\"bthome\":{''" using assms by (intro bump_fits) simp
  have f: "snd (fold (\<lambda>(k, v). emit_kv_opt cap k v) (reading_fields b) (True, out @ '',\"bthome\":{'')) =
      (out @ '',\"bthome\":{'') @ fields_text True (reading_fields b)"
    using assms by (intro kv_fold_fits) simp
  show ?thesis unfolding emit_reading_def Let_def case_prod_beta b f
    using assms by (subst put_if_fits) simp_all
qed

lemma emit_row_fits:
  assumes "length out + length (row_text now bs first r) + 8 < cap"
  shows "emit_row cap now bs first r out = out @ row_text now bs first r"
proof -
  define hd where "hd = row_head first now r"
  define nm where "nm = escape_name (dv_name r)"
  define ap where "ap = (if dv_appearance r \<noteq> 0 then '',\"app\":'' @ show_u16 (dv_appearance r) else '''')"
  define cn where "cn = (if dv_connectable r then '',\"conn\":1'' else '''')"
  define tg where "tg = (case dv_tag r of Some t \<Rightarrow> '',\"tag\":\"'' @ t @ ''\"'' | None \<Rightarrow> '''')"
  define rd where "rd = (case find (\<lambda>b. bt_addr b = dv_addr r) bs of
      Some b \<Rightarrow> '',\"bthome\":{'' @ fields_text True (reading_fields b) @ ''}'' | None \<Rightarrow> '''')"
  have t: "row_text now bs first r = hd @ nm @ [CHR 0x22] @ ap @ cn @ tg @ rd @ ''}''"
    by (simp add: row_text_def hd_def nm_def ap_def cn_def tg_def rd_def)
  have len: "length out + length hd + length nm + 1 + length ap + length cn + length tg + length rd + 1 + 8 < cap"
    using assms by (simp add: t)
  have 1: "bump cap hd out = out @ hd" using len by (intro bump_fits) simp
  have 2: "emit_name cap (dv_name r) (out @ hd) = out @ hd @ nm"
    using len by (subst emit_name_fits) (simp_all add: nm_def)
  have 3: "put_if cap 1 [CHR 0x22] (out @ hd @ nm) = out @ hd @ nm @ [CHR 0x22]" using len by (subst put_if_fits) simp_all
  have 4: "(if dv_appearance r \<noteq> 0 then bump cap ('',\"app\":'' @ show_u16 (dv_appearance r)) o' else o') = o' @ ap"
    if "length o' + length ap < cap" for o' using that by (auto simp: ap_def bump_fits)
  have 5: "(if dv_connectable r then bump cap '',\"conn\":1'' o' else o') = o' @ cn"
    if "length o' + length cn < cap" for o' using that by (auto simp: cn_def bump_fits)
  have 6: "(case dv_tag r of Some t \<Rightarrow> bump cap ('',\"tag\":\"'' @ t @ ''\"'') o' | None \<Rightarrow> o') = o' @ tg"
    if "length o' + length tg < cap" for o' using that by (auto simp: tg_def bump_fits split: option.split)
  have 7: "(case find (\<lambda>b. bt_addr b = dv_addr r) bs of Some b \<Rightarrow> emit_reading cap b o' | None \<Rightarrow> o') = o' @ rd"
    if "length o' + length rd < cap" for o' using that by (auto simp: rd_def emit_reading_fits split: option.split)
  show ?thesis unfolding emit_row_def Let_def hd_def [symmetric] 1 2 3 t
    using len by (simp add: 4 5 6 7 put_if_fits)
qed

lemma emit_rows_fits:
  "length out + length (rows_text now bs first rs) + 8 < cap \<Longrightarrow>
   emit_rows cap now bs first rs out = out @ rows_text now bs first rs"
proof (induction rs arbitrary: first out)
  case (Cons r rs)
  have "emit_row cap now bs first r out = out @ row_text now bs first r"
    using Cons.prems by (intro emit_row_fits) simp
  then show ?case using Cons.IH [of "out @ row_text now bs first r" False] Cons.prems by simp
qed simp

section \<open>Properties\<close>

text \<open>C23: The device list is safe and exact. Whatever the table, the names and the readings, the text never exceeds
  the buffer; and when the complete text leaves room for eight more characters, the text written is exactly the
  complete one: every device of the table in order, each with its name escaped, its optional fields and its reading.\<close>

theorem devices_json_exact:
  "length (build_devices_json cap now sc cache) \<le> cap \<and>
   (8 + length (devices_text now (snapshot_devices 64 sc) (bt_snapshot 32 cache)) < cap \<longrightarrow>
    build_devices_json cap now sc cache = devices_text now (snapshot_devices 64 sc) (bt_snapshot 32 cache))"
proof (intro conjI impI)
  show "length (build_devices_json cap now sc cache) \<le> cap"
    by (simp add: build_devices_json_def emit_rows_length Let_def)
next
  let ?t = "rows_text now (bt_snapshot 32 cache) True (snapshot_devices 64 sc)"
  assume a: "8 + length (devices_text now (snapshot_devices 64 sc) (bt_snapshot 32 cache)) < cap"
  then have b: "bump cap ''{\"devices\":['' [] = ''{\"devices\":[''" by (subst bump_fits) (simp_all add: devices_text_def)
  have r: "emit_rows cap now (bt_snapshot 32 cache) True (snapshot_devices 64 sc) ''{\"devices\":['' = ''{\"devices\":['' @ ?t"
    using a by (intro emit_rows_fits) (simp add: devices_text_def)
  show "build_devices_json cap now sc cache = devices_text now (snapshot_devices 64 sc) (bt_snapshot 32 cache)"
    unfolding build_devices_json_def Let_def b r
    using a by (subst put_if_fits) (simp_all add: devices_text_def)
qed

definition demo_row :: device_row where
  "demo_row = blank_row\<lparr>dv_addr := 0x0A0B0C0D0E0F, dv_rssi := -60, dv_name := ''a\"b'', dv_adv_count := 3, dv_last_ms := 10\<rparr>"

lemma demo_devices_text:
  "devices_text 15 [demo_row] [] =
     ''{\"devices\":[{\"addr\":\"0A:0B:0C:0D:0E:0F\",\"type\":0,\"rssi\":-60,\"count\":3,\"age\":5,\"name\":\"a'' @ [CHR 0x5C] @ ''\"b\"}]}''"
  by code_simp

theorem devices_json_exact_witness:
  "build_devices_json 6144 15 (scanner_initial\<lparr>sc_devices := [demo_row]\<rparr>) [] =
     ''{\"devices\":[{\"addr\":\"0A:0B:0C:0D:0E:0F\",\"type\":0,\"rssi\":-60,\"count\":3,\"age\":5,\"name\":\"a'' @ [CHR 0x5C] @ ''\"b\"}]}''"
proof -
  have s: "snapshot_devices 64 (scanner_initial\<lparr>sc_devices := [demo_row]\<rparr>) = [demo_row]" "bt_snapshot 32 [] = []"
    by (simp_all add: snapshot_devices_def bt_snapshot_def)
  show ?thesis using devices_json_exact [of 6144 15 "scanner_initial\<lparr>sc_devices := [demo_row]\<rparr>" "[]"]
    unfolding s demo_devices_text by simp
qed

end
