(* ===== verification/Liveness_Wdt.thy ===== *)
theory Liveness_Wdt
  imports Interfaces Nvs
begin

text \<open>
  The liveness watchdog, \<^verbatim>\<open>components/liveness_wdt/liveness_wdt.cpp\<close>: a task that probes the gateway and the
  broker, counts consecutive failures, restarts the device at a threshold, and keeps a ring of Wi-Fi quality
  samples. The task's two locals are part of its state; what the sockets, the clock and the Wi-Fi driver answer in
  one tick is the tick's input. A restart is the value of the tick, not an effect.
\<close>

section \<open>State\<close>

record wifi_sample =
  ws_sta_rssi :: int
  ws_ap_rssi :: int
  ws_rtt_ms :: u16
  ws_sta_count :: u8

definition GRACE_S :: u32 where "GRACE_S = 90"
definition HIST_LEN :: nat where "HIST_LEN = 120"
definition LIVE_NS :: string where "LIVE_NS = ''livewdt''"

record liveness =
  lw_started :: bool
  lw_enabled :: bool
  lw_interval_s :: u32
  lw_threshold :: u32
  lw_failures :: u32
  lw_last_ok_s :: u32
  lw_have_ok :: bool
  lw_force_test :: bool
  lw_hist :: "wifi_sample list"
  lw_hist_head :: nat
  lw_hist_total :: u32
  lw_hist_mtx :: bool
  lw_seen_connected :: bool
  lw_last_probe_s :: u32

definition blank_sample :: wifi_sample where
  "blank_sample = \<lparr>ws_sta_rssi = 0, ws_ap_rssi = 0, ws_rtt_ms = 0, ws_sta_count = 0\<rparr>"

definition liveness_initial :: "u32 \<Rightarrow> u32 \<Rightarrow> liveness" where
  "liveness_initial intv thr =
     \<lparr>lw_started = False, lw_enabled = True, lw_interval_s = intv, lw_threshold = thr, lw_failures = 0, lw_last_ok_s = 0,
      lw_have_ok = False, lw_force_test = False, lw_hist = replicate HIST_LEN blank_sample, lw_hist_head = 0,
      lw_hist_total = 0, lw_hist_mtx = False, lw_seen_connected = False, lw_last_probe_s = 0\<rparr>"

section \<open>Parameters\<close>

definition clamp_rtt_ms :: "int \<Rightarrow> u16" where
  "clamp_rtt_ms us =
     (let ms = (if us < 0 then - ((- us) div 1000) else us div 1000);
          ms = (if ms < 0 then 0 else ms);
          ms = (if ms > 0xFFFE then 0xFFFE else ms)
      in word_of_int ms)"

definition load_nvs :: "nvs_env \<Rightarrow> nvs \<Rightarrow> liveness \<Rightarrow> liveness" where
  "load_nvs ne n l =
     (let l = (case get_u8 ne LIVE_NS ''en'' n of Some en \<Rightarrow> l\<lparr>lw_enabled := (en \<noteq> 0)\<rparr> | None \<Rightarrow> l);
          l = (case get_u32 ne LIVE_NS ''intv'' n of
                 Some v \<Rightarrow> if v \<ge> 5 \<and> v \<le> 3600 then l\<lparr>lw_interval_s := v\<rparr> else l | None \<Rightarrow> l)
      in (case get_u32 ne LIVE_NS ''thr'' n of
            Some v \<Rightarrow> if v \<ge> 1 \<and> v \<le> 60 then l\<lparr>lw_threshold := v\<rparr> else l | None \<Rightarrow> l))"

definition save_nvs :: "nvs_env \<Rightarrow> liveness \<Rightarrow> nvs \<Rightarrow> nvs" where
  "save_nvs ne l n =
     nvs_write_unchecked ne LIVE_NS
       [(''en'', NV_u8 (if lw_enabled l then 1 else 0)), (''intv'', NV_u32 (lw_interval_s l)), (''thr'', NV_u32 (lw_threshold l))] n"

definition set_params :: "nvs_env \<Rightarrow> int \<Rightarrow> int \<Rightarrow> int \<Rightarrow> liveness \<times> nvs \<Rightarrow> (liveness \<times> nvs) \<times> string option" where
  "set_params ne enabled interval_s threshold s =
     (let (l, n) = s in
      if interval_s \<ge> 0 \<and> (interval_s < 5 \<or> interval_s > 3600) then (s, Some ''interval out of range (5..3600)'')
      else if threshold \<ge> 0 \<and> (threshold < 1 \<or> threshold > 60) then (s, Some ''threshold out of range (1..60)'')
      else
        let l = (if enabled \<ge> 0 then l\<lparr>lw_enabled := (enabled \<noteq> 0)\<rparr> else l);
            l = (if interval_s \<ge> 0 then l\<lparr>lw_interval_s := word_of_int interval_s\<rparr> else l);
            l = (if threshold \<ge> 0 then l\<lparr>lw_threshold := word_of_int threshold\<rparr> else l)
        in ((l, save_nvs ne l n), None))"

definition liveness_start :: "nvs_env \<Rightarrow> nvs \<Rightarrow> liveness \<Rightarrow> liveness" where
  "liveness_start ne n l =
     (if lw_started l then l else (load_nvs ne n (l\<lparr>lw_started := True\<rparr>))\<lparr>lw_hist_mtx := True\<rparr>)"

definition force_fail_test :: "liveness \<Rightarrow> liveness" where
  "force_fail_test l = l\<lparr>lw_force_test := True\<rparr>"

text \<open>\<open>get_state\<close>: the last field is the age of the last success, \<open>UINT32_MAX\<close> before the first.\<close>

definition get_state :: "u32 \<Rightarrow> liveness \<Rightarrow> bool \<times> u32 \<times> u32 \<times> u32 \<times> u32" where
  "get_state uptime l =
     (lw_enabled l, lw_interval_s l, lw_threshold l, lw_failures l,
      if lw_have_ok l then uptime - lw_last_ok_s l else 0xFFFFFFFF)"

section \<open>The probe\<close>

datatype sock_errno = EHOSTUNREACH | ENETUNREACH | ETIMEDOUT | EHOSTDOWN | ENETDOWN | EOTHER

datatype connect_result =
    No_socket                              \<comment> \<open>\<open>socket()\<close> failed\<close>
  | Connected_now
  | In_progress int "sock_errno option"    \<comment> \<open>\<open>select()\<close>'s result and the socket error after it\<close>
  | Connect_error sock_errno

definition reachable :: "connect_result \<Rightarrow> bool" where
  "reachable c =
     (case c of
        No_socket \<Rightarrow> True
      | Connected_now \<Rightarrow> True
      | In_progress sel soerr \<Rightarrow>
          if sel \<le> 0 then False
          else \<not> (soerr = Some EHOSTUNREACH \<or> soerr = Some ENETUNREACH \<or> soerr = Some ETIMEDOUT \<or>
                   soerr = Some EHOSTDOWN \<or> soerr = Some ENETDOWN)
      | Connect_error e \<Rightarrow> \<not> (e = EHOSTUNREACH \<or> e = ENETUNREACH \<or> e = ETIMEDOUT))"

text \<open>One probe cycle: the gateway (absent when the interface has none) and the broker, each with the answer of
  the connection attempt and the microseconds it took.\<close>

record probe_input =
  pi_gateway :: "(connect_result \<times> int) option"
  pi_broker :: "connect_result \<times> int"

definition probe_cycle :: "probe_input \<Rightarrow> bool \<times> u16" where
  "probe_cycle p =
     (case pi_gateway p of
        Some (c, us) \<Rightarrow>
          if reachable c then (True, clamp_rtt_ms us)
          else if reachable (fst (pi_broker p)) then (True, clamp_rtt_ms (snd (pi_broker p))) else (False, 0xFFFF)
      | None \<Rightarrow>
          if reachable (fst (pi_broker p)) then (True, clamp_rtt_ms (snd (pi_broker p))) else (False, 0xFFFF))"

definition worst_rssi :: "int list \<Rightarrow> int" where
  "worst_rssi rs = (case rs of [] \<Rightarrow> 0 | r # rs \<Rightarrow> fold (\<lambda>r worst. if r < worst then r else worst) rs r)"

definition hist_push :: "wifi_sample \<Rightarrow> liveness \<Rightarrow> liveness" where
  "hist_push s l =
     l\<lparr>lw_hist := (lw_hist l)[lw_hist_head l := s], lw_hist_head := (lw_hist_head l + 1) mod HIST_LEN,
       lw_hist_total := lw_hist_total l + 1\<rparr>"

record wifi_input =
  wi_ap_rssi :: "int option"               \<comment> \<open>\<open>esp_wifi_sta_get_ap_info\<close>\<close>
  wi_stations :: "int list option"         \<comment> \<open>\<open>esp_wifi_ap_get_sta_list\<close>\<close>

definition record_sample :: "wifi_input \<Rightarrow> bool \<Rightarrow> u16 \<Rightarrow> liveness \<Rightarrow> liveness" where
  "record_sample w ok rtt_ms l =
     (let s = blank_sample\<lparr>ws_rtt_ms := (if ok then rtt_ms else 0xFFFF)\<rparr>;
          s = (case wi_ap_rssi w of Some r \<Rightarrow> s\<lparr>ws_sta_rssi := r\<rparr> | None \<Rightarrow> s);
          s = (case wi_stations w of
                 Some rs \<Rightarrow> s\<lparr>ws_sta_count := of_nat (length rs), ws_ap_rssi := worst_rssi rs\<rparr> | None \<Rightarrow> s)
      in if \<not> lw_hist_mtx l then l else hist_push s l)"

text \<open>\<open>get_history\<close>: the samples copied out, oldest first.\<close>

definition get_history :: "nat \<Rightarrow> liveness \<Rightarrow> wifi_sample list" where
  "get_history max_n l =
     (if \<not> lw_hist_mtx l \<or> max_n = 0 then []
      else let total = unat (lw_hist_total l);
               avail = (if total < HIST_LEN then total else HIST_LEN);
               n = (if avail < max_n then avail else max_n);
               oldest = (if total < HIST_LEN then 0 else lw_hist_head l);
               start = (oldest + (avail - n)) mod HIST_LEN
           in map (\<lambda>i. lw_hist l ! ((start + i) mod HIST_LEN)) [0..<n])"

section \<open>The task\<close>

record tick_input =
  ti_now :: u32
  ti_connected :: bool             \<comment> \<open>the link as the latch test sees it\<close>
  ti_connected2 :: bool            \<comment> \<open>and as the probe sees it\<close>
  ti_probe :: probe_input
  ti_wifi :: wifi_input

datatype tick_result = Goes_on | Reboots string

definition live_tick :: "tick_input \<Rightarrow> liveness \<Rightarrow> liveness \<times> tick_result" where
  "live_tick i l =
     (if lw_force_test l then (l\<lparr>lw_force_test := False\<rparr>, Reboots ''forced liveness self-test'')
      else if \<not> lw_enabled l then (l, Goes_on)
      else if ti_now i < GRACE_S then (l, Goes_on)
      else if \<not> lw_seen_connected l \<and> \<not> ti_connected i then (l, Goes_on)
      else
        let l = l\<lparr>lw_seen_connected := True\<rparr> in
        if ti_now i - lw_last_probe_s l < lw_interval_s l then (l, Goes_on)
        else
          let l = l\<lparr>lw_last_probe_s := ti_now i\<rparr> in
          if \<not> ti_connected2 i then (record_sample (ti_wifi i) False 0xFFFF (l\<lparr>lw_failures := 0\<rparr>), Goes_on)
          else
            let (ok, rtt) = probe_cycle (ti_probe i); l = record_sample (ti_wifi i) ok rtt l in
            if ok then (l\<lparr>lw_failures := 0, lw_last_ok_s := ti_now i, lw_have_ok := True\<rparr>, Goes_on)
            else
              let f = lw_failures l + 1; l = l\<lparr>lw_failures := f\<rparr> in
              if f \<ge> lw_threshold l then (l, Reboots ''upstream LAN unreachable past threshold'') else (l, Goes_on))"

text \<open>A run of ticks up to the restart: the number of ticks survived, or all of them.\<close>

fun live_run :: "tick_input list \<Rightarrow> liveness \<Rightarrow> liveness \<times> nat option" where
  "live_run [] l = (l, None)"
| "live_run (i # is) l =
     (case live_tick i l of
        (l', Reboots _) \<Rightarrow> (l', Some 0)
      | (l', Goes_on) \<Rightarrow> (case live_run is l' of (l'', r) \<Rightarrow> (l'', map_option Suc r)))"

section \<open>The history ring\<close>

definition hist_holds :: "liveness \<Rightarrow> wifi_sample list \<Rightarrow> bool" where
  "hist_holds l h \<longleftrightarrow> lw_hist_mtx l \<and> length (lw_hist l) = HIST_LEN \<and> lw_hist_head l = length h mod HIST_LEN \<and>
     lw_hist_total l = of_nat (length h) \<and> length h < 2 ^ 32 \<and>
     (\<forall>i < length h. length h \<le> i + HIST_LEN \<longrightarrow> lw_hist l ! (i mod HIST_LEN) = h ! i)"

lemma HIST_LEN_pos [simp]: "0 < HIST_LEN" "HIST_LEN \<noteq> 0"
  by (simp_all add: HIST_LEN_def)

lemma mod_window: "i < n \<Longrightarrow> n < i + (k :: nat) \<Longrightarrow> i mod k \<noteq> n mod k"
  by (metis add_diff_inverse_nat add_less_cancel_left dvd_imp_le less_diff_conv linorder_not_le mod_eq_dvd_iff_nat
      nat_less_le order_less_imp_le zero_less_diff)

lemma hist_push_holds:
  assumes "hist_holds l h" "length h + 1 < 2 ^ 32"
  shows "hist_holds (hist_push s l) (h @ [s])"
proof -
  have l: "lw_hist_mtx l" "length (lw_hist l) = HIST_LEN" "lw_hist_head l = length h mod HIST_LEN"
    "lw_hist_total l = of_nat (length h)"
    and old: "\<And>i. i < length h \<Longrightarrow> length h \<le> i + HIST_LEN \<Longrightarrow> lw_hist l ! (i mod HIST_LEN) = h ! i"
    using assms(1) by (auto simp: hist_holds_def)
  have "(lw_hist l)[length h mod HIST_LEN := s] ! (i mod HIST_LEN) = (h @ [s]) ! i"
    if "i < length h + 1" "length h + 1 \<le> i + HIST_LEN" for i
  proof (cases "i = length h")
    case False
    then have "i < length h" "length h < i + HIST_LEN" using that by simp_all
    with mod_window [OF this] old [of i] show ?thesis by (simp add: nth_append)
  qed (simp add: l)
  then show ?thesis using l assms(2) by (simp add: hist_holds_def hist_push_def mod_Suc_eq add.commute)
qed

lemma hist_pushes_hold:
  "hist_holds l h \<Longrightarrow> length h + length xs < 2 ^ 32 \<Longrightarrow> hist_holds (fold hist_push xs l) (h @ xs)"
proof (induction xs arbitrary: l h)
  case (Cons x xs)
  then show ?case using Cons.IH [OF hist_push_holds [of l h x]] by simp
qed simp

lemma get_history_holds:
  assumes "hist_holds l h"
  shows "get_history m l = last_n (min m HIST_LEN) h"
proof (cases "m = 0")
  case True
  then show ?thesis by (simp add: get_history_def last_n_def)
next
  case False
  let ?L = "length h" and ?H = HIST_LEN
  have l: "lw_hist_mtx l" "lw_hist_head l = ?L mod ?H" "unat (lw_hist_total l) = ?L"
    and old: "\<And>i. i < ?L \<Longrightarrow> ?L \<le> i + ?H \<Longrightarrow> lw_hist l ! (i mod ?H) = h ! i"
    using assms by (auto simp: hist_holds_def unat_of_nat_u32)
  define n where "n = min m (min ?L ?H)"
  have n: "n \<le> ?L" "n \<le> ?H" by (simp_all add: n_def)
  define avail where "avail = (if ?L < ?H then ?L else ?H)"
  define oldest where "oldest = (if ?L < ?H then 0 else ?L mod ?H)"
  have nn: "(if avail < m then avail else m) = n" by (auto simp: avail_def n_def)
  have st: "((oldest + (avail - n)) mod ?H + i) mod ?H = (?L - n + i) mod ?H" for i
  proof (cases "?L < ?H")
    case False
    have "((?L mod ?H + (?H - n)) mod ?H + i) mod ?H = (?L + (?H - n) + i) mod ?H"
      by (metis mod_add_left_eq)
    also have "?L + (?H - n) + i = (?L - n + i) + ?H" using n by simp
    finally show ?thesis using False by (simp add: oldest_def avail_def del: mod_add_left_eq)
  qed (simp add: oldest_def avail_def mod_add_left_eq)
  have "get_history m l = map (\<lambda>i. lw_hist l ! ((?L - n + i) mod ?H)) [0..<n]"
    using l False st nn unfolding get_history_def avail_def oldest_def by (simp only: Let_def l simp_thms if_False)
  also have "\<dots> = last_n n h"
  proof (rule nth_equalityI)
    fix i assume "i < length (map (\<lambda>i. lw_hist l ! ((?L - n + i) mod ?H)) [0..<n])"
    then have "i < n" by simp
    then show "map (\<lambda>i. lw_hist l ! ((?L - n + i) mod ?H)) [0..<n] ! i = last_n n h ! i"
      using n old [of "?L - n + i"] by (simp add: last_n_def)
  qed (use n in simp)
  also have "\<dots> = last_n (min m ?H) h" by (auto simp: last_n_def n_def min_def)
  finally show ?thesis .
qed

interpretation hr: ring_buffer HIST_LEN "\<lambda>n. n < 2 ^ 32" hist_holds "\<lambda>xs. fold hist_push (last_n HIST_LEN xs)" "get_history HIST_LEN"
  by unfold_locales (simp_all add: hist_pushes_hold get_history_holds)

section \<open>Consecutive failures\<close>

definition failing_probe :: "tick_input \<Rightarrow> bool" where
  "failing_probe i \<longleftrightarrow> ti_connected2 i \<and> \<not> fst (probe_cycle (ti_probe i))"

fun failing_ticks :: "u32 \<Rightarrow> u32 \<Rightarrow> tick_input list \<Rightarrow> bool" where
  "failing_ticks intv last_p [] = True"
| "failing_ticks intv last_p (i # is) \<longleftrightarrow>
     ti_now i \<ge> GRACE_S \<and> ti_now i - last_p \<ge> intv \<and> failing_probe i \<and> failing_ticks intv (ti_now i) is"

lemma record_sample_frame [simp]:
  "lw_force_test (record_sample w ok r l) = lw_force_test l" "lw_enabled (record_sample w ok r l) = lw_enabled l"
  "lw_interval_s (record_sample w ok r l) = lw_interval_s l" "lw_threshold (record_sample w ok r l) = lw_threshold l"
  "lw_failures (record_sample w ok r l) = lw_failures l" "lw_seen_connected (record_sample w ok r l) = lw_seen_connected l"
  "lw_last_probe_s (record_sample w ok r l) = lw_last_probe_s l"
  by (simp_all add: record_sample_def hist_push_def Let_def)

lemma tick_failing:
  assumes "\<not> lw_force_test l" "lw_enabled l" "lw_seen_connected l" "failing_ticks (lw_interval_s l) (lw_last_probe_s l) (i # is)"
  shows "\<exists>l'. live_tick i l = (l', if lw_failures l + 1 \<ge> lw_threshold l then Reboots ''upstream LAN unreachable past threshold'' else Goes_on) \<and>
    \<not> lw_force_test l' \<and> lw_enabled l' \<and> lw_seen_connected l' \<and> lw_interval_s l' = lw_interval_s l \<and> lw_threshold l' = lw_threshold l \<and>
    lw_last_probe_s l' = ti_now i \<and> lw_failures l' = lw_failures l + 1"
  using assms by (auto simp: live_tick_def failing_probe_def Let_def not_less split: prod.split)

lemma unat_inc: "f < (t :: u32) \<Longrightarrow> unat (f + 1) = unat f + 1"
  using unsigned_less [of t, where 'a = nat] by (simp add: word_less_nat_alt unat_word_ariths)

lemma unat_inc_le: "unat (f + 1 :: u32) \<le> unat f + 1"
  by (simp add: unat_word_ariths)

lemma run_failing:
  assumes "\<not> lw_force_test l" "lw_enabled l" "lw_seen_connected l" "failing_ticks (lw_interval_s l) (lw_last_probe_s l) is"
    and "lw_failures l < lw_threshold l"
  shows "snd (live_run is l) = (if unat (lw_threshold l) \<le> unat (lw_failures l) + length is
                                then Some (unat (lw_threshold l) - unat (lw_failures l) - 1) else None)"
  using assms
proof (induction "is" arbitrary: l)
  case Nil
  then show ?case by (simp add: word_less_nat_alt)
next
  case (Cons i xs)
  from tick_failing [OF Cons.prems(1-4)] obtain l' where
    t: "live_tick i l = (l', if lw_failures l + 1 \<ge> lw_threshold l then Reboots ''upstream LAN unreachable past threshold'' else Goes_on)"
    and l': "\<not> lw_force_test l'" "lw_enabled l'" "lw_seen_connected l'" "lw_interval_s l' = lw_interval_s l" "lw_threshold l' = lw_threshold l"
      "lw_last_probe_s l' = ti_now i" "lw_failures l' = lw_failures l + 1" by blast
  have f: "unat (lw_failures l + 1) = unat (lw_failures l) + 1" by (rule unat_inc [OF Cons.prems(5)])
  have lt: "unat (lw_failures l) < unat (lw_threshold l)" using Cons.prems(5) by (simp add: word_less_nat_alt)
  show ?case
  proof (cases "lw_threshold l \<le> lw_failures l + 1")
    case True
    then have "unat (lw_threshold l) = unat (lw_failures l) + 1" using lt f by (simp add: word_le_nat_alt)
    then show ?thesis using t True by simp
  next
    case False
    then have g: "unat (lw_failures l) + 1 < unat (lw_threshold l)" using f by (simp add: word_le_nat_alt not_le)
    have "snd (live_run xs l') = (if unat (lw_threshold l) \<le> unat (lw_failures l) + 1 + length xs
            then Some (unat (lw_threshold l) - (unat (lw_failures l) + 1) - 1) else None)"
      using Cons.IH [of l'] l' Cons.prems(4) False f by (simp add: not_le)
    then show ?thesis using t False g by (auto split: prod.split)
  qed
qed

lemma tick_reboots:
  "live_tick i l = (l', Reboots w) \<Longrightarrow> \<not> lw_force_test l \<Longrightarrow>
   failing_probe i \<and> lw_threshold l \<le> lw_failures l + 1 \<and> lw_enabled l \<and> GRACE_S \<le> ti_now i \<and> (lw_seen_connected l \<or> ti_connected i)"
  by (auto simp: live_tick_def failing_probe_def Let_def split: if_splits prod.splits)

lemma tick_goes_on:
  "live_tick i l = (l', Goes_on) \<Longrightarrow> \<not> lw_force_test l \<Longrightarrow>
   \<not> lw_force_test l' \<and> lw_threshold l' = lw_threshold l \<and>
   unat (lw_failures l') \<le> unat (lw_failures l) + (if failing_probe i then 1 else 0)"
  using unat_inc_le [of "lw_failures l"]
  by (auto simp: live_tick_def failing_probe_def Let_def split: if_splits prod.splits)

lemma run_reboots_late:
  "live_run is l = (l', Some k) \<Longrightarrow> \<not> lw_force_test l \<Longrightarrow>
   unat (lw_threshold l) \<le> unat (lw_failures l) + length (filter failing_probe (take (Suc k) is))"
proof (induction "is" arbitrary: l k)
  case (Cons i xs)
  obtain l1 r where t: "live_tick i l = (l1, r)" by fastforce
  show ?case
  proof (cases r)
    case (Reboots w)
    with tick_reboots [of i l l1 w] t Cons.prems show ?thesis
      using unat_inc_le [of "lw_failures l"] by (auto simp: word_le_nat_alt)
  next
    case Goes_on
    with Cons.prems t obtain k' where k: "k = Suc k'" "live_run xs l1 = (l', Some k')"
      by (auto split: prod.splits)
    note g = tick_goes_on [OF t [unfolded Goes_on] Cons.prems(2)]
    from Cons.IH [OF k(2)] g show ?thesis by (auto simp: k(1))
  qed
qed simp

section \<open>Properties\<close>


definition dead_tick :: "u32 \<Rightarrow> tick_input" where
  "dead_tick t = \<lparr>ti_now = t, ti_connected = True, ti_connected2 = True,
     ti_probe = \<lparr>pi_gateway = Some (In_progress 0 None, 0), pi_broker = (Connect_error ENETUNREACH, 0)\<rparr>,
     ti_wifi = \<lparr>wi_ap_rssi = None, wi_stations = None\<rparr>\<rparr>"


text \<open>The Wi-Fi history is the last samples. After any samples have been recorded, reading the history gives the
  most recent of them, at most 120 and at most as many as asked for, oldest first and none missing between them.\<close>

theorem history_recent:
  assumes "length ss < 2 ^ 32"
  shows "get_history m (fold hist_push ss ((liveness_initial i t)\<lparr>lw_hist_mtx := True\<rparr>)) = last_n (min m 120) ss"
proof -
  have "hist_holds ((liveness_initial i t)\<lparr>lw_hist_mtx := True\<rparr>) []"
    by (simp add: hist_holds_def liveness_initial_def)
  from get_history_holds [OF hist_pushes_hold [OF this]] assms show ?thesis by (simp add: HIST_LEN_def)
qed

theorem history_recent_witness:
  "get_history 1 (fold hist_push [blank_sample, blank_sample\<lparr>ws_rtt_ms := 7\<rparr>] ((liveness_initial 30 6)\<lparr>lw_hist_mtx := True\<rparr>)) =
     [blank_sample\<lparr>ws_rtt_ms := 7\<rparr>]"
  using history_recent [of "[blank_sample, blank_sample\<lparr>ws_rtt_ms := 7\<rparr>]" 1 30 6] by (simp add: last_n_def)

definition live_params_ok :: "liveness \<Rightarrow> bool" where
  "live_params_ok l \<longleftrightarrow> 5 \<le> lw_interval_s l \<and> lw_interval_s l \<le> 3600 \<and> 1 \<le> lw_threshold l \<and> lw_threshold l \<le> 60"

text \<open>The watchdog's parameters stay in range and survive a restart. Setting parameters, valid or not, keeps the
  interval in 5 to 3600 seconds and the threshold in 1 to 60; a refused request changes nothing, an accepted one is
  what loading from the store gives back; and loading keeps the range whatever the store holds.\<close>

theorem live_params_range:
  assumes "live_params_ok l" "nvs_works ne" "live_params_ok l0"
    and "set_params ne en intv thr (l, n) = ((l', n'), e)"
  shows "live_params_ok l' \<and> (e \<noteq> None \<longrightarrow> l' = l \<and> n' = n) \<and> live_params_ok (load_nvs ne n l) \<and>
         (e = None \<longrightarrow> (let r = load_nvs ne n' l0 in
            lw_enabled r = lw_enabled l' \<and> lw_interval_s r = lw_interval_s l' \<and> lw_threshold r = lw_threshold l'))"
proof -
  have w: "lo \<le> i \<Longrightarrow> i \<le> 3600 \<Longrightarrow> 0 \<le> lo \<Longrightarrow> word_of_int lo \<le> (word_of_int i :: u32) \<and> (word_of_int i :: u32) \<le> 3600" for lo i :: int
    by (simp add: word_le_def unsigned_of_int take_bit_int_eq_self)
  have x: "1 \<le> i \<Longrightarrow> i \<le> 60 \<Longrightarrow> 1 \<le> (word_of_int i :: u32) \<and> (word_of_int i :: u32) \<le> 60" for i :: int
    by (simp add: word_le_def unsigned_of_int take_bit_int_eq_self)
  have ok': "live_params_ok l'" using assms(1,4) w [of 5] x
    by (auto simp: set_params_def live_params_ok_def Let_def split: if_splits)
  have "live_params_ok (load_nvs ne n l)" using assms(1)
    by (auto simp: load_nvs_def live_params_ok_def Let_def split: option.split)
  moreover have "e \<noteq> None \<longrightarrow> l' = l \<and> n' = n" using assms(4) by (auto simp: set_params_def Let_def split: if_splits)
  moreover have "e = None \<Longrightarrow> n' = save_nvs ne l' n" using assms(4) by (auto simp: set_params_def Let_def split: if_splits)
  then have "e = None \<longrightarrow> (let r = load_nvs ne n' l0 in
      lw_enabled r = lw_enabled l' \<and> lw_interval_s r = lw_interval_s l' \<and> lw_threshold r = lw_threshold l')"
    using ok' assms(2) by (auto simp: save_nvs_def load_nvs_def get_u8_def get_u32_def live_params_ok_def Let_def)
  ultimately show ?thesis using ok' by blast
qed

theorem live_params_range_witness:
  "let r = load_nvs good_nvs (snd (fst (set_params good_nvs 0 60 (-1) (liveness_initial 30 6, \<lambda>_ _. None)))) (liveness_initial 30 6)
   in \<not> lw_enabled r \<and> lw_interval_s r = 60 \<and> lw_threshold r = 6"
proof -
  have "live_params_ok (liveness_initial 30 6)" by (simp add: live_params_ok_def liveness_initial_def)
  moreover have s: "set_params good_nvs 0 60 (-1) (liveness_initial 30 6, n) =
      (((liveness_initial 30 6)\<lparr>lw_enabled := False, lw_interval_s := 60\<rparr>, save_nvs good_nvs ((liveness_initial 30 6)\<lparr>lw_enabled := False, lw_interval_s := 60\<rparr>) n), None)" for n
    by (simp add: set_params_def Let_def)
  ultimately show ?thesis
    using live_params_range [OF _ good_nvs_works _ s, of "liveness_initial 30 6" "\<lambda>_ _. None"]
    by (simp add: s Let_def liveness_initial_def)
qed

end
