(* ===== verification/Stats_Web.thy ===== *)
theory Stats_Web
  imports Stats_Settings Devices_Json Liveness_Wdt
begin

text \<open>
  The web side of \<^verbatim>\<open>components/api_server/stats.cpp\<close>: the JSON getters, the CPU-load sampler, the chunked Wi-Fi
  history, and the table of endpoints with the handler each one runs. A handler turns the state of the device and
  what the system answers during the request (\<open>web_in\<close>) into the new state and the response.
\<close>

section \<open>State and inputs\<close>

record cpu_sampler =
  cpu_prev_us :: u64
  cpu_prev_idle0 :: u32
  cpu_prev_idle1 :: u32

record clone_counters =
  cc_reads :: u32
  cc_writes :: u32
  cc_notifies :: u32
  cc_connected_centrals :: u8

record web_state =
  wb_stats :: stats_state
  wb_live :: liveness
  wb_bthome :: "reading list"
  wb_cpu :: cpu_sampler
  wb_reads :: u32
  wb_writes :: u32
  wb_notifies :: u32

record app_desc =
  ad_project :: string
  ad_version :: string
  ad_date :: string
  ad_time :: string
  ad_idf :: string
  ad_secure :: u32
  ad_sha :: "u8 list"

record web_in =
  wi_query :: "nat \<Rightarrow> query option"         \<comment> \<open>\<open>httpd_req_get_url_query_str\<close> into a buffer of that size\<close>
  wi_env :: stats_env
  wi_now_ms :: u32
  wi_uptime_s :: u32
  wi_now_us :: u64
  wi_tasks :: "(string \<times> u32) list"         \<comment> \<open>task names and run-time counters\<close>
  wi_heap :: u32
  wi_temp_text :: string                    \<comment> \<open>the temperature printed with \<open>%.1f\<close>\<close>
  wi_clone :: "clone_counters option"
  wi_nat :: "(u64 \<times> u64) option"
  wi_app :: app_desc
  wi_rings :: "nat \<Rightarrow> log_state"            \<comment> \<open>the log ring at the k-th slice of a poll\<close>
  wi_sends :: "nat \<Rightarrow> bool"

definition json_bool :: "bool \<Rightarrow> string" where
  "json_bool b = (if b then ''true'' else ''false'')"

section \<open>The getters\<close>

definition build_level_json :: "nat \<Rightarrow> stats_state \<Rightarrow> string" where
  "build_level_json cap st = snprintf_text cap (''{\"nimble\":'' @ show_int (st_nimble_level st) @ ''}'')"

definition build_txpower_json :: "nat \<Rightarrow> stats_state \<Rightarrow> string" where
  "build_txpower_json cap st =
     (let wifi = (if st_wifi_off st then 0 else st_wifi_tx_dbm st); ble_off = bb_powered_off (st_ble st)
      in snprintf_text cap (''{\"wifi\":'' @ show_int wifi @ '',\"ble\":'' @ show_int (st_ble_tx_dbm st) @
           '',\"ble_off\":'' @ json_bool ble_off @ ''}''))"

definition build_cpufreq_json :: "nat \<Rightarrow> stats_state \<Rightarrow> string" where
  "build_cpufreq_json cap st =
     snprintf_text cap (''{\"mhz\":'' @ show_int (st_cpu_freq_mhz st) @ '',\"ls\":'' @ json_bool (st_light_sleep st) @
       '',\"pdcpu\":'' @ json_bool (st_cpu_pd st) @ ''}'')"

definition build_hostname_json :: "nat \<Rightarrow> stats_state \<Rightarrow> string" where
  "build_hostname_json cap st =
     snprintf_text cap (''{\"hostname\":\"'' @ st_hostname st @ ''\",\"default\":\"'' @ DEFAULT_HOSTNAME @ ''\"}'')"

definition build_appinfo_json :: "nat \<Rightarrow> app_desc \<Rightarrow> string" where
  "build_appinfo_json cap d =
     snprintf_text cap (''{\"project\":\"'' @ ad_project d @ ''\",\"version\":\"'' @ ad_version d @ ''\",\"date\":\"'' @ ad_date d @
       ''\",\"time\":\"'' @ ad_time d @ ''\",\"idf\":\"'' @ ad_idf d @ ''\",\"secure\":'' @ show_nat (unat (ad_secure d)) @
       '',\"elf_sha256\":\"'' @ concat (map hex_byte_lower (take 8 (ad_sha d))) @ ''\"}'')"

definition advitvl_ms :: "ble_backend \<Rightarrow> int" where
  "advitvl_ms b =
     (if \<not> advertising_enabled b then -1
      else let units = bb_adv_interval_units b in
           if units = 0 then 0 else uint (((ucast units :: u32) * 625 + 500) div 1000))"

definition build_advitvl_json :: "nat \<Rightarrow> stats_state \<Rightarrow> string" where
  "build_advitvl_json cap st = snprintf_text cap (''{\"ms\":'' @ show_int (advitvl_ms (st_ble st)) @ ''}'')"

definition build_wifips_json :: "nat \<Rightarrow> stats_state \<Rightarrow> string" where
  "build_wifips_json cap st = snprintf_text cap (''{\"li\":'' @ show_int (st_wifi_li st) @ ''}'')"

definition build_scan_json :: "nat \<Rightarrow> stats_state \<Rightarrow> string" where
  "build_scan_json cap st =
     (let sc = bb_scanner (st_ble st) in
      snprintf_text cap (''{\"window\":'' @ show_nat (unat (sc_window_ms sc)) @ '',\"interval\":'' @
        show_nat (unat (sc_interval_ms sc)) @ '',\"active\":'' @ json_bool (sc_active sc) @ ''}''))"

section \<open>CPU load\<close>

definition idle_counter :: "nat \<Rightarrow> (string \<times> u32) list \<Rightarrow> u32" where
  "idle_counter core tasks =
     fold (\<lambda>(nm, c) acc.
        if take 4 nm = ''IDLE'' then
          (if core = 0 \<and> (length nm = 4 \<or> nm ! 4 = CHR ''0'') then c
           else if core = 1 \<and> length nm > 4 \<and> nm ! 4 = CHR ''1'' then c else acc)
        else acc) tasks 0"

definition busy_pct :: "u64 \<Rightarrow> u32 \<Rightarrow> u64" where
  "busy_pct elapsed idle_delta =
     (let idle_us = ucast idle_delta; idle_us = (if idle_us > elapsed then elapsed else idle_us);
          busy = elapsed - idle_us
      in 100 * busy div elapsed)"

definition sample_cpu_pct :: "(string \<times> u32) list \<Rightarrow> u64 \<Rightarrow> cpu_sampler \<Rightarrow> cpu_sampler \<times> nat \<times> nat" where
  "sample_cpu_pct tasks now_us s =
     (if tasks = [] then (s, 0, 0)
      else let i0 = idle_counter 0 tasks; i1 = idle_counter 1 tasks;
               elapsed = (if cpu_prev_us s = 0 then 0 else now_us - cpu_prev_us s);
               out = (if elapsed > 0
                      then (unat (busy_pct elapsed (i0 - cpu_prev_idle0 s)), unat (busy_pct elapsed (i1 - cpu_prev_idle1 s)))
                      else (0, 0))
           in (\<lparr>cpu_prev_us = now_us, cpu_prev_idle0 = i0, cpu_prev_idle1 = i1\<rparr>, out))"

text \<open>\<open>build_stats_json\<close>: three writes, each only when the ones before left room.\<close>

definition stats_line :: "web_in \<Rightarrow> nat \<times> nat \<Rightarrow> web_state \<Rightarrow> string" where
  "stats_line i cpu w =
     (let st = wb_stats w; b = st_ble st;
          cc = (case wi_clone i of Some c \<Rightarrow> c | None \<Rightarrow> \<lparr>cc_reads = 0, cc_writes = 0, cc_notifies = 0, cc_connected_centrals = 0\<rparr>);
          in_use = MAX_CONNECTIONS - free_slots (bb_pool b) + unat (cc_connected_centrals cc)
      in ''{\"reads\":'' @ show_nat (unat (wb_reads w + cc_reads cc)) @ '',\"writes\":'' @ show_nat (unat (wb_writes w + cc_writes cc)) @
         '',\"notifies\":'' @ show_nat (unat (wb_notifies w + cc_notifies cc)) @ '',\"adverts\":'' @ show_nat (unat (sc_adv_count (bb_scanner b))) @
         '',\"connections\":'' @ show_nat in_use @ '',\"heap\":'' @ show_nat (unat (wi_heap i)) @
         '',\"notify_rx\":'' @ show_nat (unat (bb_notify_rx_total b)) @ '',\"last_notify_handle\":'' @ show_nat (unat (bb_last_notify_handle b)) @
         '',\"cpu0\":'' @ show_nat (fst cpu) @ '',\"cpu1\":'' @ show_nat (snd cpu) @ '',\"temp_c\":'' @ wi_temp_text i @ '',\"ble\":true'')"

definition build_stats_json :: "nat \<Rightarrow> web_in \<Rightarrow> web_state \<Rightarrow> web_state \<times> string" where
  "build_stats_json cap i w =
     (let (s, c0, c1) = sample_cpu_pct (wi_tasks i) (wi_now_us i) (wb_cpu w);
          full = stats_line i (c0, c1) w;
          full = (case wi_nat i of
                    Some (rx, tx) \<Rightarrow> if length full < cap
                      then full @ '',\"ap_rx\":'' @ show_nat (unat rx) @ '',\"ap_tx\":'' @ show_nat (unat tx) else full
                  | None \<Rightarrow> full);
          full = (if length full < cap then full @ ''}'' else full)
      in (w\<lparr>wb_cpu := s\<rparr>, snprintf_text cap full))"

section \<open>The Wi-Fi history\<close>

datatype wifi_field = WF_RSSI | WF_AP | WF_RTT | WF_STA

definition field_text :: "wifi_field \<Rightarrow> wifi_sample \<Rightarrow> string" where
  "field_text f s =
     (case f of
        WF_RSSI \<Rightarrow> if ws_sta_rssi s = 0 then ''null'' else show_int (ws_sta_rssi s)
      | WF_AP \<Rightarrow> if ws_ap_rssi s = 0 then ''null'' else show_int (ws_ap_rssi s)
      | WF_RTT \<Rightarrow> if ws_rtt_ms s = 0xFFFF then ''null'' else show_nat (unat (ws_rtt_ms s))
      | WF_STA \<Rightarrow> show_nat (unat (ws_sta_count s)))"

definition HIST_BUF :: nat where "HIST_BUF = 768"

text \<open>The loop over the samples: the chunks sent and the text still in the buffer.\<close>

fun hist_loop :: "wifi_field \<Rightarrow> bool \<Rightarrow> wifi_sample list \<Rightarrow> string list \<Rightarrow> string \<Rightarrow> string list \<times> string" where
  "hist_loop f first [] chunks b = (chunks, b)"
| "hist_loop f first (s # ss) chunks b =
     (let (chunks, b) = (if length b > HIST_BUF - 16 then (chunks @ [b], '''') else (chunks, b))
      in hist_loop f False ss chunks (b @ (if first then '''' else '','') @ field_text f s))"

definition wifihist_emit :: "string \<Rightarrow> wifi_field \<Rightarrow> wifi_sample list \<Rightarrow> bool \<Rightarrow> string list" where
  "wifihist_emit name f ss comma_after =
     (let (chunks, b) = hist_loop f True ss [] (''\"'' @ name @ ''\":['')
      in chunks @ [b @ '']'' @ (if comma_after then '','' else '''')])"

definition wifihist_get :: "web_state \<Rightarrow> http_resp" where
  "wifihist_get w =
     (let ss = get_history 120 (wb_live w)
      in Http_chunked ''application/json'' []
           ([''{\"interval\":'' @ show_nat (unat (lw_interval_s (wb_live w))) @ '',\"count\":'' @ show_nat (length ss) @ '',''] @
            wifihist_emit ''rssi'' WF_RSSI ss True @ wifihist_emit ''ap'' WF_AP ss True @
            wifihist_emit ''rtt'' WF_RTT ss True @ wifihist_emit ''sta'' WF_STA ss False @ [''}'']))"

section \<open>The endpoints\<close>

definition json_reply :: "string \<Rightarrow> http_resp" where
  "json_reply s = Http_ok ''application/json'' s"

definition post_setting :: "nat \<Rightarrow> setting \<Rightarrow> web_in \<Rightarrow> web_state \<Rightarrow> web_state \<times> http_resp" where
  "post_setting cap s i w =
     (case wi_query i cap of
        None \<Rightarrow> (w, Http_error 400 ''missing query'')
      | Some kv \<Rightarrow> (case handle_setting (wi_env i) s kv (wb_stats w) of (st, e) \<Rightarrow> (w\<lparr>wb_stats := st\<rparr>, post_reply e)))"

definition trace_post :: "web_in \<Rightarrow> web_state \<Rightarrow> web_state \<times> http_resp" where
  "trace_post i w =
     (let kv = (case wi_query i 32 of Some kv \<Rightarrow> kv | None \<Rightarrow> (\<lambda>_ _. None));
          (st, on) = handle_trace_set (wi_env i) kv (wb_stats w)
      in (w\<lparr>wb_stats := st\<rparr>, json_reply (if on then ''{\"trace\":true}'' else ''{\"trace\":false}'')))"

definition reboot_post :: "web_state \<Rightarrow> web_state \<times> http_resp" where
  "reboot_post w = (w\<lparr>wb_stats := schedule_reboot (wb_stats w)\<rparr>, Http_ok ''text/plain'' (''rebooting'' @ [CHR 0x0A]))"

definition liveness_get :: "web_in \<Rightarrow> web_state \<Rightarrow> http_resp" where
  "liveness_get i w =
     (let (en, intv, thr, f, age) = get_state (wi_uptime_s i) (wb_live w)
      in json_reply (snprintf_text 160 (''{\"enabled\":'' @ json_bool en @ '',\"interval\":'' @ show_nat (unat intv) @ '',\"threshold\":'' @
           show_nat (unat thr) @ '',\"failures\":'' @ show_nat (unat f) @ '',\"last_ok_s\":'' @
           (if age = 0xFFFFFFFF then ''null'' else show_nat (unat age)) @ ''}'')))"

definition liveness_post :: "web_in \<Rightarrow> web_state \<Rightarrow> web_state \<times> http_resp" where
  "liveness_post i w =
     (case wi_query i 96 of
        None \<Rightarrow> (w, Http_error 400 ''missing query'')
      | Some kv \<Rightarrow>
          let tst = (case kv ''test'' 12 of Some v \<Rightarrow> c_atoi v \<noteq> 0 | None \<Rightarrow> False) in
          if tst then (w\<lparr>wb_live := force_fail_test (wb_live w)\<rparr>, json_reply ''{\"ok\":true,\"test\":true}'')
          else
            let en = (case kv ''enabled'' 12 of Some v \<Rightarrow> if c_atoi v \<noteq> 0 then 1 else 0 | None \<Rightarrow> -1);
                intv = (case kv ''interval'' 12 of Some v \<Rightarrow> c_atoi v | None \<Rightarrow> -1);
                thr = (case kv ''threshold'' 12 of Some v \<Rightarrow> c_atoi v | None \<Rightarrow> -1);
                ((l, n), e) = set_params (se_nvs (wi_env i)) en intv thr (wb_live w, st_nvs (wb_stats w))
            in (w\<lparr>wb_live := l, wb_stats := (wb_stats w)\<lparr>st_nvs := n\<rparr>\<rparr>, post_reply e))"

datatype http_method = HTTP_GET | HTTP_POST

datatype endpoint = E_root | E_favicon | E_stats | E_log | E_level_g | E_level_p | E_reboot | E_trace | E_txpower_g | E_txpower_p
  | E_cpufreq_g | E_cpufreq_p | E_advitvl_g | E_advitvl_p | E_wifips_g | E_wifips_p | E_hostname_g | E_hostname_p | E_appinfo_g
  | E_liveness_g | E_liveness_p | E_wifihist_g | E_scan_g | E_scan_p | E_devices

definition register_endpoints :: "((string \<times> http_method) \<times> endpoint) list" where
  "register_endpoints =
     [((''/'', HTTP_GET), E_root), ((''/favicon.svg'', HTTP_GET), E_favicon), ((''/stats.json'', HTTP_GET), E_stats),
      ((''/log'', HTTP_GET), E_log), ((''/level'', HTTP_GET), E_level_g), ((''/level'', HTTP_POST), E_level_p),
      ((''/reboot'', HTTP_POST), E_reboot), ((''/trace'', HTTP_POST), E_trace),
      ((''/txpower'', HTTP_GET), E_txpower_g), ((''/txpower'', HTTP_POST), E_txpower_p),
      ((''/cpufreq'', HTTP_GET), E_cpufreq_g), ((''/cpufreq'', HTTP_POST), E_cpufreq_p),
      ((''/advitvl'', HTTP_GET), E_advitvl_g), ((''/advitvl'', HTTP_POST), E_advitvl_p),
      ((''/wifips'', HTTP_GET), E_wifips_g), ((''/wifips'', HTTP_POST), E_wifips_p),
      ((''/hostname'', HTTP_GET), E_hostname_g), ((''/hostname'', HTTP_POST), E_hostname_p), ((''/appinfo'', HTTP_GET), E_appinfo_g),
      ((''/liveness'', HTTP_GET), E_liveness_g), ((''/liveness'', HTTP_POST), E_liveness_p), ((''/wifihist'', HTTP_GET), E_wifihist_g),
      ((''/scan'', HTTP_GET), E_scan_g), ((''/scan'', HTTP_POST), E_scan_p), ((''/devices'', HTTP_GET), E_devices)]"

definition run_endpoint :: "string \<Rightarrow> string \<Rightarrow> web_in \<Rightarrow> endpoint \<Rightarrow> web_state \<Rightarrow> web_state \<times> http_resp" where
  "run_endpoint html svg i e w =
     (let st = wb_stats w in
      case e of
        E_root \<Rightarrow> (w, Http_ok ''text/html'' html)
      | E_favicon \<Rightarrow> (w, Http_chunked ''image/svg+xml'' [(''Cache-Control'', ''public, max-age=86400'')] [svg])
      | E_stats \<Rightarrow> (case build_stats_json 320 i w of (w, s) \<Rightarrow> (w, json_reply s))
      | E_log \<Rightarrow> (w, fst (log_get (case wi_query i 64 of Some kv \<Rightarrow> kv | None \<Rightarrow> (\<lambda>_ _. None)) (wi_rings i) (wi_sends i)))
      | E_level_g \<Rightarrow> (w, json_reply (build_level_json 32 st))
      | E_level_p \<Rightarrow> post_setting 64 Set_level i w
      | E_reboot \<Rightarrow> reboot_post w
      | E_trace \<Rightarrow> trace_post i w
      | E_txpower_g \<Rightarrow> (w, json_reply (build_txpower_json 48 st))
      | E_txpower_p \<Rightarrow> post_setting 64 Set_txpower i w
      | E_cpufreq_g \<Rightarrow> (w, json_reply (build_cpufreq_json 64 st))
      | E_cpufreq_p \<Rightarrow> post_setting 32 Set_cpufreq i w
      | E_advitvl_g \<Rightarrow> (w, json_reply (build_advitvl_json 32 st))
      | E_advitvl_p \<Rightarrow> post_setting 32 Set_advitvl i w
      | E_wifips_g \<Rightarrow> (w, json_reply (build_wifips_json 32 st))
      | E_wifips_p \<Rightarrow> post_setting 32 Set_wifips i w
      | E_hostname_g \<Rightarrow> (w, json_reply (build_hostname_json 96 st))
      | E_hostname_p \<Rightarrow> post_setting (HOSTNAME_MAX + 8) Set_hostname i w
      | E_appinfo_g \<Rightarrow> (w, json_reply (build_appinfo_json 256 (wi_app i)))
      | E_liveness_g \<Rightarrow> (w, liveness_get i w)
      | E_liveness_p \<Rightarrow> liveness_post i w
      | E_wifihist_g \<Rightarrow> (w, wifihist_get w)
      | E_scan_g \<Rightarrow> (w, json_reply (build_scan_json 48 st))
      | E_scan_p \<Rightarrow> post_setting 64 Set_scan i w
      | E_devices \<Rightarrow> (w, json_reply (build_devices_json 6144 (wi_now_ms i) (bb_scanner (st_ble st)) (wb_bthome w))))"

text \<open>The HTTP server runs the handler registered for the method and the path; for any other it answers by itself.\<close>

definition web_serve :: "string \<Rightarrow> string \<Rightarrow> web_in \<Rightarrow> http_method \<Rightarrow> string \<Rightarrow> web_state \<Rightarrow> (web_state \<times> http_resp) option" where
  "web_serve html svg i m uri w = map_option (\<lambda>e. run_endpoint html svg i e w) (map_of register_endpoints (uri, m))"

definition record_read :: "web_state \<Rightarrow> web_state" where "record_read w = w\<lparr>wb_reads := wb_reads w + 1\<rparr>"
definition record_write :: "web_state \<Rightarrow> web_state" where "record_write w = w\<lparr>wb_writes := wb_writes w + 1\<rparr>"
definition record_notify :: "web_state \<Rightarrow> web_state" where "record_notify w = w\<lparr>wb_notifies := wb_notifies w + 1\<rparr>"

section \<open>Properties\<close>

lemma show_int_length: "- (10 ^ k) < i \<Longrightarrow> i < 10 ^ k \<Longrightarrow> 0 < k \<Longrightarrow> length (show_int i) \<le> Suc k"
  using length_show_nat [of "nat (- i)" k] length_show_nat [of "nat i" k]
  by (auto simp: show_int_def nat_less_iff)

lemma json_bool_length: "length (json_bool b) \<le> 5"
  by (simp add: json_bool_def)

text \<open>What the setters and loaders keep of the settings.\<close>

definition settings_ok :: "stats_state \<Rightarrow> bool" where
  "settings_ok st \<longleftrightarrow>
     0 \<le> st_nimble_level st \<and> st_nimble_level st \<le> 5 \<and> 2 \<le> st_wifi_tx_dbm st \<and> st_wifi_tx_dbm st \<le> 21 \<and>
     -12 \<le> st_ble_tx_dbm st \<and> st_ble_tx_dbm st \<le> 9 \<and> 0 \<le> st_wifi_li st \<and> st_wifi_li st \<le> 10 \<and>
     (st_cpu_freq_mhz st = 80 \<or> st_cpu_freq_mhz st = 160 \<or> st_cpu_freq_mhz st = 240) \<and> is_valid_hostname (st_hostname st)"

text \<open>The JSON replies of the settings are complete. For settings in their ranges, the replies for log level,
  transmit power, CPU frequency, Wi-Fi power save and host name are never cut by the buffers they are written into;
  in particular each ends with its closing brace.\<close>

theorem setting_replies_complete:
  assumes "settings_ok st"
  shows "build_level_json 32 st = ''{\"nimble\":'' @ show_int (st_nimble_level st) @ ''}'' \<and>
         build_txpower_json 48 st = ''{\"wifi\":'' @ show_int (if st_wifi_off st then 0 else st_wifi_tx_dbm st) @ '',\"ble\":'' @
           show_int (st_ble_tx_dbm st) @ '',\"ble_off\":'' @ json_bool (bb_powered_off (st_ble st)) @ ''}'' \<and>
         build_cpufreq_json 64 st = ''{\"mhz\":'' @ show_int (st_cpu_freq_mhz st) @ '',\"ls\":'' @ json_bool (st_light_sleep st) @
           '',\"pdcpu\":'' @ json_bool (st_cpu_pd st) @ ''}'' \<and>
         build_wifips_json 32 st = ''{\"li\":'' @ show_int (st_wifi_li st) @ ''}'' \<and>
         build_hostname_json 96 st = ''{\"hostname\":\"'' @ st_hostname st @ ''\",\"default\":\"nimble-proxy\"}''"
proof -
  have "length (show_int (st_nimble_level st)) \<le> 3" "length (show_int (if st_wifi_off st then 0 else st_wifi_tx_dbm st)) \<le> 3"
    "length (show_int (st_ble_tx_dbm st)) \<le> 3" "length (show_int (st_cpu_freq_mhz st)) \<le> 4" "length (show_int (st_wifi_li st)) \<le> 3"
    using assms show_int_length [of 2] show_int_length [of 3 "st_cpu_freq_mhz st"] by (auto simp: settings_ok_def numeral_eq_Suc)
  moreover have "length (st_hostname st) \<le> 30" using assms by (simp add: settings_ok_def is_valid_hostname_def HOSTNAME_MAX_def)
  ultimately show ?thesis
    using json_bool_length [of "bb_powered_off (st_ble st)"] json_bool_length [of "st_light_sleep st"] json_bool_length [of "st_cpu_pd st"]
    unfolding build_level_json_def build_txpower_json_def build_cpufreq_json_def build_wifips_json_def build_hostname_json_def Let_def DEFAULT_HOSTNAME_def
    by (intro conjI) (subst snprintf_text_fits; simp)+
qed

lemma stats_initial_ok: "settings_ok (stats_initial n)"
proof -
  have "is_valid_hostname DEFAULT_HOSTNAME" by code_simp
  then show ?thesis by (simp add: settings_ok_def stats_initial_def ESP_LOG_WARN_def)
qed

theorem setting_replies_complete_witness:
  "build_level_json 32 (stats_initial (\<lambda>_ _. None)) = ''{\"nimble\":2}''"
proof -
  have "show_int 2 = ''2''" by code_simp
  then show ?thesis using setting_replies_complete [OF stats_initial_ok [of "\<lambda>_ _. None"]]
    by (simp add: stats_initial_def ESP_LOG_WARN_def)
qed

text \<open>The reply for the scan duty is one character short for the largest accepted values: with a window and an
  interval of 10000 ms and passive scanning, the closing brace no longer fits and the reply is not JSON.\<close>

theorem scan_reply_truncated:
  "let st = fst (handle_scan_set good_env (\<lambda>k _. Some (if k = ''active'' then ''0'' else ''10000'')) (stats_boot good_env (\<lambda>_ _. None)))
   in build_scan_json 48 st = ''{\"window\":10000,\"interval\":10000,\"active\":false''"
proof -
  let ?kv = "\<lambda>k (_ :: nat). Some (if k = ''active'' then ''0'' else ''10000'')"
  let ?b = "stats_boot good_env (\<lambda>_ _. None)"
  have d: "digit_char 0 = CHR ''0''" "digit_char (Suc 0) = CHR ''1''" "c_atoi ''0'' = 0" by code_simp+
  have n: "show_nat 10000 = ''10000''" by (simp add: show_nat.simps d)
  have "c_atoi ''10000'' = 10000" using atoi_show [of 10000] n by (simp add: show_int_def)
  note a = this n d(3)
  have p: "sc_present (bb_scanner (st_ble ?b))" using boot_settings [of good_env "\<lambda>_ _. None"] by (simp add: good_env_def good_nvs_works)
  have sc: "bb_scanner (st_ble (fst (handle_scan_set good_env ?kv st))) =
      set_active (se_radio_ok good_env) False (set_duty (se_radio_ok good_env) 10000 10000 (bb_scanner (st_ble st)))" for st
    unfolding handle_scan_set_def Let_def by (simp add: a)
  show ?thesis unfolding Let_def build_scan_json_def sc using p by (simp add: a json_bool_def snprintf_text_def)
qed

lemma suspend_frames [simp]:
  "bb_adv_auto_suspend (set_adv_interval_ms ok ms b) = bb_adv_auto_suspend b"
  "bb_adv_auto_suspend (set_advertising_enabled ok on b) = bb_adv_auto_suspend b"
  by (auto simp: set_adv_interval_ms_def set_advertising_enabled_def apply_adv_state_def Let_def split: option.split)

text \<open>Rounding to 0.625 ms and back.\<close>

lemma adv_ms_roundtrip: "(m * 1000 div 625 * 625 + 500) div 1000 = (m :: nat)"
proof -
  have "m * 1000 div 625 = m * 8 div 5" using div_mult_mult1 [of 125 "m * 8" 5] by simp
  moreover have "(q * 625 + 500) div 1000 = (q * 5 + 4) div 8" for q :: nat
    using div_mult_mult1 [of 125 "q * 5 + 4" 8] by (simp add: algebra_simps)
  moreover have "(m * 8 div 5 * 5 + 4) div 8 = m" by presburger
  ultimately show ?thesis by simp
qed

lemma adv_units_unat: "20 \<le> i \<Longrightarrow> i \<le> 10240 \<Longrightarrow> unat (adv_units (word_of_int (int i))) = i * 1000 div 625"
proof -
  assume i: "20 \<le> i" "i \<le> 10240"
  let ?w = "word_of_int (int i) :: u16"
  have u: "unat ?w = i" using i by (simp add: unat_of_nat)
  have c: "\<not> ?w < 20" "\<not> 10240 < ?w" "?w \<noteq> 0" using i u by (auto simp: word_less_nat_alt unat_eq_zero)
  have a: "unat ((ucast ?w :: u32) * 1000) = i * 1000" using i u by (simp add: unat_word_ariths unat_ucast_u16_u32)
  have d: "unat ((ucast ?w :: u32) * 1000 div 625) = i * 1000 div 625" by (simp only: unat_div a) simp
  have "i * 1000 div 625 \<le> 16384" using i div_le_mono [of "i * 1000" 10240000 625] by simp
  then have "unat (ucast ((ucast ?w :: u32) * 1000 div 625) :: u16) = i * 1000 div 625"
    using d by (simp add: unsigned_ucast_eq take_bit_nat_eq_self)
  moreover have "adv_units ?w = ucast ((ucast ?w :: u32) * 1000 div 625)"
    using c unfolding adv_units_def set_adv_interval_ms_def Let_def by (simp add: ble_initial_def)
  ultimately show ?thesis by simp
qed

text \<open>The advertising interval reads back as it was set. After a request with an interval of 20 to 10240 ms, or 0
  for the host's default, is accepted, the getter reports that very number of milliseconds as long as advertising is
  not suspended, although the interval is kept rounded in units of 0.625 ms; after a request for -1 it reports -1.\<close>

theorem advitvl_reads_back:
  assumes "kv ''ms'' 8 = Some (show_int m)" "handle_advitvl_set env kv st = (st', None)" "\<not> bb_adv_auto_suspend (st_ble st)"
  shows "advitvl_ms (st_ble st') = m"
proof -
  have m: "c_atoi (show_int m) = m" by (rule atoi_show)
  consider "m = -1" | "m = 0" | "20 \<le> m" "m \<le> 10240"
    using assms(1,2) m by (auto simp: handle_advitvl_set_def Let_def split: if_splits)
  then show ?thesis
  proof cases
    case 1
    then show ?thesis using assms(1,2) m
      by (auto simp: handle_advitvl_set_def Let_def advitvl_ms_def advertising_enabled_def adv_allowed_def split: if_splits prod.splits bool.splits)
  next
    case 2
    have "adv_units 0 = 0" by (simp add: adv_units_def set_adv_interval_ms_def ble_initial_def)
    moreover have "bb_adv_interval_units (st_ble st') = adv_units 0 \<and> bb_adv_enabled (st_ble st') \<and> \<not> bb_adv_auto_suspend (st_ble st')"
      using assms m 2 by (auto simp: handle_advitvl_set_def Let_def set_adv_interval_units split: if_splits prod.splits bool.splits)
    ultimately show ?thesis using 2 by (simp add: advitvl_ms_def advertising_enabled_def adv_allowed_def)
  next
    case 3
    have st': "bb_adv_interval_units (st_ble st') = adv_units (word_of_int m) \<and> bb_adv_enabled (st_ble st') \<and> \<not> bb_adv_auto_suspend (st_ble st')"
      using assms m 3 by (auto simp: handle_advitvl_set_def Let_def set_adv_interval_units split: if_splits prod.splits bool.splits)
    define u where "u = adv_units (word_of_int m)"
    have un: "unat u = nat m * 1000 div 625" using adv_units_unat [of "nat m"] 3 by (simp add: u_def)
    have le: "unat u \<le> 16384" using 3 div_le_mono [of "nat m * 1000" 10240000 625] by (simp add: un)
    have ge: "u \<noteq> 0" using un 3 div_le_mono [of 20000 "nat m * 1000" 625] by (auto simp: unat_eq_zero)
    have a: "unat ((ucast u :: u32) * 625 + 500) = unat u * 625 + 500" using le by (simp add: unat_word_ariths unat_ucast_u16_u32)
    have "unat (((ucast u :: u32) * 625 + 500) div 1000) = nat m"
      by (simp only: unat_div a) (simp add: un adv_ms_roundtrip)
    then have "uint (((ucast u :: u32) * 625 + 500) div 1000) = m" using 3 by (simp add: uint_nat)
    then show ?thesis using st' ge by (simp add: advitvl_ms_def advertising_enabled_def adv_allowed_def Let_def flip: u_def)
  qed
qed

theorem advitvl_reads_back_witness:
  "advitvl_ms (st_ble (fst (handle_advitvl_set good_env (\<lambda>_ _. Some (show_int 21)) (stats_initial (\<lambda>_ _. None))))) = 21"
proof -
  have "snd (handle_advitvl_set good_env (\<lambda>_ _. Some (show_int 21)) (stats_initial (\<lambda>_ _. None))) = None"
    by (simp add: handle_advitvl_set_def atoi_show good_env_def good_nvs_def nvs_write_def Let_def)
  then show ?thesis
    using advitvl_reads_back [of "\<lambda>_ _. Some (show_int 21)" 21 good_env "stats_initial (\<lambda>_ _. None)",
        OF refl prod.collapse [symmetric, THEN trans]]
    by (simp add: stats_initial_def ble_initial_def prod_eq_iff)
qed

section \<open>The load sampler\<close>

lemma busy_pct_range: "0 < e \<Longrightarrow> unat e * 100 < 2 ^ 64 \<Longrightarrow> unat (busy_pct e d) \<le> 100"
proof -
  assume e: "0 < e" "unat e * 100 < 2 ^ 64"
  define idle where "idle = (if (ucast d :: u64) > e then e else ucast d)"
  have le: "idle \<le> e" by (auto simp: idle_def not_less)
  define busy where "busy = e - idle"
  have b: "unat busy \<le> unat e" unfolding busy_def using le by (simp add: unat_sub)
  then have "unat (100 * busy) = 100 * unat busy" using e(2) by (simp add: unat_word_ariths)
  then have "unat (busy_pct e d) = 100 * unat busy div unat e"
    unfolding busy_pct_def Let_def idle_def [symmetric] busy_def [symmetric] by (simp only: unat_div)
  also have "\<dots> \<le> 100 * unat e div unat e" using b by (intro div_le_mono) simp
  also have "\<dots> = 100" using e(1) by (simp add: word_less_nat_alt)
  finally show ?thesis .
qed

text \<open>The two CPU loads are percentages, whatever the idle counters do (they wrap, and may run ahead of the wall
  clock): 0 on the first sample or when the tasks cannot be listed, else 0 to 100.\<close>

theorem cpu_pct_range:
  assumes "sample_cpu_pct tasks now s = (s', c0, c1)" "unat (now - cpu_prev_us s) * 100 < 2 ^ 64"
  shows "c0 \<le> 100 \<and> c1 \<le> 100 \<and> (cpu_prev_us s = 0 \<longrightarrow> c0 = 0 \<and> c1 = 0)"
  using assms busy_pct_range [of "now - cpu_prev_us s"]
  by (auto simp: sample_cpu_pct_def Let_def word_greater_zero_iff split: if_splits)

theorem cpu_pct_range_witness:
  "fst (snd (sample_cpu_pct [(''IDLE0'', 40), (''IDLE1'', 90)] 1100 \<lparr>cpu_prev_us = 1000, cpu_prev_idle0 = 10, cpu_prev_idle1 = 20\<rparr>)) \<le> 100"
proof -
  obtain s' c0 c1 where r: "sample_cpu_pct [(''IDLE0'', 40), (''IDLE1'', 90)] 1100 \<lparr>cpu_prev_us = 1000, cpu_prev_idle0 = 10, cpu_prev_idle1 = 20\<rparr> = (s', c0, c1)"
    by (metis prod.collapse)
  from cpu_pct_range [OF r] show ?thesis by (simp add: r)
qed

section \<open>The chunked history\<close>

fun samples_text :: "wifi_field \<Rightarrow> bool \<Rightarrow> wifi_sample list \<Rightarrow> string" where
  "samples_text f first [] = ''''"
| "samples_text f first (s # ss) = (if first then '''' else '','') @ field_text f s @ samples_text f False ss"

definition sample_ok :: "wifi_sample \<Rightarrow> bool" where
  "sample_ok s \<longleftrightarrow> -128 \<le> ws_sta_rssi s \<and> ws_sta_rssi s \<le> 127 \<and> -128 \<le> ws_ap_rssi s \<and> ws_ap_rssi s \<le> 127"

lemma field_text_length: "sample_ok s \<Longrightarrow> length (field_text f s) \<le> 5"
proof -
  assume s: "sample_ok s"
  have "unat (ws_rtt_ms s) < 10 ^ 5" "unat (ws_sta_count s) < 10 ^ 5"
    using unsigned_less [of "ws_rtt_ms s", where 'a = nat] unsigned_less [of "ws_sta_count s", where 'a = nat] by simp_all
  then show ?thesis
    using s show_int_length [of 3 "ws_sta_rssi s"] show_int_length [of 3 "ws_ap_rssi s"]
      length_show_nat [of "unat (ws_rtt_ms s)" 5] length_show_nat [of "unat (ws_sta_count s)" 5]
    by (cases f) (simp_all add: field_text_def sample_ok_def)
qed

lemma hist_loop_text:
  "concat (fst (hist_loop f first ss cs b)) @ snd (hist_loop f first ss cs b) = concat cs @ b @ samples_text f first ss"
  by (induction ss arbitrary: first cs b) (simp_all add: Let_def)

lemma hist_loop_bounds:
  "list_all sample_ok ss \<Longrightarrow> list_all (\<lambda>c. length c \<le> HIST_BUF) cs \<Longrightarrow> length b \<le> HIST_BUF - 10 \<Longrightarrow>
   list_all (\<lambda>c. length c \<le> HIST_BUF) (fst (hist_loop f first ss cs b)) \<and> length (snd (hist_loop f first ss cs b)) \<le> HIST_BUF - 10"
proof (induction f first ss cs b rule: hist_loop.induct)
  case (2 f first s ss cs b)
  have t: "length ((if first then '''' else '','') @ field_text f s) \<le> 6"
    using field_text_length [of s f] 2(2) by simp
  show ?case
  proof (cases "length b > HIST_BUF - 16")
    case True
    then show ?thesis using 2(1) [of "(cs @ [b], '''')" "cs @ [b]" "''''"] 2(2-4) t by (simp add: HIST_BUF_def)
  next
    case False
    then show ?thesis using 2(1) [of "(cs, b)" cs b] 2(2-4) t by (simp add: HIST_BUF_def)
  qed
qed simp

text \<open>The chunked history is complete and stays inside its buffer. For any samples the driver can deliver, each
  chunk handed to the server fits the 768-byte buffer, and the chunks together are exactly the JSON array of the
  samples, separated by commas, whatever the places at which the buffer was flushed.\<close>

theorem wifihist_exact:
  assumes "list_all sample_ok ss" "length name \<le> 8"
  shows "list_all (\<lambda>c. length c \<le> HIST_BUF) (wifihist_emit name f ss comma) \<and>
         concat (wifihist_emit name f ss comma) = ''\"'' @ name @ ''\":['' @ samples_text f True ss @ '']'' @ (if comma then '','' else '''')"
  using hist_loop_text [of f True ss "[]" "''\"'' @ name @ ''\":[''"] assms
    hist_loop_bounds [of ss "[]" "''\"'' @ name @ ''\":[''" f True]
  by (auto simp: wifihist_emit_def case_prod_beta HIST_BUF_def)

theorem wifihist_exact_witness:
  "concat (wifihist_emit ''rtt'' WF_RTT [blank_sample\<lparr>ws_rtt_ms := 7\<rparr>, blank_sample\<lparr>ws_rtt_ms := 0xFFFF\<rparr>] True) = ''\"rtt\":[7,null],''"
proof -
  have "show_nat 7 = ''7''" by code_simp
  then show ?thesis
    using wifihist_exact [of "[blank_sample\<lparr>ws_rtt_ms := 7\<rparr>, blank_sample\<lparr>ws_rtt_ms := 0xFFFF\<rparr>]" "''rtt''" WF_RTT True]
    by (simp add: sample_ok_def blank_sample_def field_text_def)
qed

section \<open>Reading changes nothing\<close>

lemma endpoints_distinct: "distinct (map fst register_endpoints)"
  by (simp add: register_endpoints_def)

lemma get_endpoints:
  "((uri, HTTP_GET), e) \<in> set register_endpoints \<Longrightarrow>
   e \<in> {E_root, E_favicon, E_stats, E_log, E_level_g, E_txpower_g, E_cpufreq_g, E_advitvl_g, E_wifips_g, E_hostname_g, E_appinfo_g,
        E_liveness_g, E_wifihist_g, E_scan_g, E_devices}"
  by (simp add: register_endpoints_def) blast

lemma post_endpoints:
  "((uri, HTTP_POST), e) \<in> set register_endpoints \<Longrightarrow>
   uri = ''/reboot'' \<or> uri = ''/trace'' \<or>
   e \<in> {E_level_p, E_txpower_p, E_cpufreq_p, E_advitvl_p, E_wifips_p, E_hostname_p, E_liveness_p, E_scan_p}"
  by (simp add: register_endpoints_def) blast

lemma run_get:
  "run_endpoint html svg i e w = (w', r) \<Longrightarrow> ((uri, HTTP_GET), e) \<in> set register_endpoints \<Longrightarrow> w' = w\<lparr>wb_cpu := wb_cpu w'\<rparr>"
  using get_endpoints [of uri e]
  by (auto simp: run_endpoint_def build_stats_json_def Let_def split: prod.splits)

lemma run_post_no_query:
  "run_endpoint html svg i e w = (w', r) \<Longrightarrow> ((uri, HTTP_POST), e) \<in> set register_endpoints \<Longrightarrow> wi_query i = (\<lambda>_. None) \<Longrightarrow>
   uri \<noteq> ''/reboot'' \<Longrightarrow> uri \<noteq> ''/trace'' \<Longrightarrow> w' = w \<and> r = Http_error 400 ''missing query''"
  using post_endpoints [of uri e]
  by (auto simp: run_endpoint_def post_setting_def liveness_post_def Let_def)

text \<open>Reading is free of side effects. Each of the 25 method and path pairs has exactly one handler; a GET
  request, for whatever path, changes nothing but the load sampler's previous sample; and every POST request that has
  no query where one is needed is answered by 400 without effect.\<close>

theorem get_requests_pure:
  assumes "web_serve html svg i m uri w = Some (w', r)"
  shows "distinct (map fst register_endpoints) \<and> (m = HTTP_GET \<longrightarrow> w' = w\<lparr>wb_cpu := wb_cpu w'\<rparr>) \<and>
         (m = HTTP_POST \<and> uri \<noteq> ''/reboot'' \<and> uri \<noteq> ''/trace'' \<and> wi_query i = (\<lambda>_. None) \<longrightarrow>
            w' = w \<and> r = Http_error 400 ''missing query'')"
proof -
  obtain e where e: "map_of register_endpoints (uri, m) = Some e" "run_endpoint html svg i e w = (w', r)"
    using assms by (auto simp: web_serve_def)
  from map_of_SomeD [OF e(1)] have mem: "((uri, m), e) \<in> set register_endpoints" .
  show ?thesis using endpoints_distinct run_get [OF e(2), of uri] run_post_no_query [OF e(2), of uri] mem by blast
qed

theorem get_requests_pure_witness:
  "\<forall>html svg i w. \<exists>w' r. web_serve html svg i HTTP_GET ''/level'' w = Some (w', r) \<and> w' = w\<lparr>wb_cpu := wb_cpu w'\<rparr>"
proof (intro allI)
  fix html svg i w
  have "map_of register_endpoints (''/level'', HTTP_GET) = Some E_level_g" by (simp add: register_endpoints_def)
  then have s: "web_serve html svg i HTTP_GET ''/level'' w = Some (w, json_reply (build_level_json 32 (wb_stats w)))"
    by (simp add: web_serve_def run_endpoint_def)
  from get_requests_pure [OF this] s
  show "\<exists>w' r. web_serve html svg i HTTP_GET ''/level'' w = Some (w', r) \<and> w' = w\<lparr>wb_cpu := wb_cpu w'\<rparr>" by blast
qed

end
