(* ===== verification/Serial_Provision.thy ===== *)
theory Serial_Provision
  imports Httpd Nvs
begin

text \<open>
  Provisioning over the serial console, \<^verbatim>\<open>components/serial_provision/serial_provision.cpp\<close>: during a window after
  boot, bytes from two ports are gathered into lines; a line that carries Wi-Fi credentials or the access-point
  configuration, in base64 tokens, is checked and stored, acknowledged, and (for credentials) followed by a restart.
\<close>

unbundle bit_operations_syntax

section \<open>Base64\<close>

definition b64_value :: "char \<Rightarrow> int" where
  "b64_value c =
     (let n = (of_char c :: int) in
      if 65 \<le> n \<and> n \<le> 90 then n - 65
      else if 97 \<le> n \<and> n \<le> 122 then n - 97 + 26
      else if 48 \<le> n \<and> n \<le> 57 then n - 48 + 52
      else if c = CHR ''+'' then 62
      else if c = CHR ''/'' then 63
      else -1)"

definition is_hex_string :: "string \<Rightarrow> bool" where
  "is_hex_string s = list_all is_xdigit s"

text \<open>The four characters of a group: their values and the number of padding characters, which only padding may follow.\<close>

fun b64_vals :: "string \<Rightarrow> nat \<Rightarrow> (int list \<times> nat) option" where
  "b64_vals [] pad = Some ([], pad)"
| "b64_vals (c # cs) pad =
     (if c = CHR ''='' then map_option (\<lambda>(vs, p). (0 # vs, p)) (b64_vals cs (pad + 1))
      else if pad \<noteq> 0 then None
      else if b64_value c < 0 then None
      else map_option (\<lambda>(vs, p). (b64_value c # vs, p)) (b64_vals cs pad))"

definition b64_triple :: "int list \<Rightarrow> u32" where
  "b64_triple vs = push_bit 18 (word_of_int (vs ! 0)) OR push_bit 12 (word_of_int (vs ! 1)) OR
                   push_bit 6 (word_of_int (vs ! 2)) OR word_of_int (vs ! 3)"

text \<open>The bytes of a group, each subject to the length limit, the buffer, and the ban on NUL.\<close>

fun b64_emit :: "nat \<Rightarrow> nat \<Rightarrow> u32 \<Rightarrow> nat list \<Rightarrow> string \<Rightarrow> string option" where
  "b64_emit cap max_len triple [] out = Some out"
| "b64_emit cap max_len triple (j # js) out =
     (if length out \<ge> max_len \<or> length out + 1 \<ge> cap then None
      else let decoded = char_of (unat (drop_bit (16 - 8 * j) triple AND 0xFF)) in
           if decoded = CHR 0x00 then None else b64_emit cap max_len triple js (out @ [decoded]))"

fun b64_groups :: "nat \<Rightarrow> nat \<Rightarrow> string \<Rightarrow> string \<Rightarrow> string option" where
  "b64_groups cap max_len (a # b # c # d # rest) out =
     (case b64_vals [a, b, c, d] 0 of
        None \<Rightarrow> None
      | Some (vs, pad) \<Rightarrow>
          if pad > 2 then None
          else case b64_emit cap max_len (b64_triple vs) [0..<3 - pad] out of
                 None \<Rightarrow> None
               | Some out \<Rightarrow> b64_groups cap max_len rest out)"
| "b64_groups cap max_len _ out = Some out"

definition decode_b64_token :: "string \<Rightarrow> nat \<Rightarrow> nat \<Rightarrow> string option" where
  "decode_b64_token s cap max_len =
     (if s = ''-'' then Some []
      else if length s = 0 \<or> length s mod 4 \<noteq> 0 then None
      else b64_groups cap max_len s [])"

section \<open>Lines\<close>

definition WIFI_PREFIX :: string where "WIFI_PREFIX = ''NBP-PROV1 ''"
definition NAT_PREFIX :: string where "NAT_PREFIX = ''NBP-NAT1 ''"

record line_result =
  lr_handled :: bool
  lr_reboot :: bool
  lr_ack :: "string option"

definition not_handled :: line_result where "not_handled = \<lparr>lr_handled = False, lr_reboot = False, lr_ack = None\<rparr>"
definition refused :: line_result where "refused = \<lparr>lr_handled = True, lr_reboot = False, lr_ack = None\<rparr>"

definition store_wifi_creds :: "nvs_env \<Rightarrow> string \<Rightarrow> string \<Rightarrow> nvs \<Rightarrow> nvs \<times> bool" where
  "store_wifi_creds ne ssid psk n = nvs_write ne ''wifi'' [(''ssid'', NV_str ssid), (''psk'', NV_str psk)] n"

definition store_nat_config :: "nvs_env \<Rightarrow> bool \<Rightarrow> string \<Rightarrow> string \<Rightarrow> bool \<Rightarrow> bool \<Rightarrow> nvs \<Rightarrow> nvs \<times> bool" where
  "store_nat_config ne enabled ssid psk update_ssid update_psk n =
     nvs_write ne ''nat''
       ([(''enabled'', NV_u8 (if enabled then 1 else 0))] @ (if update_ssid then [(''ap_ssid'', NV_str ssid)] else []) @
        (if update_psk then [(''ap_psk'', NV_str psk)] else [])) n"

definition rstrip :: "string \<Rightarrow> string" where
  "rstrip s = rev (dropWhile is_space (rev s))"

definition skip_blanks :: "string \<Rightarrow> string" where
  "skip_blanks s = dropWhile (\<lambda>c. c = CHR '' '') s"

text \<open>\<open>strchr(s, ' ')\<close>: the token before the first blank and what follows it.\<close>

definition cut_token :: "string \<Rightarrow> (string \<times> string) option" where
  "cut_token s = (if CHR '' '' \<in> set s then Some (takeWhile (\<lambda>c. c \<noteq> CHR '' '') s, skip_blanks (dropWhile (\<lambda>c. c \<noteq> CHR '' '') s)) else None)"

definition starts_with :: "string \<Rightarrow> string \<Rightarrow> bool" where
  "starts_with p s \<longleftrightarrow> take (length p) s = p"

definition handle_wifi_line :: "nvs_env \<Rightarrow> string \<Rightarrow> nvs \<Rightarrow> nvs \<times> line_result" where
  "handle_wifi_line ne line n =
     (if \<not> starts_with WIFI_PREFIX line then (n, not_handled)
      else case cut_token (skip_blanks (drop (length WIFI_PREFIX) line)) of
             None \<Rightarrow> (n, refused)
           | Some (ssid_b64, psk_b64) \<Rightarrow>
               (case decode_b64_token ssid_b64 33 32 of
                  None \<Rightarrow> (n, refused)
                | Some ssid \<Rightarrow>
                    if ssid = [] then (n, refused)
                    else case decode_b64_token (rstrip psk_b64) 65 64 of
                           None \<Rightarrow> (n, refused)
                         | Some psk \<Rightarrow>
                             if length psk > 0 \<and> length psk < 8 then (n, refused)
                             else if length psk = 64 \<and> \<not> is_hex_string psk then (n, refused)
                             else case store_wifi_creds ne ssid psk n of
                                    (n, False) \<Rightarrow> (n, refused)
                                  | (n, True) \<Rightarrow> (n, \<lparr>lr_handled = True, lr_reboot = True, lr_ack = Some (''NBP-PROV-OK'' @ [CHR 0x0A])\<rparr>)))"

definition handle_nat_line :: "nvs_env \<Rightarrow> string \<Rightarrow> nvs \<Rightarrow> nvs \<times> line_result" where
  "handle_nat_line ne line n =
     (if \<not> starts_with NAT_PREFIX line then (n, not_handled)
      else case cut_token (skip_blanks (drop (length NAT_PREFIX) line)) of
             None \<Rightarrow> (n, refused)
           | Some (enabled_token, rest) \<Rightarrow>
               (case cut_token rest of
                  None \<Rightarrow> (n, refused)
                | Some (ssid_b64, psk_b64) \<Rightarrow>
                    let psk_b64 = rstrip psk_b64 in
                    if enabled_token \<noteq> ''0'' \<and> enabled_token \<noteq> ''1'' then (n, refused)
                    else
                      let enabled = (enabled_token = ''1'');
                          update_ssid = (enabled \<and> ssid_b64 \<noteq> ''-'');
                          update_psk = (enabled \<and> psk_b64 \<noteq> ''-'')
                      in case (if update_ssid then decode_b64_token ssid_b64 33 32 else Some []) of
                           None \<Rightarrow> (n, refused)
                         | Some ssid \<Rightarrow>
                             (case (if update_psk then decode_b64_token psk_b64 64 63 else Some []) of
                                None \<Rightarrow> (n, refused)
                              | Some psk \<Rightarrow>
                                  if update_psk \<and> length psk < 8 then (n, refused)
                                  else case store_nat_config ne enabled ssid psk update_ssid update_psk n of
                                         (n, False) \<Rightarrow> (n, refused)
                                       | (n, True) \<Rightarrow> (n, \<lparr>lr_handled = True, lr_reboot = False, lr_ack = Some (''NBP-NAT-OK'' @ [CHR 0x0A])\<rparr>))))"

definition handle_line :: "nvs_env \<Rightarrow> string \<Rightarrow> nvs \<Rightarrow> nvs \<times> line_result" where
  "handle_line ne line n =
     (case handle_nat_line ne line n of (n, r) \<Rightarrow> if lr_handled r then (n, r) else handle_wifi_line ne line n)"

section \<open>Receiving\<close>

text \<open>The store, the acknowledgements written, and whether the device has restarted; each port has its own line.\<close>

record prov =
  pv_nvs :: nvs
  pv_acks :: "string list"
  pv_restarted :: bool

definition c_string :: "string \<Rightarrow> string" where
  "c_string s = takeWhile (\<lambda>c. c \<noteq> CHR 0x00) s"

definition append_rx :: "nvs_env \<Rightarrow> char \<Rightarrow> string \<times> prov \<Rightarrow> string \<times> prov" where
  "append_rx ne byte s =
     (let (line, pv) = s in
      if pv_restarted pv then s
      else if byte = CHR 0x0D then s
      else if byte = CHR 0x0A then
        (case handle_line ne (c_string line) (pv_nvs pv) of
           (n, r) \<Rightarrow>
             let pv = pv\<lparr>pv_nvs := n\<rparr>;
                 pv = (case lr_ack r of Some a \<Rightarrow> pv\<lparr>pv_acks := pv_acks pv @ [a]\<rparr> | None \<Rightarrow> pv)
             in ([], pv\<lparr>pv_restarted := lr_reboot r\<rparr>))
      else if length line + 1 < 512 then (line @ [byte], pv)
      else ([], pv))"

text \<open>One turn of the polling loop: the bytes of the UART, then those of the USB port.\<close>

definition poll_turn :: "nvs_env \<Rightarrow> string \<times> string \<Rightarrow> string \<times> string \<times> prov \<Rightarrow> string \<times> string \<times> prov" where
  "poll_turn ne bytes s =
     (let (uart_line, usb_line, pv) = s;
          (uart_line, pv) = fold (append_rx ne) (fst bytes) (uart_line, pv);
          (usb_line, pv) = fold (append_rx ne) (snd bytes) (usb_line, pv)
      in (uart_line, usb_line, pv))"

definition poll_boot_window :: "nvs_env \<Rightarrow> (string \<times> string) list \<Rightarrow> nvs \<Rightarrow> prov" where
  "poll_boot_window ne turns n =
     snd (snd (fold (poll_turn ne) turns ([], [], \<lparr>pv_nvs = n, pv_acks = [], pv_restarted = False\<rparr>)))"

section \<open>The encoder on the other side\<close>

definition b64_alphabet :: string where
  "b64_alphabet = ''ABCDEFGHIJKLMNOPQRSTUVWXYZabcdefghijklmnopqrstuvwxyz0123456789+/''"

definition b64_char :: "u8 \<Rightarrow> char" where
  "b64_char v = b64_alphabet ! unat v"

definition char_word :: "char \<Rightarrow> u8" where
  "char_word c = of_nat (of_char c)"

fun b64_encode :: "string \<Rightarrow> string" where
  "b64_encode [] = []"
| "b64_encode [x] = (let a = char_word x in
     [b64_char (drop_bit 2 a), b64_char (push_bit 4 (a AND 3)), CHR ''='', CHR ''=''])"
| "b64_encode [x, y] = (let a = char_word x; b = char_word y in
     [b64_char (drop_bit 2 a), b64_char (push_bit 4 (a AND 3) OR drop_bit 4 b), b64_char (push_bit 2 (b AND 15)), CHR ''=''])"
| "b64_encode (x # y # z # r) = (let a = char_word x; b = char_word y; c = char_word z in
     [b64_char (drop_bit 2 a), b64_char (push_bit 4 (a AND 3) OR drop_bit 4 b), b64_char (push_bit 2 (b AND 15) OR drop_bit 6 c),
      b64_char (c AND 63)] @ b64_encode r)"

section \<open>The decoder inverts the encoder\<close>

lemma b64_alphabet_value: "i < 64 \<Longrightarrow> b64_value (b64_alphabet ! i) = int i \<and> b64_alphabet ! i \<noteq> CHR ''=''"
proof -
  have "list_all (\<lambda>i. b64_value (b64_alphabet ! i) = int i \<and> b64_alphabet ! i \<noteq> CHR ''='') [0..<64]"
    by code_simp
  thus "i < 64 \<Longrightarrow> ?thesis" by (simp add: list_all_iff)
qed
lemma b64_masks: "(3 :: u8) = mask 2" "(15 :: u8) = mask 4" "(63 :: u8) = mask 6" "(0xFF :: u32) = mask 8"
  by (simp_all add: mask_eq_exp_minus_1)
lemma byte_bits_beyond: "8 \<le> k \<Longrightarrow> \<not> bit (x :: u8) k"
  using bit_imp_le_length[of x k] by auto

lemma low_byte_eqI:
  fixes w :: u32 and a :: u8
  assumes "\<And>n. n \<in> {0, 1, 2, 3, 4, 5, 6, 7} \<Longrightarrow> bit w n = bit a n"
  shows "w AND 0xFF = ucast a"
proof (rule bit_word_eqI)
  fix n assume "n < LENGTH(32)"
  show "bit (w AND 0xFF) n = bit (ucast a :: u32) n"
  proof (cases "n < 8")
    case True
    hence "n \<in> {0, 1, 2, 3, 4, 5, 6, 7}" by auto
    with assms True show ?thesis by (auto simp: b64_masks bit_simps)
  next
    case False
    thus ?thesis by (auto simp: b64_masks bit_simps byte_bits_beyond)
  qed
qed

definition b64_pack :: "u8 \<Rightarrow> u8 \<Rightarrow> u8 \<Rightarrow> u8 \<Rightarrow> u32" where
  "b64_pack v0 v1 v2 v3 = push_bit 18 (ucast v0) OR push_bit 12 (ucast v1) OR push_bit 6 (ucast v2) OR ucast v3"

lemma b64_pack_bytes:
  fixes a b c :: u8
  defines "t \<equiv> b64_pack (drop_bit 2 a) (push_bit 4 (a AND 3) OR drop_bit 4 b) (push_bit 2 (b AND 15) OR drop_bit 6 c) (c AND 63)"
  shows "drop_bit 16 t AND 0xFF = ucast a" "drop_bit 8 t AND 0xFF = ucast b" "t AND 0xFF = ucast c"
proof -
  have two: "Suc (Suc k) = k + 2" for k by simp
  note bits = b64_masks(1-3) bit_simps byte_bits_beyond
  show "drop_bit 16 t AND 0xFF = ucast a"
    unfolding t_def b64_pack_def by (rule low_byte_eqI; elim insertE emptyE; simp add: bits; simp add: two)
  show "drop_bit 8 t AND 0xFF = ucast b"
    unfolding t_def b64_pack_def by (rule low_byte_eqI; elim insertE emptyE; simp add: bits; simp add: two)
  show "t AND 0xFF = ucast c"
    unfolding t_def b64_pack_def by (rule low_byte_eqI; elim insertE emptyE; simp add: bits; simp add: two)
qed

lemma b64_enc_small:
  fixes a b c :: u8
  shows "unat (drop_bit 2 a) < 64" "unat (push_bit 4 (a AND 3) OR drop_bit 4 b) < 64"
    "unat (push_bit 2 (b AND 15) OR drop_bit 6 c) < 64" "unat (c AND 63) < 64"
proof -
  have b64_six: "(2 :: nat) ^ 6 = 64" by simp
  have *: "unat v < 64" if "\<And>n. 6 \<le> n \<Longrightarrow> \<not> bit v n" for v :: u8
  proof -
    have "take_bit 6 v = v" by (rule bit_word_eqI) (use that in \<open>auto simp: bit_simps not_le [symmetric]\<close>)
    hence "unat v = unat v mod 64" by (metis unsigned_take_bit_eq take_bit_eq_mod b64_six)
    thus ?thesis by presburger
  qed
  show "unat (drop_bit 2 a) < 64" "unat (push_bit 4 (a AND 3) OR drop_bit 4 b) < 64"
    "unat (push_bit 2 (b AND 15) OR drop_bit 6 c) < 64" "unat (c AND 63) < 64"
    by (rule *; auto simp: b64_masks(1-3) bit_simps byte_bits_beyond)+
qed

lemma b64_char_value:
  assumes "unat v < 64"
  shows "b64_value (b64_char v) = uint v" "b64_char v \<noteq> CHR ''=''"
  unfolding b64_char_def using b64_alphabet_value[OF assms] by (simp only: uint_nat, blast)

lemma b64_triple_pack: "b64_triple [uint v0, uint v1, uint v2, uint v3] = b64_pack v0 v1 v2 v3"
  by (simp add: b64_triple_def b64_pack_def eval_nat_numeral)

lemma char_of_char_word: "char_of (unat (ucast (char_word x) :: u32)) = x"
proof -
  have "unat (char_word x) = of_char x" by (simp add: char_word_def unat_of_nat)
  moreover have "(of_char x :: nat) mod 4294967296 = of_char x" using nat_of_char_less_256[of x] by (simp del: nat_of_char_less_256)
  ultimately show ?thesis by (simp add: unsigned_ucast_eq take_bit_eq_mod)
qed


lemma b64_emit_bytes:
  assumes "\<And>j. j < length xs \<Longrightarrow> drop_bit (16 - 8 * (k + j)) t AND 0xFF = (ucast (char_word (xs ! j)) :: u32)"
    and "CHR 0x00 \<notin> set xs" "length out + length xs \<le> max_len" "length out + length xs < cap"
  shows "b64_emit cap max_len t [k..<k + length xs] out = Some (out @ xs)"
  using assms
proof (induction xs arbitrary: k out)
  case (Cons x xs)
  have x: "drop_bit (16 - 8 * k) t AND 0xFF = ucast (char_word x)" using Cons.prems(1)[of 0] by simp
  have "b64_emit cap max_len t [Suc k..<Suc k + length xs] (out @ [x]) = Some ((out @ [x]) @ xs)"
    by (rule Cons.IH) (use Cons.prems(1)[of "Suc j" for j] Cons.prems(2-) in auto)
  moreover have "[k..<k + length (x # xs)] = k # [Suc k..<Suc k + length xs]" by (simp add: upt_rec)
  moreover have "x \<noteq> CHR 0x00" using Cons.prems(2) by auto
  ultimately show ?case using Cons.prems(3,4) x by (simp add: char_of_char_word)
qed simp

lemma b64_group:
  assumes "b64_vals [c0, c1, c2, c3] 0 = Some ([uint v0, uint v1, uint v2, uint v3], 3 - length xs)"
    and "xs \<noteq> []" "length xs \<le> 3"
    and "\<And>j. j < length xs \<Longrightarrow> drop_bit (16 - 8 * j) (b64_pack v0 v1 v2 v3) AND 0xFF = (ucast (char_word (xs ! j)) :: u32)"
    and "CHR 0x00 \<notin> set xs" "length out + length xs \<le> max_len" "length out + length xs < cap"
  shows "b64_groups cap max_len (c0 # c1 # c2 # c3 # rest) out = b64_groups cap max_len rest (out @ xs)"
proof -
  have "b64_emit cap max_len (b64_pack v0 v1 v2 v3) [0..<0 + length xs] out = Some (out @ xs)"
    by (rule b64_emit_bytes) (use assms(4-) in auto)
  moreover have "3 - length xs \<le> 2" "3 - (3 - length xs) = length xs" using assms(2,3) by (cases xs; auto)+
  ultimately show ?thesis using assms(1) by (simp add: b64_triple_pack del: b64_vals.simps)
qed

lemma b64_groups_encode:
  "CHR 0x00 \<notin> set s \<Longrightarrow> length out + length s \<le> max_len \<Longrightarrow> length out + length s < cap \<Longrightarrow>
   b64_groups cap max_len (b64_encode s) out = Some (out @ s)"
proof (induction s arbitrary: out rule: b64_encode.induct)
  case 1
  show ?case by simp
next
  case (2 x)
  define v0 v1 where "v0 = drop_bit 2 (char_word x)" and "v1 = push_bit 4 (char_word x AND 3)"
  have "b64_pack v0 v1 0 0 = b64_pack (drop_bit 2 (char_word x)) (push_bit 4 (char_word x AND 3) OR drop_bit 4 0) (push_bit 2 (0 AND 15) OR drop_bit 6 0) (0 AND 63)"
    by (simp add: v0_def v1_def)
  note t = b64_pack_bytes(1)[of "char_word x" 0 0, folded this]
  have "unat v0 < 64" "unat v1 < 64"
    using b64_enc_small(1)[of "char_word x"] b64_enc_small(2)[of "char_word x" 0] by (simp_all add: v0_def v1_def)
  hence v: "b64_vals [b64_char v0, b64_char v1, CHR ''='', CHR ''=''] 0 = Some ([uint v0, uint v1, uint (0 :: u8), uint (0 :: u8)], 3 - length [x])"
    by (simp add: b64_char_value)
  show ?case using b64_group[OF v, of out max_len cap "[]"] t 2 by (simp add: Let_def v0_def v1_def)
next
  case (3 x y)
  define v0 v1 v2 where "v0 = drop_bit 2 (char_word x)" and "v1 = push_bit 4 (char_word x AND 3) OR drop_bit 4 (char_word y)"
    and "v2 = push_bit 2 (char_word y AND 15)"
  have "b64_pack v0 v1 v2 0 = b64_pack (drop_bit 2 (char_word x)) (push_bit 4 (char_word x AND 3) OR drop_bit 4 (char_word y)) (push_bit 2 (char_word y AND 15) OR drop_bit 6 0) (0 AND 63)"
    by (simp add: v0_def v1_def v2_def)
  note t = b64_pack_bytes[of "char_word x" "char_word y" 0, folded this]
  have "unat v0 < 64" "unat v1 < 64" "unat v2 < 64"
    using b64_enc_small(1)[of "char_word x"] b64_enc_small(2)[of "char_word x" "char_word y"] b64_enc_small(3)[of "char_word y" 0]
    by (simp_all add: v0_def v1_def v2_def)
  hence v: "b64_vals [b64_char v0, b64_char v1, b64_char v2, CHR ''=''] 0 = Some ([uint v0, uint v1, uint v2, uint (0 :: u8)], 3 - length [x, y])"
    by (simp add: b64_char_value)
  have "b64_groups cap max_len [b64_char v0, b64_char v1, b64_char v2, CHR ''=''] out = b64_groups cap max_len [] (out @ [x, y])"
    by (rule b64_group[OF v]) (use t 3 in \<open>auto simp: less_Suc_eq\<close>)
  thus ?case by (simp add: Let_def v0_def v1_def v2_def)
next
  case (4 x y z r)
  define v0 v1 v2 v3 where "v0 = drop_bit 2 (char_word x)" and "v1 = push_bit 4 (char_word x AND 3) OR drop_bit 4 (char_word y)"
    and "v2 = push_bit 2 (char_word y AND 15) OR drop_bit 6 (char_word z)" and "v3 = char_word z AND 63"
  note t = b64_pack_bytes[of "char_word x" "char_word y" "char_word z", folded v0_def v1_def v2_def v3_def]
  have "unat v0 < 64" "unat v1 < 64" "unat v2 < 64" "unat v3 < 64" unfolding v0_def v1_def v2_def v3_def by (rule b64_enc_small)+
  hence v: "b64_vals [b64_char v0, b64_char v1, b64_char v2, b64_char v3] 0 = Some ([uint v0, uint v1, uint v2, uint v3], 3 - length [x, y, z])"
    by (simp add: b64_char_value)
  have "b64_groups cap max_len (b64_char v0 # b64_char v1 # b64_char v2 # b64_char v3 # b64_encode r) out = b64_groups cap max_len (b64_encode r) (out @ [x, y, z])"
    by (rule b64_group[OF v]) (use t 4 in \<open>auto simp: less_Suc_eq\<close>)
  also have "\<dots> = Some ((out @ [x, y, z]) @ r)" by (rule "4.IH") (use 4 in auto)
  finally show ?case by (simp add: Let_def v0_def v1_def v2_def v3_def)
qed


lemma b64_encode_shape: "length (b64_encode s) mod 4 = 0" "s \<noteq> [] \<Longrightarrow> b64_encode s \<noteq> []"
  "length (b64_encode s) \<le> 2 * length s + 2"
  by (induction s rule: b64_encode.induct) (auto simp: Let_def mod_Suc, metis le_SucI)

lemma decode_b64_encode:
  assumes "s \<noteq> []" "CHR 0x00 \<notin> set s" "length s \<le> max_len" "length s < cap"
  shows "decode_b64_token (b64_encode s) cap max_len = Some s"
proof -
  have "b64_encode s \<noteq> ''-''" using b64_encode_shape(1)[of s] by auto
  thus ?thesis using assms b64_encode_shape(1)[of s] b64_encode_shape(2)[of s] b64_groups_encode[of s "[]" max_len cap]
    by (simp add: decode_b64_token_def)
qed

lemma b64_encode_all:
  assumes eq: "P (CHR ''='')" and alpha: "\<And>i. i < 64 \<Longrightarrow> P (b64_alphabet ! i)"
  shows "list_all P (b64_encode s)"
proof -
  note small = b64_enc_small b64_enc_small(2,3)[simplified] b64_enc_small(2)[of _ 0, simplified] b64_enc_small(3)[of _ 0, simplified]
  have *: "P (b64_char v)" if "unat v < 64" for v using alpha[OF that] by (simp add: b64_char_def)
  show ?thesis by (induction s rule: b64_encode.induct) (simp_all add: Let_def eq * small)
qed

definition plain_char :: "char \<Rightarrow> bool" where
  "plain_char c \<longleftrightarrow> \<not> is_space c \<and> c \<noteq> CHR 0x00"

lemma b64_encode_plain: "list_all plain_char (b64_encode s)"
proof (rule b64_encode_all)
  show "plain_char (CHR ''='')" by (simp add: plain_char_def is_space_def)
  have "list_all plain_char b64_alphabet" by (simp add: b64_alphabet_def plain_char_def is_space_def)
  thus "\<And>i. i < 64 \<Longrightarrow> plain_char (b64_alphabet ! i)" by (simp add: list_all_length b64_alphabet_def)
qed

lemma plain_char_not: "plain_char c \<Longrightarrow> c \<noteq> CHR 0x0A \<and> c \<noteq> CHR 0x0D \<and> c \<noteq> CHR '' '' \<and> c \<noteq> CHR 0x00 \<and> \<not> is_space c"
  by (auto simp: plain_char_def is_space_def)

lemma append_rx_bytes:
  assumes "length line + length bs < 512" "list_all (\<lambda>c. c \<noteq> CHR 0x0A \<and> c \<noteq> CHR 0x0D) bs" "\<not> pv_restarted pv"
  shows "fold (append_rx ne) bs (line, pv) = (line @ bs, pv)"
  using assms by (induction bs arbitrary: line) (auto simp: append_rx_def)

lemma cut_token_app:
  assumes "list_all plain_char a" "list_all plain_char b" "b \<noteq> []"
  shows "cut_token (a @ CHR '' '' # b) = Some (a, b)"
proof -
  have "CHR '' '' \<notin> set a" "CHR '' '' \<notin> set b" using assms plain_char_not by (auto simp: list_all_iff)
  thus ?thesis using assms(3) by (cases b) (auto simp: cut_token_def skip_blanks_def takeWhile_append dropWhile_append)
qed

lemma skip_blanks_plain: "list_all plain_char a \<Longrightarrow> a \<noteq> [] \<Longrightarrow> skip_blanks (a @ r) = a @ r"
  by (cases a) (auto simp: skip_blanks_def dest: plain_char_not)

lemma rstrip_plain: "list_all plain_char a \<Longrightarrow> rstrip a = a"
  by (cases a rule: rev_cases) (auto simp: rstrip_def dest: plain_char_not)

definition psk_token :: "string \<Rightarrow> string" where
  "psk_token psk = (if psk = [] then ''-'' else b64_encode psk)"

definition wifi_line :: "string \<Rightarrow> string \<Rightarrow> string" where
  "wifi_line ssid psk = WIFI_PREFIX @ b64_encode ssid @ CHR '' '' # psk_token psk"

definition valid_ssid :: "string \<Rightarrow> bool" where
  "valid_ssid s \<longleftrightarrow> s \<noteq> [] \<and> length s \<le> 32 \<and> CHR 0x00 \<notin> set s"

definition valid_psk :: "string \<Rightarrow> bool" where
  "valid_psk s \<longleftrightarrow> (s = [] \<or> 8 \<le> length s) \<and> length s \<le> 64 \<and> (length s = 64 \<longrightarrow> is_hex_string s) \<and> CHR 0x00 \<notin> set s"

lemma psk_token_plain: "list_all plain_char (psk_token psk)" "psk_token psk \<noteq> []" "length (psk_token psk) \<le> 2 * length psk + 2"
  using b64_encode_plain b64_encode_shape(2)[of psk] b64_encode_shape(3)[of psk]
  by (auto simp: psk_token_def plain_char_def is_space_def)

lemma handle_wifi_line_valid:
  assumes "nvs_works ne" "valid_ssid ssid" "valid_psk psk"
  shows "handle_line ne (wifi_line ssid psk) n =
    (nvs_put ''wifi'' ''psk'' (NV_str psk) (nvs_put ''wifi'' ''ssid'' (NV_str ssid) n),
     \<lparr>lr_handled = True, lr_reboot = True, lr_ack = Some (''NBP-PROV-OK'' @ [CHR 0x0A])\<rparr>)"
proof -
  have cut: "cut_token (skip_blanks (drop (length WIFI_PREFIX) (wifi_line ssid psk))) = Some (b64_encode ssid, psk_token psk)"
    using assms(2) b64_encode_plain[of ssid] b64_encode_shape(2)[of ssid] psk_token_plain[of psk]
    by (simp add: wifi_line_def skip_blanks_plain cut_token_app valid_ssid_def)
  have s: "decode_b64_token (b64_encode ssid) 33 32 = Some ssid"
    by (rule decode_b64_encode) (use assms(2) in \<open>auto simp: valid_ssid_def\<close>)
  have p: "decode_b64_token (psk_token psk) 65 64 = Some psk"
    using assms(3) decode_b64_encode[of psk 64 65] by (cases "psk = []") (auto simp: psk_token_def valid_psk_def decode_b64_token_def [of "''-''"])
  have "\<not> starts_with NAT_PREFIX (wifi_line ssid psk)" "starts_with WIFI_PREFIX (wifi_line ssid psk)"
    by (simp_all add: starts_with_def NAT_PREFIX_def WIFI_PREFIX_def wifi_line_def)
  thus ?thesis using assms cut s p
    by (simp add: handle_line_def handle_nat_line_def handle_wifi_line_def not_handled_def rstrip_plain psk_token_plain
      store_wifi_creds_def valid_ssid_def valid_psk_def) auto
qed

text \<open>C24: A line that carries a valid network name and password in base64, received byte by byte, ends with exactly these
  credentials in the store, the acknowledgement on the wire and a restart.\<close>

theorem provision_roundtrip:
  assumes "nvs_works ne" "valid_ssid ssid" "valid_psk psk" "\<not> pv_restarted pv"
  shows "(case fold (append_rx ne) (wifi_line ssid psk @ [CHR 0x0A]) ([], pv) of
      (line, pv') \<Rightarrow> line = [] \<and> pv_restarted pv' \<and> pv_acks pv' = pv_acks pv @ [''NBP-PROV-OK'' @ [CHR 0x0A]] \<and>
        get_str ne ''wifi'' ''ssid'' 33 (pv_nvs pv') = Some ssid \<and> get_str ne ''wifi'' ''psk'' 65 (pv_nvs pv') = Some psk)"
proof -
  have len: "length (wifi_line ssid psk) < 512"
    using b64_encode_shape(3)[of ssid] psk_token_plain(3)[of psk] assms(2,3)
    by (simp add: wifi_line_def WIFI_PREFIX_def valid_ssid_def valid_psk_def)
  have ok: "list_all (\<lambda>c. c \<noteq> CHR 0x0A \<and> c \<noteq> CHR 0x0D \<and> c \<noteq> CHR 0x00) (wifi_line ssid psk)"
    using b64_encode_plain[of ssid] psk_token_plain(1)[of psk] plain_char_not
    by (auto simp: wifi_line_def WIFI_PREFIX_def list_all_iff)
  hence line: "fold (append_rx ne) (wifi_line ssid psk) ([], pv) = (wifi_line ssid psk, pv)"
    using append_rx_bytes[of "[]" "wifi_line ssid psk" pv ne] len assms(4) by (simp add: list_all_iff)
  have c: "c_string (wifi_line ssid psk) = wifi_line ssid psk"
    using ok by (auto simp: c_string_def list_all_iff)
  show ?thesis using assms
    by (simp add: line append_rx_def c handle_wifi_line_valid nvs_gets Let_def nvs_works_def) (auto simp: valid_ssid_def valid_psk_def)
qed


theorem provision_roundtrip_witness:
  "(let pv' = snd (fold (append_rx good_nvs) (wifi_line ''attic'' ''passw0rd'' @ [CHR 0x0A])
      ([], \<lparr>pv_nvs = (\<lambda>_ _. None), pv_acks = [], pv_restarted = False\<rparr>))
    in pv_restarted pv' \<and> get_str good_nvs ''wifi'' ''psk'' 65 (pv_nvs pv') = Some ''passw0rd'')"
  using provision_roundtrip [of good_nvs "''attic''" "''passw0rd''" "\<lparr>pv_nvs = (\<lambda>_ _. None), pv_acks = [], pv_restarted = False\<rparr>"]
  by (simp add: good_nvs_works valid_ssid_def valid_psk_def Let_def case_prod_beta del: fold_append)

section \<open>What can be stored\<close>

definition str_ok :: "(string \<Rightarrow> bool) \<Rightarrow> nvs_val option \<Rightarrow> bool" where
  "str_ok P v = (case v of Some (NV_str s) \<Rightarrow> P s | _ \<Rightarrow> True)"

definition valid_ap_psk :: "string \<Rightarrow> bool" where
  "valid_ap_psk s \<longleftrightarrow> 8 \<le> length s \<and> length s \<le> 63 \<and> CHR 0x00 \<notin> set s"

definition creds_sound :: "nvs \<Rightarrow> bool" where
  "creds_sound n \<longleftrightarrow> str_ok valid_ssid (n ''wifi'' ''ssid'') \<and> str_ok valid_psk (n ''wifi'' ''psk'') \<and>
     str_ok valid_ssid (n ''nat'' ''ap_ssid'') \<and> str_ok valid_ap_psk (n ''nat'' ''ap_psk'')"

lemma b64_emit_sound:
  "b64_emit cap max_len t js out = Some out' \<Longrightarrow> length out \<le> max_len \<Longrightarrow> CHR 0x00 \<notin> set out \<Longrightarrow>
   length out' = length out + length js \<and> length out' \<le> max_len \<and> CHR 0x00 \<notin> set out'"
  by (induction js arbitrary: out) (auto simp: Let_def split: if_splits, fastforce+)

lemma b64_groups_sound:
  "b64_groups cap max_len s out = Some out' \<Longrightarrow> length out \<le> max_len \<Longrightarrow> CHR 0x00 \<notin> set out \<Longrightarrow>
   length out' \<le> max_len \<and> CHR 0x00 \<notin> set out' \<and> length out \<le> length out' \<and> (4 \<le> length s \<longrightarrow> length out < length out')"
proof (induction cap max_len s out arbitrary: out' rule: b64_groups.induct)
  case (1 cap max_len a b c d rest out)
  from "1.prems"(1) obtain vs pad mid where v: "b64_vals [a, b, c, d] 0 = Some (vs, pad)" and p: "pad \<le> 2"
    and e: "b64_emit cap max_len (b64_triple vs) [0..<3 - pad] out = Some mid" and r: "b64_groups cap max_len rest mid = Some out'"
    by (auto simp del: b64_vals.simps b64_emit.simps split: option.splits if_splits)
  from b64_emit_sound[OF e "1.prems"(2,3)] p have mid: "length out < length mid" "length mid \<le> max_len" "CHR 0x00 \<notin> set mid" by auto
  have "\<not> 2 < pad" using p by simp
  from "1.IH"[OF v refl this e r mid(2,3)] mid(1) show ?case by auto
qed auto

lemma decode_b64_sound:
  assumes "decode_b64_token s cap max_len = Some out"
  shows "length out \<le> max_len \<and> CHR 0x00 \<notin> set out \<and> (s \<noteq> ''-'' \<longrightarrow> out \<noteq> [])"
proof (cases "s = ''-''")
  case False
  with assms have m: "length s \<noteq> 0" "length s mod 4 = 0" and g: "b64_groups cap max_len s [] = Some out"
    by (auto simp: decode_b64_token_def split: if_splits)
  hence "4 \<le> length s" by presburger
  with b64_groups_sound[OF g] show ?thesis by auto
qed (use assms in \<open>simp add: decode_b64_token_def\<close>)

lemma nvs_sets_put: "nvs_sets ne ns kvs n = Some n' \<Longrightarrow> n' = fold (\<lambda>(k, v). nvs_put ns k v) kvs n"
  by (induction kvs arbitrary: n) (auto split: if_splits)

lemma nvs_write_cases: "nvs_write ne ns kvs n = (n', ok) \<Longrightarrow> n' = n \<and> \<not> ok \<or> n' = fold (\<lambda>(k, v). nvs_put ns k v) kvs n \<and> ok"
  by (auto simp: nvs_write_def dest: nvs_sets_put split: if_splits option.splits)

lemma handle_nat_line_sound:
  assumes "handle_nat_line ne line n = (n', r)" "creds_sound n"
  shows "creds_sound n' \<and> \<not> lr_reboot r"
proof -
  have "creds_sound n'" if "store_nat_config ne enabled ssid psk us up n = (n', ok)" "us \<longrightarrow> valid_ssid ssid" "up \<longrightarrow> valid_ap_psk psk"
    for enabled ssid psk us up ok n'
    using that assms(2) by (auto simp: store_nat_config_def creds_sound_def str_ok_def dest!: nvs_write_cases)
  thus ?thesis using assms
    by (auto simp: handle_nat_line_def refused_def not_handled_def Let_def valid_ssid_def valid_ap_psk_def not_less
        split: if_splits option.splits prod.splits bool.splits dest!: decode_b64_sound)
qed

lemma handle_wifi_line_sound:
  assumes "handle_wifi_line ne line n = (n', r)" "creds_sound n"
  shows "creds_sound n' \<and> (lr_reboot r \<longrightarrow> (\<exists>ssid psk. n' ''wifi'' ''ssid'' = Some (NV_str ssid) \<and> n' ''wifi'' ''psk'' = Some (NV_str psk)))"
proof -
  have st: "creds_sound n' \<and> (ok \<longrightarrow> (\<exists>ssid psk. n' ''wifi'' ''ssid'' = Some (NV_str ssid) \<and> n' ''wifi'' ''psk'' = Some (NV_str psk)))"
    if "store_wifi_creds ne ssid psk n = (n', ok)" "valid_ssid ssid" "valid_psk psk" for ssid psk ok n'
    using that assms(2) by (auto simp: store_wifi_creds_def creds_sound_def str_ok_def dest!: nvs_write_cases)
  show ?thesis using assms
    by (auto simp: handle_wifi_line_def refused_def not_handled_def Let_def valid_ssid_def valid_psk_def not_less
        split: if_splits option.splits prod.splits bool.splits dest!: decode_b64_sound st)
qed

definition prov_sound :: "prov \<Rightarrow> bool" where
  "prov_sound pv \<longleftrightarrow> creds_sound (pv_nvs pv) \<and>
     (pv_restarted pv \<longrightarrow> (\<exists>ssid psk. pv_nvs pv ''wifi'' ''ssid'' = Some (NV_str ssid) \<and> pv_nvs pv ''wifi'' ''psk'' = Some (NV_str psk)))"

lemma handle_line_sound:
  assumes "handle_line ne line n = (n', r)" "creds_sound n"
  shows "creds_sound n' \<and> (lr_reboot r \<longrightarrow> (\<exists>ssid psk. n' ''wifi'' ''ssid'' = Some (NV_str ssid) \<and> n' ''wifi'' ''psk'' = Some (NV_str psk)))"
proof -
  obtain m q where m: "handle_nat_line ne line n = (m, q)" by fastforce
  from handle_nat_line_sound[OF m assms(2)] assms(1) m show ?thesis
    using handle_wifi_line_sound[of ne line m n' r] by (auto simp: handle_line_def split: if_splits)
qed

lemma append_rx_sound:
  assumes "prov_sound (snd s)"
  shows "prov_sound (snd (append_rx ne byte s))"
proof -
  obtain line pv where s: "s = (line, pv)" by fastforce
  obtain n r where h: "handle_line ne (c_string line) (pv_nvs pv) = (n, r)" by fastforce
  have pv: "prov_sound pv" using assms s by simp
  hence "creds_sound (pv_nvs pv)" by (simp add: prov_sound_def)
  from handle_line_sound[OF h this] pv show ?thesis
    by (cases "lr_ack r") (simp_all add: s h append_rx_def prov_sound_def Let_def)
qed

lemma append_rx_all_sound: "prov_sound (snd s) \<Longrightarrow> prov_sound (snd (fold (append_rx ne) bs s))"
  by (induction bs arbitrary: s) (simp_all add: append_rx_sound)

lemma poll_turn_sound: "prov_sound (snd (snd s)) \<Longrightarrow> prov_sound (snd (snd (poll_turn ne bytes s)))"
proof -
  assume s: "prov_sound (snd (snd s))"
  define u where "u = fold (append_rx ne) (fst bytes) (fst s, snd (snd s))"
  define v where "v = fold (append_rx ne) (snd bytes) (fst (snd s), snd u)"
  have "prov_sound (snd u)" unfolding u_def using s by (intro append_rx_all_sound) simp
  hence "prov_sound (snd v)" unfolding v_def by (intro append_rx_all_sound) simp
  moreover have "snd (snd (poll_turn ne bytes s)) = snd v"
    by (simp add: poll_turn_def u_def v_def Let_def split: prod.splits)
  ultimately show ?thesis by simp
qed

text \<open>C25: Whatever bytes arrive on the two ports during the boot window and whichever writes fail, the stored network name has
  1 to 32 characters, the stored password none or 8 to 64 (64 only when hexadecimal), the access point's name 1 to 32 and its
  password 8 to 63, none with a NUL; and the device restarts only with both Wi-Fi entries in the store.\<close>

theorem provision_sound:
  assumes "creds_sound n"
  shows "prov_sound (poll_boot_window ne turns n)"
proof -
  have "prov_sound (snd (snd (fold (poll_turn ne) turns s)))" if "prov_sound (snd (snd s))" for s
    using that by (induction turns arbitrary: s) (simp_all add: poll_turn_sound)
  thus ?thesis using assms unfolding poll_boot_window_def by (simp add: prov_sound_def)
qed

theorem provision_sound_witness:
  "prov_sound (poll_boot_window good_nvs [(''NBP-PROV1 YQ== -'' @ [CHR 0x0A], '''')] (\<lambda>_ _. None))"
  by (rule provision_sound) (simp add: creds_sound_def str_ok_def)

end
