(* ===== verification/Clone_Mirror.thy ===== *)
theory Clone_Mirror
  imports Ble_Backend Httpd
begin

text \<open>
  The local image of a cloned peripheral, \<^verbatim>\<open>components/ble_clone/clone_mirror.cpp\<close>: a table of rows, one per mirrored
  characteristic, each with the local characteristic that was created for it, the remote characteristic it is
  bound to while the link is up, and a cached value. NimBLE's objects are data: a local characteristic is the part
  of a row that names its service (the number of the service object), its UUID, properties and value; a pointer to a
  remote characteristic is the characteristic with the number of the discovery that created it, since the client
  deletes all of them when it connects again.
\<close>

unbundle bit_operations_syntax

section \<open>Properties of a characteristic\<close>

definition F_BROADCAST :: u16 where "F_BROADCAST = 0x0001"
definition F_READ :: u16 where "F_READ = 0x0002"
definition F_WRITE_NO_RSP :: u16 where "F_WRITE_NO_RSP = 0x0004"
definition F_WRITE :: u16 where "F_WRITE = 0x0008"
definition F_NOTIFY :: u16 where "F_NOTIFY = 0x0010"
definition F_INDICATE :: u16 where "F_INDICATE = 0x0020"
definition F_READ_ENC :: u16 where "F_READ_ENC = 0x0200"
definition F_READ_AUTHEN :: u16 where "F_READ_AUTHEN = 0x0400"
definition F_READ_AUTHOR :: u16 where "F_READ_AUTHOR = 0x0800"
definition F_WRITE_ENC :: u16 where "F_WRITE_ENC = 0x1000"
definition F_WRITE_AUTHEN :: u16 where "F_WRITE_AUTHEN = 0x2000"
definition F_WRITE_AUTHOR :: u16 where "F_WRITE_AUTHOR = 0x4000"

lemmas chr_flags = F_BROADCAST_def F_READ_def F_WRITE_NO_RSP_def F_WRITE_def F_NOTIFY_def F_INDICATE_def
  F_READ_ENC_def F_READ_AUTHEN_def F_READ_AUTHOR_def F_WRITE_ENC_def F_WRITE_AUTHEN_def F_WRITE_AUTHOR_def

definition flag_if :: "bool \<Rightarrow> u16 \<Rightarrow> u16 \<Rightarrow> u16" where
  "flag_if b f p = (if b then p OR f else p)"

definition sanitize_props :: "u16 \<Rightarrow> u16" where
  "sanitize_props up =
     (let out = flag_if (up AND F_BROADCAST \<noteq> 0) F_BROADCAST 0;
          out = flag_if (up AND (F_READ OR F_READ_ENC OR F_READ_AUTHEN OR F_READ_AUTHOR) \<noteq> 0) F_READ out;
          out = flag_if (up AND (F_WRITE OR F_WRITE_ENC OR F_WRITE_AUTHEN OR F_WRITE_AUTHOR) \<noteq> 0) F_WRITE out;
          out = flag_if (up AND F_WRITE_NO_RSP \<noteq> 0) F_WRITE_NO_RSP out;
          out = flag_if (up AND F_NOTIFY \<noteq> 0) F_NOTIFY out
      in flag_if (up AND F_INDICATE \<noteq> 0) F_INDICATE out)"

definition upstream_props_of :: "remote_characteristic \<Rightarrow> u16" where
  "upstream_props_of chr =
     (let p = flag_if (rch_broadcast chr) F_BROADCAST 0;
          p = flag_if (rch_read chr) F_READ p;
          p = flag_if (rch_write_no_rsp chr) F_WRITE_NO_RSP p;
          p = flag_if (rch_write chr) F_WRITE p;
          p = flag_if (rch_notify chr) F_NOTIFY p
      in flag_if (rch_indicate chr) F_INDICATE p)"

section \<open>State\<close>

definition MAX_CHARS :: nat where "MAX_CHARS = 64"
definition CACHE_BYTES :: nat where "CACHE_BYTES = 64"

type_synonym remote_ptr = "nat \<times> remote_characteristic"

record mirror_char =
  mc_upstream_handle :: u16
  mc_upstream_props :: u16
  mc_svc :: nat                        \<comment> \<open>\<open>local->getService()\<close>\<close>
  mc_svc_uuid :: ble_uuid
  mc_uuid :: ble_uuid
  mc_local_props :: u16
  mc_value :: "u8 list"                \<comment> \<open>the local characteristic's value\<close>
  mc_upstream :: "remote_ptr option"
  mc_cache :: "u8 list"                \<comment> \<open>\<open>cache[0..cache_len)\<close>\<close>
  mc_primed :: bool

text \<open>Advertising data: the bytes of the records other than service UUIDs, and the service UUIDs, which share one record per
  size (two bytes of header). The payload that was prepared last: name, main data, scan response, interval override.\<close>

record ad_data =
  ad_other :: nat
  ad_uuids :: "ble_uuid list"

record adv_payload =
  ap_name :: string
  ap_main :: ad_data
  ap_scan :: ad_data
  ap_interval :: u16

record mirror =
  mi_chars :: "mirror_char list"
  mi_mutex :: bool
  mi_server :: bool
  mi_services :: nat                   \<comment> \<open>service objects created\<close>
  mi_built :: bool
  mi_adv :: bool                       \<comment> \<open>\<open>g_adv\<close> is set\<close>
  mi_advertising :: bool
  mi_connected_centrals :: u8
  mi_service_count :: u16
  mi_reads_served :: u32
  mi_writes_proxied :: u32
  mi_notifies_out :: u32
  mi_payload :: "adv_payload option"

definition mirror_initial :: mirror where
  "mirror_initial = \<lparr>mi_chars = [], mi_mutex = False, mi_server = False, mi_services = 0, mi_built = False, mi_adv = False,
     mi_advertising = False, mi_connected_centrals = 0, mi_service_count = 0, mi_reads_served = 0, mi_writes_proxied = 0,
     mi_notifies_out = 0, mi_payload = None\<rparr>"

section \<open>Rebinding\<close>

text \<open>\<open>NimBLEUUID::operator==\<close>: UUIDs of different sizes are compared in their 128-bit form.\<close>

definition uuid_eq :: "ble_uuid \<Rightarrow> ble_uuid \<Rightarrow> bool" where
  "uuid_eq a b \<longleftrightarrow> uu_128 a = uu_128 b"

text \<open>The walk of \<open>rebind_upstream\<close>: the first characteristic with the row's UUID in a service with its service's UUID.\<close>

definition find_remote :: "mirror_char \<Rightarrow> remote_service list \<Rightarrow> remote_characteristic option" where
  "find_remote row svcs =
     find (\<lambda>c. uuid_eq (rch_uuid c) (mc_uuid row))
       (concat (map rsv_characteristics (filter (\<lambda>s. uuid_eq (rsv_uuid s) (mc_svc_uuid row)) svcs)))"

definition rebind_row :: "nat \<Rightarrow> remote_service list \<Rightarrow> mirror_char \<Rightarrow> mirror_char" where
  "rebind_row gen svcs row =
     (case find_remote row svcs of
        Some c \<Rightarrow> row\<lparr>mc_upstream := Some (gen, c), mc_upstream_handle := rch_handle c\<rparr>
      | None \<Rightarrow> row\<lparr>mc_upstream := None\<rparr>)"

text \<open>\<open>client\<close> is \<open>None\<close> for a null pointer, else the discovery number and the attribute tree.\<close>

definition rebind_upstream :: "(nat \<times> remote_service list) option \<Rightarrow> mirror \<Rightarrow> mirror \<times> bool" where
  "rebind_upstream client m =
     (if \<not> mi_built m then (m, False)
      else case client of
             None \<Rightarrow> (m, False)
           | Some (gen, svcs) \<Rightarrow>
               let rows = map (rebind_row gen svcs) (mi_chars m) in
               (m\<lparr>mi_chars := rows\<rparr>, list_ex (\<lambda>r. mc_upstream r \<noteq> None) rows))"

section \<open>Building\<close>

definition standard_service :: "ble_uuid \<Rightarrow> bool" where
  "standard_service u \<longleftrightarrow>
     uu_bits u = 16 \<and>
     (let v = (ucast (uu_value u ! 0) :: u16) OR push_bit 8 (ucast (uu_value u ! 1)) in v = 0x1800 \<or> v = 0x1801)"

definition new_row :: "nat \<Rightarrow> nat \<Rightarrow> ble_uuid \<Rightarrow> remote_characteristic \<Rightarrow> mirror_char" where
  "new_row gen svc svc_uuid chr =
     (let up_props = upstream_props_of chr in
      \<lparr>mc_upstream_handle = rch_handle chr, mc_upstream_props = up_props, mc_svc = svc, mc_svc_uuid = svc_uuid,
       mc_uuid = rch_uuid chr, mc_local_props = sanitize_props up_props, mc_value = [], mc_upstream = Some (gen, chr),
       mc_cache = [], mc_primed = False\<rparr>)"

fun build_chars :: "nat \<Rightarrow> nat \<Rightarrow> ble_uuid \<Rightarrow> remote_characteristic list \<Rightarrow> mirror_char list \<Rightarrow> mirror_char list" where
  "build_chars gen svc u [] rows = rows"
| "build_chars gen svc u (c # cs) rows =
     (if length rows \<ge> MAX_CHARS then rows else build_chars gen svc u cs (rows @ [new_row gen svc u c]))"

text \<open>\<open>creates\<close> says for which services \<open>createService\<close> returns an object.\<close>

fun build_services :: "(ble_uuid \<Rightarrow> bool) \<Rightarrow> nat \<Rightarrow> remote_service list \<Rightarrow> mirror \<Rightarrow> mirror" where
  "build_services creates gen [] m = m"
| "build_services creates gen (s # ss) m =
     (if standard_service (rsv_uuid s) \<or> \<not> creates (rsv_uuid s) then build_services creates gen ss m
      else build_services creates gen ss
             (m\<lparr>mi_services := mi_services m + 1, mi_service_count := mi_service_count m + 1,
               mi_chars := build_chars gen (mi_services m) (rsv_uuid s) (rsv_characteristics s) (mi_chars m)\<rparr>))"

definition build_from :: "(ble_uuid \<Rightarrow> bool) \<Rightarrow> (nat \<times> remote_service list) option \<Rightarrow> mirror \<Rightarrow> mirror \<times> bool" where
  "build_from creates client m =
     (if mi_built m then rebind_upstream client m
      else let m = m\<lparr>mi_mutex := True\<rparr> in
           case client of
             None \<Rightarrow> (m, False)
           | Some (gen, svcs) \<Rightarrow> (build_services creates gen svcs (m\<lparr>mi_server := True\<rparr>), True))"

text \<open>The probe after the server has started keeps the services it has seen in an array of 16 and does not look at its
  size: \<open>None\<close> is the write past its end.\<close>

fun probe_services :: "mirror_char list \<Rightarrow> nat list \<Rightarrow> nat list option" where
  "probe_services [] seen = Some seen"
| "probe_services (r # rs) seen =
     (if mc_svc r \<in> set seen then probe_services rs seen
      else if length seen < 16 then probe_services rs (seen @ [mc_svc r])
      else None)"

definition finalize_server :: "bool \<Rightarrow> mirror \<Rightarrow> (mirror \<times> bool) option" where
  "finalize_server start_ok m =
     (if \<not> mi_server m then Some (m, False)
      else if mi_built m then Some (m, True)
      else if \<not> start_ok then Some (m, False)
      else case probe_services (mi_chars m) [] of
             None \<Rightarrow> None
           | Some _ \<Rightarrow> Some (m\<lparr>mi_built := True, mi_adv := True\<rparr>, True))"

section \<open>Values and links\<close>

definition disconnect_upstream :: "mirror \<Rightarrow> mirror" where
  "disconnect_upstream m =
     (if \<not> mi_built m then m
      else m\<lparr>mi_chars := map (\<lambda>r. r\<lparr>mc_upstream := None, mc_primed := False\<rparr>) (mi_chars m)\<rparr>)"

definition cache_value :: "u8 list \<Rightarrow> mirror_char \<Rightarrow> mirror_char" where
  "cache_value data r = r\<lparr>mc_cache := take CACHE_BYTES data, mc_primed := True\<rparr>"

definition prime_cache :: "u16 \<Rightarrow> u8 list \<Rightarrow> mirror \<Rightarrow> mirror" where
  "prime_cache h data m =
     (if \<not> mi_mutex m then m
      else case find_idx (\<lambda>r. mc_upstream_handle r = h) (mi_chars m) of
             None \<Rightarrow> m
           | Some i \<Rightarrow> m\<lparr>mi_chars := (mi_chars m)[i := (cache_value data (mi_chars m ! i))\<lparr>mc_value := take CACHE_BYTES data\<rparr>]\<rparr>)"

text \<open>\<open>on_upstream_notify\<close>: the row whose local characteristic notifies its centrals, with the data, when there is one.\<close>

definition mirror_notify :: "u16 \<Rightarrow> u8 list \<Rightarrow> mirror \<Rightarrow> mirror \<times> (nat \<times> u8 list) option" where
  "mirror_notify h data m =
     (if \<not> mi_built m then (m, None)
      else if \<not> mi_mutex m then (m, None)
      else case find_idx (\<lambda>r. mc_upstream_handle r = h) (mi_chars m) of
             None \<Rightarrow> (m, None)
           | Some i \<Rightarrow>
               (m\<lparr>mi_chars := (mi_chars m)[i := (cache_value data (mi_chars m ! i))\<lparr>mc_value := data\<rparr>],
                  mi_notifies_out := mi_notifies_out m + 1\<rparr>, Some (i, data)))"

definition for_each_subscribable :: "mirror \<Rightarrow> (remote_ptr \<times> u16 \<times> bool) list" where
  "for_each_subscribable m =
     (if \<not> mi_mutex m then []
      else concat (map (\<lambda>r. case mc_upstream r of
             None \<Rightarrow> []
           | Some up \<Rightarrow>
               let n = (mc_upstream_props r AND F_NOTIFY \<noteq> 0); ind = (mc_upstream_props r AND F_INDICATE \<noteq> 0) in
               if \<not> n \<and> \<not> ind then [] else [(up, mc_upstream_handle r, \<not> n \<and> ind)]) (mi_chars m)))"

definition for_each_readable :: "mirror \<Rightarrow> (remote_ptr \<times> u16) list" where
  "for_each_readable m =
     (if \<not> mi_mutex m then []
      else concat (map (\<lambda>r. case mc_upstream r of
             None \<Rightarrow> []
           | Some up \<Rightarrow> if mc_upstream_props r AND F_READ = 0 then [] else [(up, mc_upstream_handle r)]) (mi_chars m)))"

section \<open>Callbacks from local centrals\<close>

text \<open>\<open>adv\<close> is whether a start of the advertising succeeds; the result says whether it was started.\<close>

definition server_on_connect :: "bool \<Rightarrow> bool \<Rightarrow> mirror \<Rightarrow> mirror \<times> bool" where
  "server_on_connect allowed active m =
     (m\<lparr>mi_connected_centrals := mi_connected_centrals m + 1\<rparr>, mi_adv m \<and> allowed \<and> \<not> active)"

definition server_on_disconnect :: "bool \<Rightarrow> bool \<Rightarrow> mirror \<Rightarrow> mirror \<times> bool" where
  "server_on_disconnect allowed active m =
     (m\<lparr>mi_connected_centrals := mi_connected_centrals m - 1\<rparr>, mi_adv m \<and> allowed \<and> \<not> active)"

definition char_on_read :: "mirror \<Rightarrow> mirror" where
  "char_on_read m = m\<lparr>mi_reads_served := mi_reads_served m + 1\<rparr>"

text \<open>\<open>onWrite\<close> of row \<open>i\<close>'s characteristic, which NimBLE has already given the new value: the write to put into the
  upstream queue, if any. \<open>char_write_done\<close> counts it when the queue took it.\<close>

definition char_on_write :: "nat \<Rightarrow> u8 list \<Rightarrow> mirror \<Rightarrow> mirror \<times> (remote_ptr \<times> u8 list \<times> bool) option" where
  "char_on_write i data m =
     (if i \<ge> length (mi_chars m) then (m, None)
      else let row = mi_chars m ! i;
               m = m\<lparr>mi_chars := (mi_chars m)[i := row\<lparr>mc_value := data, mc_cache := [], mc_primed := False\<rparr>]\<rparr>
           in (m, map_option (\<lambda>up. (up, data, mc_upstream_props row AND F_WRITE \<noteq> 0)) (mc_upstream row)))"

definition char_write_done :: "bool \<Rightarrow> mirror \<Rightarrow> mirror" where
  "char_write_done queued m = (if queued then m\<lparr>mi_writes_proxied := mi_writes_proxied m + 1\<rparr> else m)"

section \<open>Advertising\<close>

definition uuid_bytes :: "ble_uuid \<Rightarrow> nat" where
  "uuid_bytes u = uu_bits u div 8"

definition ad_has :: "nat \<Rightarrow> ad_data \<Rightarrow> bool" where
  "ad_has b d \<longleftrightarrow> list_ex (\<lambda>u. uuid_bytes u = b) (ad_uuids d)"

definition ad_record_size :: "nat \<Rightarrow> ble_uuid list \<Rightarrow> nat" where
  "ad_record_size b us = (let n = length (filter (\<lambda>u. uuid_bytes u = b) us) in if n = 0 then 0 else 2 + b * n)"

definition ad_size :: "ad_data \<Rightarrow> nat" where
  "ad_size d = ad_other d + ad_record_size 2 (ad_uuids d) + ad_record_size 4 (ad_uuids d) + ad_record_size 16 (ad_uuids d)"

definition ad_fits :: "ad_data \<Rightarrow> nat \<Rightarrow> bool" where
  "ad_fits d bytes \<longleftrightarrow> ad_size d + (if ad_has bytes d then bytes else bytes + 2) \<le> 31"

definition ad_add :: "ble_uuid \<Rightarrow> ad_data \<Rightarrow> ad_data" where
  "ad_add u d = d\<lparr>ad_uuids := ad_uuids d @ [u]\<rparr>"

definition place_uuid :: "ble_uuid \<Rightarrow> nat \<Rightarrow> ad_data \<times> ad_data \<Rightarrow> ad_data \<times> ad_data" where
  "place_uuid u bytes s =
     (let (main, scan) = s in
      if ad_fits main bytes then (ad_add u main, scan)
      else if ad_fits scan bytes then (main, ad_add u scan)
      else (main, scan))"

fun place_services :: "mirror_char list \<Rightarrow> nat list \<Rightarrow> ad_data \<times> ad_data \<Rightarrow> ad_data \<times> ad_data" where
  "place_services [] seen s = s"
| "place_services (r # rs) seen s =
     (if mc_svc r \<in> set seen then place_services rs seen s
      else let seen = (if length seen < 16 then seen @ [mc_svc r] else seen); bytes = uuid_bytes (mc_svc_uuid r) in
           if bytes \<noteq> 2 \<and> bytes \<noteq> 4 \<and> bytes \<noteq> 16 then place_services rs seen s
           else place_services rs seen (place_uuid (mc_svc_uuid r) bytes s))"

definition adv_name :: "string \<Rightarrow> string \<Rightarrow> string" where
  "adv_name base suffix = take 26 (snprintf_text 32 (base @ suffix))"

text \<open>The flags take three bytes and the name's record a header of two; \<open>dash\<close> is the dashboard's UUID when it is built in.\<close>

definition start_advertising ::
  "string \<Rightarrow> string \<Rightarrow> ble_uuid option \<Rightarrow> bool \<Rightarrow> ble_backend \<Rightarrow> mirror \<Rightarrow> mirror \<times> ble_backend" where
  "start_advertising base suffix dash ok b m =
     (if \<not> mi_built m then (m, b)
      else
        let name = adv_name base suffix;
            s = place_services (mi_chars m) [] (\<lparr>ad_other = 3 + (2 + length name), ad_uuids = []\<rparr>, \<lparr>ad_other = 0, ad_uuids = []\<rparr>);
            s = (case dash of Some u \<Rightarrow> place_uuid u 16 s | None \<Rightarrow> s);
            m = m\<lparr>mi_adv := True,
                  mi_payload := Some \<lparr>ap_name = name, ap_main = fst s, ap_scan = snd s, ap_interval = bb_adv_interval_units b\<rparr>\<rparr>
        in if \<not> advertising_enabled b then (m, b)
           else if ok then (m\<lparr>mi_advertising := True\<rparr>, b\<lparr>bb_adv := Some True\<rparr>)
           else (m, b))"

definition stop_advertising :: "ble_backend \<Rightarrow> mirror \<Rightarrow> mirror \<times> ble_backend" where
  "stop_advertising b m =
     (if \<not> mi_adv m then (m, b) else (m\<lparr>mi_advertising := False\<rparr>, b\<lparr>bb_adv := Some False\<rparr>))"

record mirror_stats =
  ms_services :: u16
  ms_characteristics :: u16
  ms_notifies_out :: u32
  ms_writes_proxied :: u32
  ms_reads :: u32
  ms_connected_centrals :: u8
  ms_advertising :: bool

definition mirror_stats_of :: "mirror \<Rightarrow> mirror_stats" where
  "mirror_stats_of m =
     \<lparr>ms_services = mi_service_count m, ms_characteristics = of_nat (length (mi_chars m)), ms_notifies_out = mi_notifies_out m,
      ms_writes_proxied = mi_writes_proxied m, ms_reads = mi_reads_served m,
      ms_connected_centrals = mi_connected_centrals m, ms_advertising = mi_advertising m\<rparr>"

section \<open>What the image contains\<close>

lemma flag_if_cases: "flag_if True f p = p OR f" "flag_if False f p = p"
  by (simp_all add: flag_if_def)

lemma props_faithful:
  "sanitize_props (upstream_props_of c) = upstream_props_of c"
  "upstream_props_of c AND F_READ \<noteq> 0 \<longleftrightarrow> rch_read c"
  "upstream_props_of c AND F_WRITE \<noteq> 0 \<longleftrightarrow> rch_write c"
  "upstream_props_of c AND F_WRITE_NO_RSP \<noteq> 0 \<longleftrightarrow> rch_write_no_rsp c"
  "upstream_props_of c AND F_NOTIFY \<noteq> 0 \<longleftrightarrow> rch_notify c"
  "upstream_props_of c AND F_INDICATE \<noteq> 0 \<longleftrightarrow> rch_indicate c"
  by (cases "rch_broadcast c"; cases "rch_read c"; cases "rch_write_no_rsp c"; cases "rch_write c"; cases "rch_notify c";
      cases "rch_indicate c"; simp add: upstream_props_of_def sanitize_props_def flag_if_def chr_flags)+

text \<open>The rows of an attribute tree without the limit: every characteristic of every service that is mirrored, in order.\<close>

fun image_rows :: "(ble_uuid \<Rightarrow> bool) \<Rightarrow> nat \<Rightarrow> nat \<Rightarrow> remote_service list \<Rightarrow> mirror_char list" where
  "image_rows creates gen k [] = []"
| "image_rows creates gen k (s # ss) =
     (if standard_service (rsv_uuid s) \<or> \<not> creates (rsv_uuid s) then image_rows creates gen k ss
      else map (new_row gen k (rsv_uuid s)) (rsv_characteristics s) @ image_rows creates gen (k + 1) ss)"

definition mirrored :: "(ble_uuid \<Rightarrow> bool) \<Rightarrow> remote_service list \<Rightarrow> remote_service list" where
  "mirrored creates = filter (\<lambda>s. \<not> standard_service (rsv_uuid s) \<and> creates (rsv_uuid s))"

lemma build_chars_take:
  "length rows \<le> MAX_CHARS \<Longrightarrow> build_chars gen svc u cs rows = take MAX_CHARS (rows @ map (new_row gen svc u) cs)"
proof (induction cs arbitrary: rows)
  case (Cons c cs)
  show ?case
  proof (cases "length rows < MAX_CHARS")
    case True
    then show ?thesis using Cons.IH [of "rows @ [new_row gen svc u c]"] by simp
  qed (use Cons.prems in simp)
qed simp

lemma build_services_exact:
  assumes "length (mi_chars m) \<le> MAX_CHARS"
  shows "build_services creates gen svcs m =
    m\<lparr>mi_services := mi_services m + length (mirrored creates svcs),
      mi_service_count := mi_service_count m + of_nat (length (mirrored creates svcs)),
      mi_chars := take MAX_CHARS (mi_chars m @ image_rows creates gen (mi_services m) svcs)\<rparr>"
  using assms
proof (induction svcs arbitrary: m)
  case (Cons s ss)
  show ?case
  proof (cases "standard_service (rsv_uuid s) \<or> \<not> creates (rsv_uuid s)")
    case False
    have t: "take MAX_CHARS (take MAX_CHARS xs @ ys) = take MAX_CHARS (xs @ ys)" for xs ys :: "mirror_char list"
      by (simp add: take_append min_def)
    from False Cons.prems show ?thesis
      by (simp add: mirrored_def build_chars_take Cons.IH t ac_simps del: take_append)
  qed (use Cons in \<open>simp add: mirrored_def\<close>)
qed (simp add: mirrored_def)

lemma image_rows_row:
  assumes "r \<in> set (image_rows creates gen k svcs)"
  obtains s c j where "s \<in> set (mirrored creates svcs)" "c \<in> set (rsv_characteristics s)" "k \<le> j"
    "r = new_row gen j (rsv_uuid s) c"
  using assms
proof (induction svcs arbitrary: k thesis)
  case (Cons s ss)
  show ?case
  proof (cases "standard_service (rsv_uuid s) \<or> \<not> creates (rsv_uuid s)")
    case True
    with Cons.prems(2) have "r \<in> set (image_rows creates gen k ss)" by simp
    moreover have "mirrored creates (s # ss) = mirrored creates ss" using True by (auto simp: mirrored_def)
    ultimately show ?thesis using Cons.IH [of k] Cons.prems(1) by auto
  next
    case False
    hence mem: "set (mirrored creates (s # ss)) = insert s (set (mirrored creates ss))" by (simp add: mirrored_def)
    from False Cons.prems(2) consider c where "c \<in> set (rsv_characteristics s)" "r = new_row gen k (rsv_uuid s) c"
      | "r \<in> set (image_rows creates gen (k + 1) ss)" by auto
    then show ?thesis
    proof cases
      case 2
      from Cons.IH [OF _ 2] Cons.prems(1) mem show ?thesis by (metis insertI2 add_leD1)
    qed (use Cons.prems(1) mem in blast)
  qed
qed simp

lemma mirrored_mem: "s \<in> set (mirrored creates svcs) \<longleftrightarrow> s \<in> set svcs \<and> \<not> standard_service (rsv_uuid s) \<and> creates (rsv_uuid s)"
  by (auto simp: mirrored_def)

text \<open>C26: The first build mirrors the peripheral exactly: the rows are the characteristics of every service except GAP, GATT and
  those the server refuses, in order, up to the table's size, and each local characteristic has the UUIDs of its original
  and can be read, written, notified and indicated exactly as the original.\<close>

theorem mirror_image_exact:
  assumes "\<not> mi_built m" "mi_chars m = []"
  shows "case build_from creates (Some (gen, svcs)) m of (m', ok) \<Rightarrow>
    ok \<and> mi_chars m' = take MAX_CHARS (image_rows creates gen (mi_services m) svcs) \<and>
    mi_services m' = mi_services m + length (mirrored creates svcs) \<and>
    list_all (\<lambda>r. list_ex (\<lambda>s. \<not> standard_service (rsv_uuid s) \<and> creates (rsv_uuid s) \<and> mc_svc_uuid r = rsv_uuid s \<and>
        list_ex (\<lambda>c. mc_uuid r = rch_uuid c \<and> mc_upstream r = Some (gen, c) \<and> mc_upstream_handle r = rch_handle c \<and>
          (mc_local_props r AND F_READ \<noteq> 0) = rch_read c \<and> (mc_local_props r AND F_WRITE \<noteq> 0) = rch_write c \<and>
          (mc_local_props r AND F_WRITE_NO_RSP \<noteq> 0) = rch_write_no_rsp c \<and>
          (mc_local_props r AND F_NOTIFY \<noteq> 0) = rch_notify c \<and> (mc_local_props r AND F_INDICATE \<noteq> 0) = rch_indicate c)
          (rsv_characteristics s)) svcs) (mi_chars m')"
proof -
  define rows where "rows = take MAX_CHARS (image_rows creates gen (mi_services m) svcs)"
  have row: "list_ex (\<lambda>s. \<not> standard_service (rsv_uuid s) \<and> creates (rsv_uuid s) \<and> mc_svc_uuid r = rsv_uuid s \<and>
      list_ex (\<lambda>c. mc_uuid r = rch_uuid c \<and> mc_upstream r = Some (gen, c) \<and> mc_upstream_handle r = rch_handle c \<and>
        (mc_local_props r AND F_READ \<noteq> 0) = rch_read c \<and> (mc_local_props r AND F_WRITE \<noteq> 0) = rch_write c \<and>
        (mc_local_props r AND F_WRITE_NO_RSP \<noteq> 0) = rch_write_no_rsp c \<and>
        (mc_local_props r AND F_NOTIFY \<noteq> 0) = rch_notify c \<and> (mc_local_props r AND F_INDICATE \<noteq> 0) = rch_indicate c)
        (rsv_characteristics s)) svcs" if "r \<in> set rows" for r
  proof -
    from that have "r \<in> set (image_rows creates gen (mi_services m) svcs)" unfolding rows_def by (rule in_set_takeD)
    then obtain s c j where "s \<in> set (mirrored creates svcs)" "c \<in> set (rsv_characteristics s)" "r = new_row gen j (rsv_uuid s) c"
      by (rule image_rows_row)
    then show ?thesis
      by (auto simp: list_ex_iff mirrored_mem new_row_def Let_def props_faithful intro!: bexI [of _ s] bexI [of _ c])
  qed
  have "build_from creates (Some (gen, svcs)) m =
      (m\<lparr>mi_mutex := True, mi_server := True, mi_services := mi_services m + length (mirrored creates svcs),
         mi_service_count := mi_service_count m + of_nat (length (mirrored creates svcs)), mi_chars := rows\<rparr>, True)"
    using assms by (simp add: build_from_def build_services_exact rows_def)
  then show ?thesis using row by (simp add: list_all_iff rows_def)
qed

definition offers :: "remote_service list \<Rightarrow> mirror_char \<Rightarrow> remote_characteristic \<Rightarrow> bool" where
  "offers svcs r c \<longleftrightarrow>
     list_ex (\<lambda>s. uuid_eq (rsv_uuid s) (mc_svc_uuid r) \<and> c \<in> set (rsv_characteristics s)) svcs \<and> uuid_eq (rch_uuid c) (mc_uuid r)"

lemma find_remote_offers: "find_remote r svcs = Some c \<Longrightarrow> offers svcs r c"
  by (auto simp: find_remote_def find_Some_iff offers_def list_ex_iff dest!: nth_mem)

lemma find_remote_None: "find_remote r svcs = None \<longleftrightarrow> \<not> (\<exists>c. offers svcs r c)"
  by (auto simp: find_remote_def find_None_iff offers_def list_ex_iff)

text \<open>After a reconnect every row is bound to a characteristic of the new attribute tree that has its UUID and its service's
  UUID, with that characteristic's handle, or to nothing if and only if the peripheral offers none; the rest of the row is
  untouched, and the result says whether at least one row was bound.\<close>

theorem rebind_exact:
  assumes "mi_built m" "rebind_upstream (Some (gen, svcs)) m = (m', ok)"
  shows "length (mi_chars m') = length (mi_chars m) \<and> ok = list_ex (\<lambda>r. mc_upstream r \<noteq> None) (mi_chars m') \<and>
    list_all2 (\<lambda>r r'. (case mc_upstream r' of
        Some (g, c) \<Rightarrow> g = gen \<and> offers svcs r c \<and> r' = r\<lparr>mc_upstream := Some (g, c), mc_upstream_handle := rch_handle c\<rparr>
      | None \<Rightarrow> r' = r\<lparr>mc_upstream := None\<rparr> \<and> \<not> (\<exists>c. offers svcs r c))) (mi_chars m) (mi_chars m')"
proof -
  have rows: "mi_chars m' = map (rebind_row gen svcs) (mi_chars m)" and ok: "ok = list_ex (\<lambda>r. mc_upstream r \<noteq> None) (mi_chars m')"
    using assms by (auto simp: rebind_upstream_def Let_def)
  have "case mc_upstream (rebind_row gen svcs r) of
      Some (g, c) \<Rightarrow> g = gen \<and> offers svcs r c \<and> rebind_row gen svcs r = r\<lparr>mc_upstream := Some (g, c), mc_upstream_handle := rch_handle c\<rparr>
    | None \<Rightarrow> rebind_row gen svcs r = r\<lparr>mc_upstream := None\<rparr> \<and> \<not> (\<exists>c. offers svcs r c)" for r
    using find_remote_None [of r svcs] by (cases "find_remote r svcs") (auto simp: rebind_row_def find_remote_offers)
  then show ?thesis using rows ok by (simp add: list_all2_map2 list_all2_same)
qed

section \<open>Forwarding\<close>

lemma find_handle:
  assumes "distinct (map mc_upstream_handle rows)" "i < length rows"
  shows "find_idx (\<lambda>r. mc_upstream_handle r = mc_upstream_handle (rows ! i)) rows = Some i"
  using assms by (auto simp: find_idx_Some distinct_conv_nth) 

text \<open>While the handles of the table are distinct, a notification from the peripheral becomes the value of exactly the
  characteristic that mirrors it and is passed on to its centrals unchanged and whole; and a write by a central goes to
  the remote characteristic the row is bound to, acknowledged exactly when the original takes acknowledged writes.\<close>

theorem mirror_forwards:
  assumes "mi_built m" "mi_mutex m" "distinct (map mc_upstream_handle (mi_chars m))" "i < length (mi_chars m)"
  shows "(case mirror_notify (mc_upstream_handle (mi_chars m ! i)) data m of (m', out) \<Rightarrow>
      out = Some (i, data) \<and> mc_value (mi_chars m' ! i) = data \<and> length (mi_chars m') = length (mi_chars m) \<and>
      (\<forall>j < length (mi_chars m). j \<noteq> i \<longrightarrow> mi_chars m' ! j = mi_chars m ! j)) \<and>
    snd (char_on_write i data m) =
      map_option (\<lambda>up. (up, data, mc_upstream_props (mi_chars m ! i) AND F_WRITE \<noteq> 0)) (mc_upstream (mi_chars m ! i)) \<and>
    mc_value (mi_chars (fst (char_on_write i data m)) ! i) = data"
  using assms find_handle [OF assms(3,4)]
  by (simp add: mirror_notify_def char_on_write_def Let_def)

text \<open>Two characteristics of one service, and the same peripheral later without the first and with the second in its place.\<close>

definition ex_uuid :: "u8 \<Rightarrow> ble_uuid" where
  "ex_uuid b = \<lparr>uu_bits = 16, uu_value = [b, 0xFF], uu_128 = [b, 0xFF]\<rparr>"

definition ex_chr :: "u16 \<Rightarrow> u8 \<Rightarrow> remote_characteristic" where
  "ex_chr h b = \<lparr>rch_handle = h, rch_uuid = ex_uuid b, rch_broadcast = False, rch_read = True, rch_write_no_rsp = False,
     rch_write = True, rch_notify = True, rch_indicate = False, rch_write_signed = False, rch_descriptors = []\<rparr>"

definition ex_svc :: "remote_characteristic list \<Rightarrow> remote_service" where
  "ex_svc cs = \<lparr>rsv_handle = 1, rsv_uuid = ex_uuid 9, rsv_characteristics = cs\<rparr>"

definition ex_mirror :: mirror where
  "ex_mirror = fst (the (finalize_server True (fst (build_from (\<lambda>_. True) (Some (1, [ex_svc [ex_chr 10 1, ex_chr 12 2]])) mirror_initial))))"

lemmas ex_mirror_simps = ex_mirror_def ex_svc_def ex_chr_def ex_uuid_def build_from_def mirror_initial_def finalize_server_def
  standard_service_def new_row_def MAX_CHARS_def Let_def

theorem mirror_image_exact_witness:
  "length (mi_chars (fst (build_from (\<lambda>_. True) (Some (1, [ex_svc [ex_chr 10 1, ex_chr 12 2]])) mirror_initial))) = 2"
  using mirror_image_exact [of mirror_initial "\<lambda>_. True" 1 "[ex_svc [ex_chr 10 1, ex_chr 12 2]]"]
  by (simp add: mirror_initial_def case_prod_beta standard_service_def ex_svc_def ex_uuid_def MAX_CHARS_def)

theorem rebind_exact_witness:
  "list_ex (\<lambda>r. mc_upstream r \<noteq> None) (mi_chars (fst (rebind_upstream (Some (2, [ex_svc [ex_chr 10 2]])) ex_mirror)))"
proof -
  have b: "mi_built ex_mirror" by (simp add: ex_mirror_simps)
  have ok: "snd (rebind_upstream (Some (2, [ex_svc [ex_chr 10 2]])) ex_mirror)"
    by (simp add: ex_mirror_simps rebind_upstream_def rebind_row_def find_remote_def uuid_eq_def)
  show ?thesis using rebind_exact [OF b prod.collapse [symmetric], of 2 "[ex_svc [ex_chr 10 2]]"] ok by simp
qed

theorem mirror_forwards_witness:
  "mirror_notify 12 [7] ex_mirror \<noteq> (ex_mirror, None) \<and> snd (mirror_notify 12 [7] ex_mirror) = Some (1, [7])"
proof -
  have "mi_built ex_mirror" "mi_mutex ex_mirror" "distinct (map mc_upstream_handle (mi_chars ex_mirror))"
      "1 < length (mi_chars ex_mirror)" "mc_upstream_handle (mi_chars ex_mirror ! 1) = 12"
    by (simp_all add: ex_mirror_simps)
  then have "snd (mirror_notify 12 [7] ex_mirror) = Some (1, [7])"
    using mirror_forwards [of ex_mirror 1 "[7]"] by (simp add: case_prod_beta)
  then show ?thesis by auto
qed

text \<open>Without distinct handles the notification goes astray: a row whose characteristic has gone keeps its old handle, and
  when another characteristic has that handle after the reconnect, its notifications become the value of the row that is
  bound to nothing.\<close>

theorem stale_handle_misroutes:
  "let m = fst (rebind_upstream (Some (2, [ex_svc [ex_chr 10 2]])) ex_mirror); m' = fst (mirror_notify 10 [7] m) in
   map mc_upstream (mi_chars m) = [None, Some (2, ex_chr 10 2)] \<and> snd (mirror_notify 10 [7] m) = Some (0, [7]) \<and>
   map mc_value (mi_chars m') = [[7], []]"
  by (simp add: ex_mirror_simps rebind_upstream_def rebind_row_def find_remote_def uuid_eq_def mirror_notify_def cache_value_def
      CACHE_BYTES_def)

text \<open>A build that is not followed by a successful start of the server leaves its rows; the next attempt adds them again.\<close>

theorem build_retry_duplicates:
  assumes "\<not> mi_built m" "mi_chars m = []" "2 * length (image_rows creates gen (mi_services m) svcs) \<le> MAX_CHARS"
  shows "length (mi_chars (fst (build_from creates (Some (gen', svcs)) (fst (build_from creates (Some (gen, svcs)) m))))) =
    2 * length (image_rows creates gen (mi_services m) svcs)"
proof -
  have len: "length (image_rows creates g k svcs) = length (image_rows creates g' k' svcs)" for g g' k k'
    by (induction svcs arbitrary: k k') (auto)
  show ?thesis using assms len [of gen' _ gen "mi_services m"]
    by (simp add: build_from_def build_services_exact)
qed

theorem build_retry_duplicates_witness:
  "length (mi_chars (fst (build_from (\<lambda>_. True) (Some (2, [ex_svc [ex_chr 10 1]])) (fst (build_from (\<lambda>_. True) (Some (1, [ex_svc [ex_chr 10 1]])) mirror_initial))))) = 2"
  using build_retry_duplicates [of mirror_initial "\<lambda>_. True" 1 "[ex_svc [ex_chr 10 1]]" 2]
  by (simp add: mirror_initial_def standard_service_def ex_svc_def ex_uuid_def MAX_CHARS_def)

text \<open>The probe after the start writes past its array of sixteen exactly when the rows belong to more than sixteen services.\<close>

lemma probe_services_None:
  "distinct seen \<Longrightarrow> length seen \<le> 16 \<Longrightarrow> probe_services rows seen = None \<longleftrightarrow> 16 < card (set seen \<union> mc_svc ` set rows)"
proof (induction rows arbitrary: seen)
  case Nil
  then show ?case by (simp add: distinct_card)
next
  case (Cons r rows)
  have c: "card (set seen) = length seen" using Cons.prems(1) by (simp add: distinct_card)
  show ?case
  proof (cases "mc_svc r \<in> set seen")
    case True
    then show ?thesis using Cons by (simp add: insert_absorb)
  next
    case False
    show ?thesis
    proof (cases "length seen < 16")
      case True
      then show ?thesis using False Cons.IH [of "seen @ [mc_svc r]"] Cons.prems by simp
    next
      case full: False
      have "card (insert (mc_svc r) (set seen)) \<le> card (set seen \<union> mc_svc ` set (r # rows))" by (rule card_mono) auto
      then show ?thesis using False full c Cons.prems(2) by simp
    qed
  qed
qed

theorem finalize_overflow:
  "finalize_server start_ok m = None \<longleftrightarrow>
   mi_server m \<and> \<not> mi_built m \<and> start_ok \<and> 16 < card (mc_svc ` set (mi_chars m))"
  using probe_services_None [of "[]" "mi_chars m"] by (auto simp: finalize_server_def split: option.split)

section \<open>The advertising payload\<close>

lemma ad_add_size:
  assumes "uuid_bytes u \<in> {2, 4, 16}"
  shows "ad_size (ad_add u d) = ad_size d + (if ad_has (uuid_bytes u) d then uuid_bytes u else uuid_bytes u + 2)"
proof -
  have e: "ad_has b d = (length (filter (\<lambda>u. uuid_bytes u = b) (ad_uuids d)) \<noteq> 0)" for b
    by (auto simp: ad_has_def list_ex_iff filter_empty_conv)
  from assms consider "uuid_bytes u = 2" | "uuid_bytes u = 4" | "uuid_bytes u = 16" by auto
  then show ?thesis by cases (auto simp: ad_size_def ad_add_def ad_record_size_def Let_def e)
qed

lemma ad_add_more:
  assumes "b \<in> {2, 4, 16}" "uuid_bytes u \<in> {2, 4, 16}" "\<not> ad_fits d b"
  shows "\<not> ad_fits (ad_add u d) b"
proof -
  have h: "ad_has b (ad_add u d) = (ad_has b d \<or> uuid_bytes u = b)" by (auto simp: ad_has_def ad_add_def)
  show ?thesis using assms(3) ad_add_size [OF assms(2), of d] unfolding ad_fits_def h by auto
qed

lemma place_uuid_small:
  assumes "uuid_bytes u \<in> {2, 4, 16}" "ad_size (fst s) \<le> 31" "ad_size (snd s) \<le> 31" "place_uuid u (uuid_bytes u) s = s'"
  shows "ad_size (fst s') \<le> 31 \<and> ad_size (snd s') \<le> 31"
proof -
  obtain main scan where s: "s = (main, scan)" by fastforce
  have a: "ad_size (ad_add u main) \<le> 31" if "ad_fits main (uuid_bytes u)"
    unfolding ad_add_size [OF assms(1)] using that by (simp only: ad_fits_def)
  have b: "ad_size (ad_add u scan) \<le> 31" if "ad_fits scan (uuid_bytes u)"
    unfolding ad_add_size [OF assms(1)] using that by (simp only: ad_fits_def)
  show ?thesis using assms(2-) a b by (auto simp: s place_uuid_def split: if_splits)
qed

text \<open>What a payload offers: a UUID is in it, or fits in neither part.\<close>

definition offered :: "ad_data \<times> ad_data \<Rightarrow> ble_uuid \<Rightarrow> bool" where
  "offered s u \<longleftrightarrow> u \<in> set (ad_uuids (fst s)) \<union> set (ad_uuids (snd s)) \<or> \<not> ad_fits (fst s) (uuid_bytes u) \<and> \<not> ad_fits (snd s) (uuid_bytes u)"

lemma place_uuid_offers:
  assumes "uuid_bytes v \<in> {2, 4, 16}" "uuid_bytes u \<in> {2, 4, 16}" "offered s u \<or> u = v"
  shows "offered (place_uuid v (uuid_bytes v) s) u"
proof -
  obtain main scan where s: "s = (main, scan)" by fastforce
  have m: "\<not> ad_fits d (uuid_bytes u) \<Longrightarrow> \<not> ad_fits (ad_add v d) (uuid_bytes u)" for d
    by (rule ad_add_more [OF assms(2,1)])
  show ?thesis using assms(3) m [of main] m [of scan]
    by (auto simp: s place_uuid_def offered_def) (auto simp: ad_add_def)
qed

definition uuid_sized :: "ble_uuid \<Rightarrow> bool" where
  "uuid_sized u \<longleftrightarrow> uuid_bytes u \<in> {2, 4, 16}"

lemma place_services_small:
  "ad_size (fst s) \<le> 31 \<Longrightarrow> ad_size (snd s) \<le> 31 \<Longrightarrow> place_services rows seen s = s' \<Longrightarrow> ad_size (fst s') \<le> 31 \<and> ad_size (snd s') \<le> 31"
proof (induction rows arbitrary: seen s)
  case (Cons r rows)
  have "ad_size (fst (place_uuid (mc_svc_uuid r) (uuid_bytes (mc_svc_uuid r)) s)) \<le> 31 \<and>
      ad_size (snd (place_uuid (mc_svc_uuid r) (uuid_bytes (mc_svc_uuid r)) s)) \<le> 31" if "uuid_bytes (mc_svc_uuid r) \<in> {2, 4, 16}"
    using place_uuid_small [OF that Cons.prems(1,2) refl] .
  then show ?case using Cons by (auto simp: Let_def split: if_splits)
qed auto

lemma place_services_keeps:
  "uuid_sized u \<Longrightarrow> offered s u \<Longrightarrow> offered (place_services rows seen s) u"
proof (induction rows arbitrary: seen s)
  case (Cons r rows)
  have "offered (place_uuid (mc_svc_uuid r) (uuid_bytes (mc_svc_uuid r)) s) u" if "uuid_sized (mc_svc_uuid r)"
    using place_uuid_offers [of "mc_svc_uuid r" u s] that Cons.prems by (simp add: uuid_sized_def)
  then show ?case using Cons by (auto simp: Let_def uuid_sized_def)
qed simp

definition svc_uuids_ok :: "mirror_char list \<Rightarrow> bool" where
  "svc_uuids_ok rows \<longleftrightarrow> (\<forall>r \<in> set rows. \<forall>r' \<in> set rows. mc_svc r = mc_svc r' \<longrightarrow> mc_svc_uuid r = mc_svc_uuid r')"

lemma svc_uuids_okD: "svc_uuids_ok rows \<Longrightarrow> r \<in> set rows \<Longrightarrow> r' \<in> set rows \<Longrightarrow> mc_svc r = mc_svc r' \<Longrightarrow> mc_svc_uuid r = mc_svc_uuid r'"
  unfolding svc_uuids_ok_def by blast

lemma svc_uuids_okI: "(\<And>r r'. r \<in> set rows \<Longrightarrow> r' \<in> set rows \<Longrightarrow> mc_svc r = mc_svc r' \<Longrightarrow> mc_svc_uuid r = mc_svc_uuid r') \<Longrightarrow> svc_uuids_ok rows"
  unfolding svc_uuids_ok_def by blast

lemma place_services_offers:
  assumes "\<And>r r'. r \<in> set rows \<Longrightarrow> r' \<in> set rows \<Longrightarrow> mc_svc r = mc_svc r' \<Longrightarrow> mc_svc_uuid r = mc_svc_uuid r'"
    and "\<And>r. r \<in> set rows \<Longrightarrow> mc_svc r \<in> set seen \<Longrightarrow> uuid_sized (mc_svc_uuid r) \<Longrightarrow> offered s (mc_svc_uuid r)"
    and "r \<in> set rows" "uuid_sized (mc_svc_uuid r)"
  shows "offered (place_services rows seen s) (mc_svc_uuid r)"
  using assms
proof (induction rows arbitrary: seen s r)
  case (Cons q rows)
  define seen' where "seen' = (if length seen < 16 then seen @ [mc_svc q] else seen)"
  define s' where "s' = (if uuid_sized (mc_svc_uuid q) then place_uuid (mc_svc_uuid q) (uuid_bytes (mc_svc_uuid q)) s else s)"
  have step: "place_services (q # rows) seen s = (if mc_svc q \<in> set seen then place_services rows seen s else place_services rows seen' s')"
    by (simp add: seen'_def s'_def uuid_sized_def Let_def)
  have keep: "offered s u \<or> u = mc_svc_uuid q \<Longrightarrow> uuid_sized u \<Longrightarrow> offered s' u" if "uuid_sized (mc_svc_uuid q) \<or> u \<noteq> mc_svc_uuid q" for u
    using that place_uuid_offers [of "mc_svc_uuid q" u s] by (auto simp: s'_def uuid_sized_def)
  have same: "x \<in> set rows \<Longrightarrow> y \<in> set rows \<Longrightarrow> mc_svc x = mc_svc y \<Longrightarrow> mc_svc_uuid x = mc_svc_uuid y" for x y
    using Cons.prems(1) [of x y] by simp
  show ?case
  proof (cases "mc_svc q \<in> set seen")
    case True
    have "offered (place_services rows seen s) (mc_svc_uuid r)"
    proof (cases "r \<in> set rows")
      case True
      show ?thesis by (rule Cons.IH [OF same _ True Cons.prems(4)]) (simp_all add: Cons.prems(2))
    next
      case False
      then have "offered s (mc_svc_uuid r)" using Cons.prems(2-4) True by auto
      then show ?thesis using Cons.prems(4) by (rule place_services_keeps [rotated])
    qed
    then show ?thesis using step True by simp
  next
    case False
    have seen_ok: "offered s' (mc_svc_uuid x)" if x: "x \<in> set (q # rows)" "mc_svc x \<in> set seen'" "uuid_sized (mc_svc_uuid x)" for x
    proof -
      have "mc_svc x \<in> set seen \<or> mc_svc_uuid x = mc_svc_uuid q"
        using x Cons.prems(1) [of x q] by (auto simp: seen'_def split: if_splits)
      then have "offered s (mc_svc_uuid x) \<or> mc_svc_uuid x = mc_svc_uuid q" using Cons.prems(2) x by auto
      then show ?thesis using keep x(3) by metis
    qed
    have "offered (place_services rows seen' s') (mc_svc_uuid r)"
    proof (cases "r \<in> set rows")
      case True
      show ?thesis
      proof (rule Cons.IH [OF same _ True Cons.prems(4)])
        show "offered s' (mc_svc_uuid x)" if "x \<in> set rows" "mc_svc x \<in> set seen'" "uuid_sized (mc_svc_uuid x)" for x
          using seen_ok [of x] that by simp
      qed
    next
      case False
      then have "r = q" using Cons.prems(3) by simp
      then have "offered s' (mc_svc_uuid r)" using keep Cons.prems(4) by metis
      then show ?thesis using Cons.prems(4) by (rule place_services_keeps [rotated])
    qed
    then show ?thesis using step False by simp
  qed
qed simp

lemma ad_size_empty: "ad_size \<lparr>ad_other = k, ad_uuids = []\<rparr> = k"
  by (simp add: ad_size_def ad_record_size_def)

lemma adv_name_length: "length (adv_name base suffix) \<le> 26"
  by (simp add: adv_name_def)

text \<open>The advertisement always fits: main part and scan response never exceed 31 bytes, the name (at most 26 characters) is
  in the main part, and a mirrored service's UUID is left out only when it fits in neither part. The radio is started only
  when advertising is allowed.\<close>

theorem adv_payload_complete:
  assumes "mi_built m" "svc_uuids_ok (mi_chars m)" "case dash of Some u \<Rightarrow> uuid_bytes u = 16 | None \<Rightarrow> True"
    and "start_advertising base suffix dash ok b m = (m', b')"
  shows "\<exists>p. mi_payload m' = Some p \<and> ad_size (ap_main p) \<le> 31 \<and> ad_size (ap_scan p) \<le> 31 \<and>
      ap_name p = adv_name base suffix \<and> length (ap_name p) \<le> 26 \<and> ad_other (ap_main p) = 5 + length (ap_name p) \<and>
      (\<forall>r \<in> set (mi_chars m). uuid_sized (mc_svc_uuid r) \<longrightarrow> offered (ap_main p, ap_scan p) (mc_svc_uuid r)) \<and>
      (b' = b \<or> advertising_enabled b \<and> ok \<and> mi_advertising m')"
proof -
  define name where "name = adv_name base suffix"
  define s where "s = place_services (mi_chars m) [] (\<lparr>ad_other = 3 + (2 + length name), ad_uuids = []\<rparr>, \<lparr>ad_other = 0, ad_uuids = []\<rparr>)"
  define t where "t = (case dash of Some u \<Rightarrow> place_uuid u 16 s | None \<Rightarrow> s)"
  have small: "ad_size (fst s) \<le> 31 \<and> ad_size (snd s) \<le> 31"
    by (rule place_services_small [OF _ _ s_def [symmetric]]) (use adv_name_length in \<open>simp_all add: ad_size_empty name_def\<close>)
  then have small': "ad_size (fst t) \<le> 31 \<and> ad_size (snd t) \<le> 31"
    using place_uuid_small [of "the dash" s] assms(3) by (auto simp: t_def split: option.splits)
  have off: "offered s (mc_svc_uuid r)" if "r \<in> set (mi_chars m)" "uuid_sized (mc_svc_uuid r)" for r
    unfolding s_def by (rule place_services_offers [OF svc_uuids_okD [OF assms(2)]]) (use that in auto)
  then have off': "offered t (mc_svc_uuid r)" if "r \<in> set (mi_chars m)" "uuid_sized (mc_svc_uuid r)" for r
    using that place_uuid_offers [of "the dash" "mc_svc_uuid r" s] assms(3) by (auto simp: t_def uuid_sized_def split: option.splits)
  have oth: "ad_other (fst (place_services rows seen q)) = ad_other (fst q)" for rows seen q
    by (induction rows seen q rule: place_services.induct) (auto simp: Let_def place_uuid_def ad_add_def split: prod.splits)
  have oth': "ad_other (fst (place_uuid u k q)) = ad_other (fst q)" for u k q
    by (simp add: place_uuid_def ad_add_def split: prod.split)
  have "ad_other (fst s) = 5 + length name" by (simp add: s_def oth)
  then have oth'': "ad_other (fst t) = 5 + length name" by (simp add: t_def oth' split: option.split)
  have r: "start_advertising base suffix dash ok b m =
      (let m1 = m\<lparr>mi_adv := True, mi_payload := Some \<lparr>ap_name = name, ap_main = fst t, ap_scan = snd t, ap_interval = bb_adv_interval_units b\<rparr>\<rparr>
       in if \<not> advertising_enabled b then (m1, b) else if ok then (m1\<lparr>mi_advertising := True\<rparr>, b\<lparr>bb_adv := Some True\<rparr>) else (m1, b))"
    unfolding start_advertising_def t_def s_def name_def using assms(1) by (cases dash) (simp_all add: Let_def)
  show ?thesis using r assms(4) small' off' oth'' adv_name_length [of base suffix]
    by (auto simp: Let_def name_def split: if_splits)
qed

theorem adv_payload_complete_witness:
  "\<exists>p. mi_payload (fst (start_advertising ''lamp'' ''_cloned'' None True ble_initial ex_mirror)) = Some p \<and> ad_size (ap_main p) \<le> 31"
proof -
  have "mi_built ex_mirror" "svc_uuids_ok (mi_chars ex_mirror)" by (simp_all add: ex_mirror_simps svc_uuids_ok_def)
  then show ?thesis
    using adv_payload_complete [of ex_mirror None "''lamp''" "''_cloned''" True ble_initial, OF _ _ _ prod.collapse [symmetric]] by auto
qed

section \<open>Reachable states\<close>

definition row_ok :: "mirror_char \<Rightarrow> bool" where
  "row_ok r \<longleftrightarrow> length (mc_cache r) \<le> CACHE_BYTES \<and> mc_local_props r = sanitize_props (mc_upstream_props r)"

definition mirror_inv :: "mirror \<Rightarrow> bool" where
  "mirror_inv m \<longleftrightarrow> length (mi_chars m) \<le> MAX_CHARS \<and> list_all row_ok (mi_chars m) \<and> svc_uuids_ok (mi_chars m) \<and>
     (\<forall>r \<in> set (mi_chars m). mc_svc r < mi_services m) \<and> mi_service_count m = of_nat (mi_services m) \<and>
     (mi_built m \<longrightarrow> mi_server m \<and> mi_mutex m \<and> mi_adv m) \<and> (mi_server m \<longrightarrow> mi_mutex m) \<and> (mi_advertising m \<longrightarrow> mi_built m) \<and>
     (mi_chars m \<noteq> [] \<longrightarrow> mi_mutex m)"

inductive mirror_step :: "mirror \<Rightarrow> mirror \<Rightarrow> bool" where
  step_build: "mirror_step m (fst (build_from creates client m))"
| step_finalize: "finalize_server ok m = Some (m', r) \<Longrightarrow> mirror_step m m'"
| step_rebind: "mirror_step m (fst (rebind_upstream client m))"
| step_disconnect: "mirror_step m (disconnect_upstream m)"
| step_prime: "mirror_step m (prime_cache h data m)"
| step_notify: "mirror_step m (fst (mirror_notify h data m))"
| step_connected: "mirror_step m (fst (server_on_connect allowed active m))"
| step_gone: "mirror_step m (fst (server_on_disconnect allowed active m))"
| step_read: "mirror_step m (char_on_read m)"
| step_write: "mirror_step m (char_write_done queued (fst (char_on_write i data m)))"
| step_adv: "mirror_step m (fst (start_advertising base suffix dash ok b m))"
| step_stop: "mirror_step m (fst (stop_advertising b m))"

inductive mirror_reachable :: "mirror \<Rightarrow> bool" where
  mr_start: "mirror_reachable mirror_initial"
| mr_step: "mirror_reachable m \<Longrightarrow> mirror_step m m' \<Longrightarrow> mirror_reachable m'"

lemma image_rows_svc:
  "r \<in> set (image_rows creates gen k svcs) \<Longrightarrow> k \<le> mc_svc r \<and> mc_svc r < k + length (mirrored creates svcs) \<and>
     mc_svc_uuid r = rsv_uuid (mirrored creates svcs ! (mc_svc r - k)) \<and> row_ok r"
proof (induction svcs arbitrary: k)
  case (Cons s ss)
  show ?case
  proof (cases "standard_service (rsv_uuid s) \<or> \<not> creates (rsv_uuid s)")
    case True
    then show ?thesis using Cons by (auto simp: mirrored_def)
  next
    case False
    then have m: "mirrored creates (s # ss) = s # mirrored creates ss" by (simp add: mirrored_def)
    from False Cons.prems consider "r \<in> set (map (new_row gen k (rsv_uuid s)) (rsv_characteristics s))"
      | "r \<in> set (image_rows creates gen (k + 1) ss)" by auto
    then show ?thesis
    proof cases
      case 1
      then show ?thesis by (auto simp: m new_row_def Let_def row_ok_def)
    next
      case 2
      from Cons.IH [OF 2] have "mc_svc r - k = Suc (mc_svc r - (k + 1))" by auto
      with Cons.IH [OF 2] show ?thesis by (simp add: m)
    qed
  qed
qed simp

lemma svc_uuids_ok_update:
  "svc_uuids_ok rows \<Longrightarrow> i < length rows \<Longrightarrow> mc_svc r = mc_svc (rows ! i) \<Longrightarrow> mc_svc_uuid r = mc_svc_uuid (rows ! i) \<Longrightarrow>
   svc_uuids_ok (rows[i := r])"
  unfolding svc_uuids_ok_def using set_update_subset_insert [of rows i r] nth_mem [of i rows] by (smt (verit) insert_iff subset_iff)

lemma mirror_inv_update:
  assumes "mirror_inv m" "i < length (mi_chars m)" "mc_svc r = mc_svc (mi_chars m ! i)" "mc_svc_uuid r = mc_svc_uuid (mi_chars m ! i)" "row_ok r"
  shows "mirror_inv (m\<lparr>mi_chars := (mi_chars m)[i := r]\<rparr>)"
proof -
  have "\<forall>x \<in> set ((mi_chars m)[i := r]). mc_svc x < mi_services m"
    using assms(1,2,3) set_update_subset_insert [of "mi_chars m" i r] by (auto simp: mirror_inv_def)
  moreover have "list_all row_ok ((mi_chars m)[i := r])"
    using assms(1,5) set_update_subset_insert [of "mi_chars m" i r] by (auto simp: mirror_inv_def list_all_iff)
  ultimately show ?thesis using assms svc_uuids_ok_update [of "mi_chars m" i r] by (simp add: mirror_inv_def)
qed

lemma mirror_inv_map:
  assumes "mirror_inv m" "\<And>r. mc_svc (f r) = mc_svc r \<and> mc_svc_uuid (f r) = mc_svc_uuid r \<and> (row_ok r \<longrightarrow> row_ok (f r))"
  shows "mirror_inv (m\<lparr>mi_chars := map f (mi_chars m)\<rparr>)"
proof -
  have "svc_uuids_ok (mi_chars m)" using assms(1) by (simp add: mirror_inv_def)
  then have "svc_uuids_ok (map f (mi_chars m))"
    using assms(2) by (intro svc_uuids_okI) (auto dest: svc_uuids_okD)
  then show ?thesis using assms by (simp add: mirror_inv_def list_all_iff)
qed

lemma mirror_inv_rebind: "mirror_inv m \<Longrightarrow> mirror_inv (fst (rebind_upstream client m))"
  by (auto simp: rebind_upstream_def rebind_row_def row_ok_def Let_def split: option.split intro!: mirror_inv_map)

lemma mirror_inv_built_rows: "mirror_inv m \<Longrightarrow> mirror_inv (fst (build_from creates client m))"
proof (cases "mi_built m")
  case True
  then show "mirror_inv m \<Longrightarrow> ?thesis" by (simp add: build_from_def mirror_inv_rebind)
next
  case False
  assume inv: "mirror_inv m"
  show ?thesis
  proof (cases client)
    case None
    then show ?thesis using inv False by (simp add: build_from_def mirror_inv_def)
  next
    case (Some gs)
    obtain gen svcs where c: "client = Some (gen, svcs)" using Some by (cases gs) simp
    define n where "n = length (mirrored creates svcs)"
    define rows where "rows = take MAX_CHARS (mi_chars m @ image_rows creates gen (mi_services m) svcs)"
    have b: "fst (build_from creates client m) = m\<lparr>mi_mutex := True, mi_server := True, mi_services := mi_services m + n,
        mi_service_count := mi_service_count m + of_nat n, mi_chars := rows\<rparr>"
      using inv False by (simp add: build_from_def c build_services_exact mirror_inv_def n_def rows_def)
    have old: "mc_svc r < mi_services m \<and> row_ok r" if "r \<in> set (mi_chars m)" for r
      using inv that by (auto simp: mirror_inv_def list_all_iff)
    have new: "mi_services m \<le> mc_svc r \<and> mc_svc r < mi_services m + n \<and> row_ok r \<and>
        mc_svc_uuid r = rsv_uuid (mirrored creates svcs ! (mc_svc r - mi_services m))"
      if "r \<in> set (image_rows creates gen (mi_services m) svcs)" for r using image_rows_svc [OF that] by (simp add: n_def)
    have mem: "r \<in> set (mi_chars m) \<or> r \<in> set (image_rows creates gen (mi_services m) svcs)" if "r \<in> set rows" for r
      using that set_take_subset [of MAX_CHARS] unfolding rows_def by fastforce
    have uu: "svc_uuids_ok (mi_chars m)" using inv by (simp add: mirror_inv_def)
    have "svc_uuids_ok rows"
    proof (rule svc_uuids_okI)
      fix r r' assume "r \<in> set rows" "r' \<in> set rows" and e: "mc_svc r = mc_svc r'"
      then show "mc_svc_uuid r = mc_svc_uuid r'"
        using mem [of r] mem [of r'] old [of r] old [of r'] new [of r] new [of r'] svc_uuids_okD [OF uu _ _ e] by fastforce
    qed
    moreover have "\<forall>r \<in> set rows. mc_svc r < mi_services m + n \<and> row_ok r" using mem old new by fastforce
    moreover have "length rows \<le> MAX_CHARS" by (simp add: rows_def)
    ultimately show ?thesis unfolding b using inv False by (simp add: mirror_inv_def list_all_iff)
  qed
qed

lemma row_ok_values:
  "row_ok r \<Longrightarrow> row_ok (cache_value data r\<lparr>mc_value := v\<rparr>)" "row_ok r \<Longrightarrow> row_ok (r\<lparr>mc_value := v, mc_cache := [], mc_primed := p\<rparr>)"
  by (auto simp: row_ok_def cache_value_def)

lemma mirror_inv_nth: "mirror_inv m \<Longrightarrow> i < length (mi_chars m) \<Longrightarrow> row_ok (mi_chars m ! i)"
  by (auto simp: mirror_inv_def list_all_length)

lemma mirror_step_inv: "mirror_step m m' \<Longrightarrow> mirror_inv m \<Longrightarrow> mirror_inv m'"
proof (induction rule: mirror_step.induct)
  case (step_prime m h data)
  then show ?case
    by (auto simp: prime_cache_def cache_value_def [of data "mi_chars m ! i" for i] split: option.split
        dest!: find_idx_SomeD intro!: mirror_inv_update row_ok_values(1) [unfolded cache_value_def] mirror_inv_nth)
next
  case (step_notify m h data)
  show ?case
  proof (cases "find_idx (\<lambda>r. mc_upstream_handle r = h) (mi_chars m)")
    case (Some i)
    then have i: "i < length (mi_chars m)" by (auto dest: find_idx_SomeD)
    have "mirror_inv (m\<lparr>mi_chars := (mi_chars m)[i := (cache_value data (mi_chars m ! i))\<lparr>mc_value := data\<rparr>]\<rparr>)"
      by (rule mirror_inv_update [OF step_notify i]) (simp_all add: cache_value_def row_ok_values(1) [unfolded cache_value_def] mirror_inv_nth [OF step_notify i])
    then show ?thesis using step_notify Some by (auto simp: mirror_notify_def mirror_inv_def)
  qed (use step_notify in \<open>simp add: mirror_notify_def\<close>)
next
  case (step_write m queued i data)
  have keep: "mirror_inv (char_write_done queued x) = mirror_inv x" for x by (simp add: mirror_inv_def char_write_done_def)
  show ?case
    using step_write by (auto simp: keep char_on_write_def Let_def not_le intro!: mirror_inv_update row_ok_values(2) mirror_inv_nth)
next
  case (step_disconnect m)
  then show ?case by (auto simp: disconnect_upstream_def row_ok_def intro!: mirror_inv_map)
next
  case (step_finalize ok m m' r)
  then have "m' = m \<or> mi_server m \<and> m' = m\<lparr>mi_built := True, mi_adv := True\<rparr>"
    by (auto simp: finalize_server_def split: if_splits option.splits)
  then show ?case using step_finalize.prems by (auto simp: mirror_inv_def)
next
  case (step_adv m base suffix dash ok b)
  define m' where "m' = fst (start_advertising base suffix dash ok b m)"
  have "m' = m \<or> mi_built m \<and> (\<exists>p a. m' = m\<lparr>mi_adv := True, mi_payload := p, mi_advertising := a\<rparr>)"
    unfolding m'_def by (cases m) (auto simp: start_advertising_def Let_def)
  then have "mirror_inv m'" using step_adv by (auto simp: mirror_inv_def)
  then show ?case by (simp add: m'_def)
next
  case (step_build m creates client)
  then show ?case by (rule mirror_inv_built_rows)
next
  case (step_rebind m client)
  then show ?case by (rule mirror_inv_rebind)
next
  case (step_stop m b)
  then show ?case by (auto simp: stop_advertising_def mirror_inv_def)
qed (simp_all add: mirror_inv_def server_on_connect_def server_on_disconnect_def char_on_read_def)

lemma mirror_inv_initial: "mirror_inv mirror_initial"
  by (simp add: mirror_inv_def mirror_initial_def svc_uuids_ok_def)

text \<open>In every state the mirror can reach, whatever the peripheral offers and in whichever order links come and go, centrals
  read and write, and the server starts, the table has at most 64 rows with caches of at most 64 bytes, every local
  characteristic has the sanitised properties of its original, the service count is the number of services created, and the
  device advertises the clone only once its attribute table is registered.\<close>

theorem mirror_consistent: "mirror_reachable m \<Longrightarrow> mirror_inv m"
proof (induction rule: mirror_reachable.induct)
  case mr_start
  show ?case by (rule mirror_inv_initial)
qed (rule mirror_step_inv)

theorem mirror_consistent_witness: "mirror_inv (char_on_read mirror_initial)"
  by (rule mirror_consistent, rule mr_step [OF mr_start step_read])

end
