(* ===== verification/Clone_Config.thy ===== *)
theory Clone_Config
  imports Nvs
begin

text \<open>
  The target of the clone feature, \<^verbatim>\<open>components/ble_clone/clone_config.cpp\<close>: a snapshot in memory, loaded from the store at
  boot and swapped after it has been stored. The mutex makes each operation one step.
\<close>

record clone_target =
  ct_address :: u64
  ct_type :: u8
  ct_enabled :: bool
  ct_suffix :: string

definition CLONE_NS :: string where "CLONE_NS = ''nbp_clone''"
definition DEFAULT_NAME_SUFFIX :: string where "DEFAULT_NAME_SUFFIX = ''_cloned''"

text \<open>\<open>name_suffix\<close> is an array of 16 characters, the last one the terminator.\<close>

definition suffix_copy :: "string \<Rightarrow> string" where
  "suffix_copy s = take 15 s"

definition config_load :: "nvs_env \<Rightarrow> nvs \<Rightarrow> clone_target" where
  "config_load ne n =
     (let t = \<lparr>ct_address = 0, ct_type = 0, ct_enabled = False, ct_suffix = suffix_copy DEFAULT_NAME_SUFFIX\<rparr>;
          t = (case get_u64 ne CLONE_NS ''addr'' n of Some a \<Rightarrow> t\<lparr>ct_address := a\<rparr> | None \<Rightarrow> t);
          t = (case get_u8 ne CLONE_NS ''type'' n of Some v \<Rightarrow> t\<lparr>ct_type := v\<rparr> | None \<Rightarrow> t);
          t = (case get_u8 ne CLONE_NS ''enabled'' n of Some v \<Rightarrow> t\<lparr>ct_enabled := (v \<noteq> 0)\<rparr> | None \<Rightarrow> t)
      in case get_str ne CLONE_NS ''name_suffix'' 16 n of Some s \<Rightarrow> t\<lparr>ct_suffix := suffix_copy s\<rparr> | None \<Rightarrow> t)"

text \<open>\<open>set\<close>: the snapshot, the store and the result.\<close>

definition config_set :: "nvs_env \<Rightarrow> clone_target \<Rightarrow> clone_target \<times> nvs \<Rightarrow> (clone_target \<times> nvs) \<times> bool" where
  "config_set ne t s =
     (let (snapshot, n) = s in
      case nvs_write ne CLONE_NS [(''addr'', NV_u64 (ct_address t)), (''type'', NV_u8 (ct_type t)),
             (''enabled'', NV_u8 (if ct_enabled t then 1 else 0)), (''name_suffix'', NV_str (ct_suffix t))] n of
        (n, False) \<Rightarrow> ((snapshot, n), False)
      | (n, True) \<Rightarrow> ((t, n), True))"

lemma config_set_load:
  assumes "nvs_works ne" "length (ct_suffix t) \<le> 15"
  shows "config_set ne t (snapshot, n) = ((t, snd (fst (config_set ne t (snapshot, n)))), True) \<and>
    config_load ne (snd (fst (config_set ne t (snapshot, n)))) = t"
  using assms by (simp add: config_set_def config_load_def nvs_gets CLONE_NS_def suffix_copy_def nvs_works_def)

lemma config_set_failed: "config_set ne t (snapshot, n) = ((s', n'), False) \<Longrightarrow> s' = snapshot \<and> n' = n"
  by (auto simp: config_set_def dest: nvs_write_False split: prod.splits bool.splits)

lemma config_load_suffix: "length (ct_suffix (config_load ne n)) \<le> 15"
  by (simp add: config_load_def suffix_copy_def Let_def split: option.split)

end
