(* ===== verification/Clone_Upstream.thy ===== *)
theory Clone_Upstream
  imports Clone_Mirror Clone_Config
begin

text \<open>
  The link to the cloned peripheral, \<^verbatim>\<open>components/ble_clone/clone_upstream.cpp\<close>: the queue of writes, one session attempt
  (connect, discover, build or rebind the mirror, prime, subscribe, advertise), the callbacks, and the supervisor's
  turn with its backoff. What the stack answers in a session is a record \<open>session_in\<close>. A connect deletes the attribute
  objects of the client (\<open>deleteAttributes = true\<close>), so \<open>up_gen\<close> counts them and a pointer carries the number it was made
  under. \<open>None\<close> as the result of a session is the write past the array in \<open>finalize_server\<close>.
\<close>

section \<open>State\<close>

definition WRITE_QUEUE_DEPTH :: nat where "WRITE_QUEUE_DEPTH = 8"
definition WRITE_DATA_BYTES :: nat where "WRITE_DATA_BYTES = CACHE_BYTES"
definition INITIAL_BACKOFF_MS :: u32 where "INITIAL_BACKOFF_MS = 1000"
definition MAX_BACKOFF_MS :: u32 where "MAX_BACKOFF_MS = 30000"

datatype up_state = Disabled | Idle | Scanning | Connecting | Discovering | Ready | Reconnecting

record write_request =
  wr_chr :: remote_ptr
  wr_data :: "u8 list"
  wr_response :: bool

record upstream =
  up_queue :: "write_request list option"
  up_task :: bool
  up_client :: bool
  up_link :: bool
  up_gen :: nat
  up_subscribed :: "(remote_ptr \<times> bool) list"    \<comment> \<open>with the \<open>indicate\<close> flag\<close>
  up_state :: up_state
  up_address :: u64
  up_mtu :: u16
  up_reconnects :: u32
  up_last_disconnect_reason :: u32
  up_notifies_seen :: u32
  up_writes_drained :: u32
  up_writes_dropped :: u32
  up_mirror_built :: bool

definition upstream_initial :: upstream where
  "upstream_initial = \<lparr>up_queue = None, up_task = False, up_client = False, up_link = False, up_gen = 0, up_subscribed = [],
     up_state = Idle, up_address = 0, up_mtu = 0, up_reconnects = 0, up_last_disconnect_reason = 0, up_notifies_seen = 0,
     up_writes_drained = 0, up_writes_dropped = 0, up_mirror_built = False\<rparr>"

record clone_sys =
  cl_up :: upstream
  cl_mirror :: mirror
  cl_ble :: ble_backend
  cl_target :: clone_target
  cl_backoff :: u32

definition upstream_init :: "upstream \<Rightarrow> upstream" where
  "upstream_init u = (if up_queue u = None then u\<lparr>up_queue := Some []\<rparr> else u)"

definition upstream_start :: "upstream \<Rightarrow> upstream" where
  "upstream_start u = (if up_task u then u else (upstream_init u)\<lparr>up_task := True\<rparr>)"

section \<open>The queue of writes\<close>

definition enqueue_write :: "remote_ptr option \<Rightarrow> u8 list \<Rightarrow> bool \<Rightarrow> upstream \<Rightarrow> upstream \<times> bool" where
  "enqueue_write chr data with_response u =
     (case up_queue u of
        None \<Rightarrow> (u, False)
      | Some q \<Rightarrow>
          (case chr of
             None \<Rightarrow> (u, False)
           | Some c \<Rightarrow>
               if length data = 0 \<or> length data > WRITE_DATA_BYTES then (u, False)
               else if length q \<ge> WRITE_QUEUE_DEPTH then (u\<lparr>up_writes_dropped := up_writes_dropped u + 1\<rparr>, False)
               else (u\<lparr>up_queue := Some (q @ [\<lparr>wr_chr = c, wr_data = data, wr_response = with_response\<rparr>])\<rparr>, True)))"

text \<open>\<open>drain_writes_until\<close>: the outcomes of the writes that the window leaves time for; the list of writes sent upstream.\<close>

fun drain_writes :: "bool list \<Rightarrow> upstream \<Rightarrow> upstream \<times> write_request list" where
  "drain_writes [] u = (u, [])"
| "drain_writes (ok # oks) u =
     (case up_queue u of
        Some (r # q) \<Rightarrow>
          (let u = u\<lparr>up_queue := Some q\<rparr>;
               u = (if ok then u\<lparr>up_writes_drained := up_writes_drained u + 1\<rparr>
                    else u\<lparr>up_writes_dropped := up_writes_dropped u + 1\<rparr>);
               (u, sent) = drain_writes oks u
           in (u, r # sent))
      | _ \<Rightarrow> (u, []))"

section \<open>Callbacks\<close>

definition up_on_notify :: "remote_ptr option \<Rightarrow> u8 list \<Rightarrow> clone_sys \<Rightarrow> clone_sys \<times> (nat \<times> u8 list) option" where
  "up_on_notify chr data s =
     (let u = cl_up s; s = s\<lparr>cl_up := u\<lparr>up_notifies_seen := up_notifies_seen u + 1\<rparr>\<rparr> in
      case chr of
        None \<Rightarrow> (s, None)
      | Some c \<Rightarrow> (case mirror_notify (rch_handle (snd c)) data (cl_mirror s) of (m, out) \<Rightarrow> (s\<lparr>cl_mirror := m\<rparr>, out)))"

definition up_on_disconnect :: "u32 \<Rightarrow> clone_sys \<Rightarrow> clone_sys" where
  "up_on_disconnect reason s =
     s\<lparr>cl_up := (cl_up s)\<lparr>up_last_disconnect_reason := reason, up_link := False, up_subscribed := [], up_state := Reconnecting\<rparr>,
       cl_mirror := disconnect_upstream (cl_mirror s)\<rparr>"

definition clone_pass_key :: "clone_sys \<Rightarrow> u32" where
  "clone_pass_key s = on_pass_key_entry (bb_pool (cl_ble s))"

text \<open>A write by a local central, and the queue's answer.\<close>

definition central_writes :: "nat \<Rightarrow> u8 list \<Rightarrow> clone_sys \<Rightarrow> clone_sys" where
  "central_writes i data s =
     (case char_on_write i data (cl_mirror s) of
        (m, None) \<Rightarrow> s\<lparr>cl_mirror := m\<rparr>
      | (m, Some (up, d, rsp)) \<Rightarrow>
          (case enqueue_write (Some up) d rsp (cl_up s) of (u, ok) \<Rightarrow> s\<lparr>cl_up := u, cl_mirror := char_write_done ok m\<rparr>))"

section \<open>A session\<close>

datatype connect_outcome = Timed_out | Failed_with u32 | Connected_with u16

record connect_in =
  ci_issued :: bool
  ci_outcome :: connect_outcome

record session_in =
  se_create :: bool
  se_first :: connect_in
  se_tree1 :: "remote_service list option"      \<comment> \<open>\<open>discoverAttributes\<close>\<close>
  se_creates :: "ble_uuid \<Rightarrow> bool"
  se_gone :: "u32 option"                       \<comment> \<open>\<open>onDisconnect\<close> within three seconds, with its reason\<close>
  se_start_ok :: bool
  se_second :: connect_in
  se_tree2 :: "remote_service list option"
  se_value :: "remote_ptr \<Rightarrow> u8 list"
  se_subscribes :: "remote_ptr \<Rightarrow> bool"
  se_name :: string                             \<comment> \<open>the GAP device name, empty when it cannot be read\<close>
  se_late_drop :: "u32 option"                  \<comment> \<open>\<open>onDisconnect\<close> while values are read and subscriptions made\<close>
  se_dash :: "ble_uuid option"
  se_adv_ok :: bool
  se_scan_ok :: bool

definition set_state :: "up_state \<Rightarrow> clone_sys \<Rightarrow> clone_sys" where
  "set_state st s = s\<lparr>cl_up := (cl_up s)\<lparr>up_state := st\<rparr>\<rparr>"

definition client_disconnect :: "clone_sys \<Rightarrow> clone_sys" where
  "client_disconnect s = s\<lparr>cl_up := (cl_up s)\<lparr>up_link := False, up_subscribed := []\<rparr>\<rparr>"

definition scan_resume :: "bool \<Rightarrow> clone_sys \<Rightarrow> clone_sys" where
  "scan_resume ok s = s\<lparr>cl_ble := (cl_ble s)\<lparr>bb_scanner := scanner_resume ok (bb_scanner (cl_ble s))\<rparr>\<rparr>"

definition scan_pause :: "clone_sys \<Rightarrow> clone_sys" where
  "scan_pause s = s\<lparr>cl_ble := (cl_ble s)\<lparr>bb_scanner := scanner_pause (bb_scanner (cl_ble s))\<rparr>\<rparr>"

text \<open>The asynchronous connect and the wait for its callback; \<open>abort\<close> is whether a timeout is followed by a disconnect.\<close>

definition await_connect :: "bool \<Rightarrow> connect_in \<Rightarrow> clone_sys \<Rightarrow> clone_sys \<times> bool" where
  "await_connect abort i s =
     (if \<not> ci_issued i then (s, False)
      else
        let s = s\<lparr>cl_up := (cl_up s)\<lparr>up_gen := up_gen (cl_up s) + 1\<rparr>\<rparr> in
        case ci_outcome i of
          Timed_out \<Rightarrow> (if abort then client_disconnect s else s, False)
        | Failed_with r \<Rightarrow> (s\<lparr>cl_up := (cl_up s)\<lparr>up_last_disconnect_reason := r\<rparr>\<rparr>, False)
        | Connected_with mtu \<Rightarrow> (s\<lparr>cl_up := (cl_up s)\<lparr>up_link := True, up_mtu := mtu\<rparr>\<rparr>, True))"

text \<open>The part of the first session that builds the mirror: structure, link down, server, link up again. \<open>Inl\<close> ends the
  session; \<open>Inr\<close> goes on with the attribute tree of the second discovery.\<close>

definition build_mirror :: "session_in \<Rightarrow> remote_service list \<Rightarrow> clone_sys \<Rightarrow> (clone_sys + clone_sys \<times> remote_service list) option" where
  "build_mirror i svcs s =
     (case build_from (se_creates i) (Some (up_gen (cl_up s), svcs)) (cl_mirror s) of
        (m, False) \<Rightarrow> Some (Inl (client_disconnect (s\<lparr>cl_mirror := m\<rparr>)))
      | (m, True) \<Rightarrow>
          let s = scan_pause (s\<lparr>cl_mirror := m\<rparr>);
              s = s\<lparr>cl_mirror := disconnect_upstream (cl_mirror s)\<rparr>;
              s = client_disconnect s
          in case se_gone i of
               None \<Rightarrow> Some (Inl (scan_resume (se_scan_ok i) s))
             | Some reason \<Rightarrow>
                 let s = up_on_disconnect reason s in
                 (case finalize_server (se_start_ok i) (cl_mirror s) of
                    None \<Rightarrow> None
                  | Some (m, False) \<Rightarrow> Some (Inl (scan_resume (se_scan_ok i) (s\<lparr>cl_mirror := m\<rparr>)))
                  | Some (m, True) \<Rightarrow>
                      let s = s\<lparr>cl_mirror := m, cl_up := (cl_up s)\<lparr>up_mirror_built := True\<rparr>\<rparr> in
                      (case await_connect False (se_second i) s of
                         (s, False) \<Rightarrow> Some (Inl s)
                       | (s, True) \<Rightarrow>
                           let s = scan_resume (se_scan_ok i) s in
                           (case se_tree2 i of
                              None \<Rightarrow> Some (Inl (client_disconnect s))
                            | Some svcs2 \<Rightarrow> Some (Inr (s, svcs2))))))"

definition prime_all :: "(remote_ptr \<Rightarrow> u8 list) \<Rightarrow> mirror \<Rightarrow> mirror" where
  "prime_all val m = fold (\<lambda>(up, h) m. if val up = [] then m else prime_cache h (val up) m) (for_each_readable m) m"

definition subscribe_all :: "(remote_ptr \<Rightarrow> bool) \<Rightarrow> mirror \<Rightarrow> (remote_ptr \<times> bool) list" where
  "subscribe_all ok m = filter (\<lambda>(up, _). ok up) (map (\<lambda>(up, h, ind). (up, ind)) (for_each_subscribable m))"

definition base_name :: "session_in \<Rightarrow> string" where
  "base_name i = (if se_name i = [] then ''clone'' else takeWhile (\<lambda>c. c \<noteq> CHR 0x00) (se_name i))"

text \<open>The part every session ends with: rebind, prime, subscribe, advertise, and the state.\<close>

definition enter_session :: "session_in \<Rightarrow> remote_service list \<Rightarrow> clone_sys \<Rightarrow> clone_sys \<times> bool" where
  "enter_session i svcs s =
     (case rebind_upstream (Some (up_gen (cl_up s), svcs)) (cl_mirror s) of
        (m, False) \<Rightarrow> (client_disconnect (s\<lparr>cl_mirror := m\<rparr>), False)
      | (m, True) \<Rightarrow>
          let m = prime_all (se_value i) m;
              s = s\<lparr>cl_mirror := m, cl_up := (cl_up s)\<lparr>up_subscribed := subscribe_all (se_subscribes i) m\<rparr>\<rparr>;
              s = (if \<not> mi_advertising m
                   then case start_advertising (base_name i) (ct_suffix (cl_target s)) (se_dash i) (se_adv_ok i) (cl_ble s) m of
                          (m, b) \<Rightarrow> s\<lparr>cl_mirror := m, cl_ble := b\<rparr>
                   else s\<lparr>cl_up := (cl_up s)\<lparr>up_reconnects := up_reconnects (cl_up s) + 1\<rparr>\<rparr>);
              s = (case se_late_drop i of None \<Rightarrow> s | Some r \<Rightarrow> up_on_disconnect r s)
          in (set_state Ready s, True))"

definition try_session :: "session_in \<Rightarrow> clone_sys \<Rightarrow> (clone_sys \<times> bool) option" where
  "try_session i s =
     (if \<not> up_client (cl_up s) \<and> \<not> se_create i then Some (s, False)
      else
        let s = s\<lparr>cl_up := (cl_up s)\<lparr>up_client := True\<rparr>\<rparr>; s = set_state Connecting s in
        case await_connect True (se_first i) s of
          (s, False) \<Rightarrow> Some (s, False)
        | (s, True) \<Rightarrow>
            let s = scan_resume (se_scan_ok i) s; s = set_state Discovering s in
            (case se_tree1 i of
               None \<Rightarrow> Some (client_disconnect s, False)
             | Some svcs \<Rightarrow>
                 if up_mirror_built (cl_up s) then Some (enter_session i svcs s)
                 else case build_mirror i svcs s of
                        None \<Rightarrow> None
                      | Some (Inl s) \<Rightarrow> Some (s, False)
                      | Some (Inr (s, svcs2)) \<Rightarrow> Some (enter_session i svcs2 s)))"

section \<open>The supervisor\<close>

record turn_in =
  tu_session :: session_in
  tu_writes :: "bool list"

text \<open>A turn of the task's loop, with the writes it sent upstream.\<close>

definition clone_turn :: "turn_in \<Rightarrow> clone_sys \<Rightarrow> (clone_sys \<times> write_request list) option" where
  "clone_turn i s =
     (let t = cl_target s in
      if \<not> ct_enabled t \<or> ct_address t = 0 then Some (set_state Disabled s, [])
      else
        let s = s\<lparr>cl_up := (cl_up s)\<lparr>up_address := ct_address t\<rparr>\<rparr> in
        if up_state (cl_up s) = Ready then
          (case drain_writes (tu_writes i) (cl_up s) of (u, sent) \<Rightarrow> Some (s\<lparr>cl_up := u\<rparr>, sent))
        else
          (case try_session (tu_session i) (set_state Scanning s) of
             None \<Rightarrow> None
           | Some (s, ok) \<Rightarrow>
               (case drain_writes (tu_writes i) (cl_up s) of
                  (u, sent) \<Rightarrow>
                    Some (s\<lparr>cl_up := u,
                            cl_backoff := (if ok then INITIAL_BACKOFF_MS
                                           else if cl_backoff s < MAX_BACKOFF_MS then cl_backoff s * 2 else MAX_BACKOFF_MS)\<rparr>,
                          sent))))"

section \<open>Writes arrive in order\<close>

datatype write_op = Op_enqueue "remote_ptr option" "u8 list" bool | Op_drain "bool list"

text \<open>Any interleaving of centrals that write and windows in which the queue is drained: the writes taken and the writes sent.\<close>

fun run_writes :: "write_op list \<Rightarrow> upstream \<Rightarrow> upstream \<times> write_request list \<times> write_request list" where
  "run_writes [] u = (u, [], [])"
| "run_writes (Op_enqueue c d rsp # ops) u =
     (let (u1, ok) = enqueue_write c d rsp u; (u2, taken, sent) = run_writes ops u1
      in (u2, (if ok then [\<lparr>wr_chr = the c, wr_data = d, wr_response = rsp\<rparr>] else []) @ taken, sent))"
| "run_writes (Op_drain oks # ops) u =
     (let (u1, s) = drain_writes oks u; (u2, taken, sent) = run_writes ops u1 in (u2, taken, s @ sent))"

definition write_ok :: "write_request \<Rightarrow> bool" where
  "write_ok r \<longleftrightarrow> wr_data r \<noteq> [] \<and> length (wr_data r) \<le> WRITE_DATA_BYTES"

definition queue_ok :: "upstream \<Rightarrow> bool" where
  "queue_ok u \<longleftrightarrow> (case up_queue u of Some q \<Rightarrow> length q \<le> WRITE_QUEUE_DEPTH \<and> list_all write_ok q | None \<Rightarrow> True)"

lemma enqueue_write_cases:
  assumes "enqueue_write c d rsp u = (u', ok)" "up_queue u = Some q"
  shows "ok \<and> (\<exists>p. c = Some p) \<and> length q < WRITE_QUEUE_DEPTH \<and> d \<noteq> [] \<and> length d \<le> WRITE_DATA_BYTES \<and>
      up_queue u' = Some (q @ [\<lparr>wr_chr = the c, wr_data = d, wr_response = rsp\<rparr>]) \<or>
    \<not> ok \<and> up_queue u' = Some q"
  using assms by (auto simp: enqueue_write_def split: option.splits if_splits)

lemma drain_writes_queue:
  "up_queue u = Some q \<Longrightarrow> \<exists>q'. up_queue (fst (drain_writes oks u)) = Some q' \<and> q = snd (drain_writes oks u) @ q'"
proof (induction oks arbitrary: u q)
  case (Cons ok oks)
  show ?case
  proof (cases q)
    case (Cons r q')
    define u1 where "u1 = (if ok then u\<lparr>up_queue := Some q', up_writes_drained := up_writes_drained u + 1\<rparr>
      else u\<lparr>up_queue := Some q', up_writes_dropped := up_writes_dropped u + 1\<rparr>)"
    have "up_queue u1 = Some q'" by (simp add: u1_def)
    from Cons.IH [OF this] obtain q2 where "up_queue (fst (drain_writes oks u1)) = Some q2" "q' = snd (drain_writes oks u1) @ q2" by blast
    moreover have "drain_writes (ok # oks) u = (fst (drain_writes oks u1), r # snd (drain_writes oks u1))"
      using Cons.prems \<open>q = r # q'\<close> by (simp add: u1_def case_prod_beta Let_def)
    ultimately show ?thesis using \<open>q = r # q'\<close> by simp
  qed (use Cons.prems in simp)
qed simp

text \<open>C27: However writes of centrals and the draining of the queue interleave, the writes sent to the peripheral followed by those
  still queued are exactly the writes taken, each once and in order; the queue never has more than eight, and each carries
  1 to 64 bytes.\<close>

theorem clone_writes_in_order:
  assumes "up_queue u = Some q" "length q \<le> WRITE_QUEUE_DEPTH" "list_all write_ok q"
    and "run_writes ops u = (u', taken, sent)"
  shows "\<exists>q'. up_queue u' = Some q' \<and> q @ taken = sent @ q' \<and> length q' \<le> WRITE_QUEUE_DEPTH \<and> list_all write_ok q'"
  using assms
proof (induction ops u arbitrary: q taken sent rule: run_writes.induct)
  case (2 c d rsp ops u)
  obtain u1 ok where e: "enqueue_write c d rsp u = (u1, ok)" by fastforce
  obtain t s where r: "run_writes ops u1 = (u', t, s)" and out: "taken = (if ok then [\<lparr>wr_chr = the c, wr_data = d, wr_response = rsp\<rparr>] else []) @ t" "sent = s"
    using "2.prems"(4) e by (auto simp: Let_def split: prod.splits)
  from enqueue_write_cases [OF e "2.prems"(1)] show ?case
  proof (elim disjE conjE)
    assume ok: "ok" and len: "length q < WRITE_QUEUE_DEPTH" and d: "d \<noteq> []" "length d \<le> WRITE_DATA_BYTES"
      and q: "up_queue u1 = Some (q @ [\<lparr>wr_chr = the c, wr_data = d, wr_response = rsp\<rparr>])"
    have "\<exists>q'. up_queue u' = Some q' \<and> (q @ [\<lparr>wr_chr = the c, wr_data = d, wr_response = rsp\<rparr>]) @ t = s @ q' \<and>
        length q' \<le> WRITE_QUEUE_DEPTH \<and> list_all write_ok q'"
      by (rule "2.IH" [OF e [symmetric] refl q _ _ r]) (use len d "2.prems"(3) in \<open>auto simp: write_ok_def\<close>)
    then show ?thesis using ok out by simp
  next
    assume no: "\<not> ok" and q: "up_queue u1 = Some q"
    from "2.IH" [OF e [symmetric] refl q "2.prems"(2,3) r] show ?thesis using no out by simp
  qed
next
  case (3 oks ops u)
  obtain u1 s1 where e: "drain_writes oks u = (u1, s1)" by fastforce
  obtain s where r: "run_writes ops u1 = (u', taken, s)" and out: "sent = s1 @ s"
    using "3.prems"(4) e by (auto simp: Let_def split: prod.splits)
  from drain_writes_queue [OF "3.prems"(1), of oks] e obtain q1 where q1: "up_queue u1 = Some q1" "q = s1 @ q1" by auto
  have "\<exists>q'. up_queue u' = Some q' \<and> q1 @ taken = s @ q' \<and> length q' \<le> WRITE_QUEUE_DEPTH \<and> list_all write_ok q'"
    by (rule "3.IH" [OF e [symmetric] refl q1(1) _ _ r]) (use "3.prems"(2,3) q1(2) in auto)
  then show ?case using q1(2) out by auto
qed auto

theorem clone_writes_in_order_witness:
  "\<exists>q'. up_queue (fst (run_writes [Op_enqueue (Some (1, ex_chr 10 1)) [7] True, Op_drain [True]] (upstream_init upstream_initial))) = Some q'"
proof -
  define ops where "ops = [Op_enqueue (Some (1, ex_chr 10 1)) [7] True, Op_drain [True]]"
  obtain u' taken sent where r: "run_writes ops (upstream_init upstream_initial) = (u', taken, sent)" by (metis prod_cases3)
  have "up_queue (upstream_init upstream_initial) = Some []" by (simp add: upstream_init_def upstream_initial_def)
  from clone_writes_in_order [OF this _ _ r] r show ?thesis by (auto simp: ops_def)
qed

section \<open>A session that succeeds\<close>

lemma prime_cache_keeps:
  "map mc_upstream (mi_chars (prime_cache h d m)) = map mc_upstream (mi_chars m)"
  "mi_built (prime_cache h d m) = mi_built m" "mi_mutex (prime_cache h d m) = mi_mutex m"
  "mi_advertising (prime_cache h d m) = mi_advertising m"
  by (auto simp: prime_cache_def cache_value_def map_update split: option.split dest!: find_idx_SomeD intro: list_update_same_conv [THEN iffD2])

lemma prime_fold_keeps:
  "map mc_upstream (mi_chars (fold (\<lambda>(up, h) m. if val up = [] then m else prime_cache h (val up) m) es m)) = map mc_upstream (mi_chars m)"
  "mi_built (fold (\<lambda>(up, h) m. if val up = [] then m else prime_cache h (val up) m) es m) = mi_built m"
  by (induction es arbitrary: m) (simp_all add: prime_cache_keeps split: prod.split)

lemma mirror_inv_prime_fold: "mirror_inv m \<Longrightarrow> mirror_inv (fold (\<lambda>(up, h) m. if val up = [] then m else prime_cache h (val up) m) es m)"
  by (induction es arbitrary: m) (auto intro: mirror_step_inv [OF step_prime] split: prod.split)

lemma mirror_inv_prime_all: "mirror_inv m \<Longrightarrow> mirror_inv (prime_all val m)"
  by (simp add: prime_all_def mirror_inv_prime_fold)

definition bound_to :: "nat \<Rightarrow> mirror \<Rightarrow> bool" where
  "bound_to gen m \<longleftrightarrow> list_all (\<lambda>p. case p of Some (g, c) \<Rightarrow> g = gen | None \<Rightarrow> True) (map mc_upstream (mi_chars m)) \<and>
     list_ex (\<lambda>p. p \<noteq> None) (map mc_upstream (mi_chars m))"

lemma rebind_bound:
  assumes "rebind_upstream (Some (gen, svcs)) m = (m', True)"
  shows "bound_to gen m' \<and> mi_built m'"
proof -
  from assms have b: "mi_built m" and c: "mi_chars m' = map (rebind_row gen svcs) (mi_chars m)" and ok: "list_ex (\<lambda>r. mc_upstream r \<noteq> None) (mi_chars m')"
    and b': "mi_built m'" by (auto simp: rebind_upstream_def Let_def split: if_splits)
  have "case mc_upstream (rebind_row gen svcs r) of Some (g, c) \<Rightarrow> g = gen | None \<Rightarrow> True" for r
    by (simp add: rebind_row_def split: option.split)
  with c ok b' show ?thesis by (simp add: bound_to_def list_all_iff list_ex_iff)
qed

lemma bound_to_prime: "bound_to gen (prime_all val m) = bound_to gen m" "mi_built (prime_all val m) = mi_built m"
  by (simp_all add: bound_to_def prime_all_def prime_fold_keeps)

lemma start_advertising_keeps:
  "mi_chars (fst (start_advertising base suffix dash ok b m)) = mi_chars m"
  "mi_built (fst (start_advertising base suffix dash ok b m)) = mi_built m"
  by (simp_all add: start_advertising_def Let_def)

text \<open>The invariant of the whole: the two flags agree, the mirror is consistent, the queue is bounded.\<close>

definition clone_inv :: "clone_sys \<Rightarrow> bool" where
  "clone_inv s \<longleftrightarrow> up_mirror_built (cl_up s) = mi_built (cl_mirror s) \<and> mirror_inv (cl_mirror s) \<and> queue_ok (cl_up s) \<and>
     cl_backoff s \<in> {1000, 2000, 4000, 8000, 16000, 32000, 30000}"

lemma await_connect_cases:
  assumes "await_connect abort i s = (s', ok)"
  shows "cl_mirror s' = cl_mirror s \<and> cl_target s' = cl_target s \<and> cl_ble s' = cl_ble s \<and> cl_backoff s' = cl_backoff s \<and>
    up_mirror_built (cl_up s') = up_mirror_built (cl_up s) \<and> up_queue (cl_up s') = up_queue (cl_up s) \<and>
    up_state (cl_up s') = up_state (cl_up s) \<and> (ok \<longrightarrow> up_link (cl_up s'))"
  using assms by (auto simp: await_connect_def client_disconnect_def Let_def split: if_splits connect_outcome.splits)

lemma enter_session_result:
  assumes "enter_session i svcs s = (s', ok)"
  shows "cl_target s' = cl_target s \<and> cl_backoff s' = cl_backoff s \<and> up_mirror_built (cl_up s') = up_mirror_built (cl_up s) \<and>
    up_queue (cl_up s') = up_queue (cl_up s) \<and> up_gen (cl_up s') = up_gen (cl_up s) \<and>
    mi_built (cl_mirror s') = mi_built (cl_mirror s) \<and> (mirror_inv (cl_mirror s) \<longrightarrow> mirror_inv (cl_mirror s')) \<and>
    (ok \<longrightarrow> up_state (cl_up s') = Ready) \<and> (\<not> ok \<longrightarrow> up_state (cl_up s') = up_state (cl_up s)) \<and>
    (ok \<and> se_late_drop i = None \<longrightarrow> up_link (cl_up s') = up_link (cl_up s) \<and> bound_to (up_gen (cl_up s')) (cl_mirror s') \<and>
       mi_built (cl_mirror s') \<and> up_subscribed (cl_up s') = subscribe_all (se_subscribes i) (cl_mirror s'))"
proof -
  obtain m r where rb: "rebind_upstream (Some (up_gen (cl_up s), svcs)) (cl_mirror s) = (m, r)" by fastforce
  have inv: "mirror_inv (cl_mirror s) \<Longrightarrow> mirror_inv m" using mirror_inv_rebind [of "cl_mirror s" "Some (up_gen (cl_up s), svcs)"] rb by simp
  have built: "mi_built m = mi_built (cl_mirror s)" using rb by (auto simp: rebind_upstream_def Let_def split: if_splits)
  define m1 where "m1 = prime_all (se_value i) m"
  have inv1: "mirror_inv (cl_mirror s) \<Longrightarrow> mirror_inv m1" using inv by (simp add: m1_def mirror_inv_prime_all)
  have sub: "subscribe_all ok (fst (start_advertising base suffix dash a b m1)) = subscribe_all ok m1" for ok base suffix dash a b
    by (simp add: subscribe_all_def for_each_subscribable_def start_advertising_def Let_def)
  have advinv: "mirror_inv m1 \<Longrightarrow> mirror_inv (fst (start_advertising base suffix dash a b m1))" for base suffix dash a b
    by (rule mirror_step_inv [OF step_adv])
  have dis: "mirror_inv x \<Longrightarrow> mirror_inv (disconnect_upstream x)" "mi_built (disconnect_upstream x) = mi_built x" for x
    by (rule mirror_step_inv [OF step_disconnect]) (simp_all add: disconnect_upstream_def)
  show ?thesis
  proof (cases r)
    case False
    then show ?thesis using assms rb inv built by (auto simp: enter_session_def client_disconnect_def)
  next
    case True
    have bm: "bound_to (up_gen (cl_up s)) m1" "mi_built m1" "mi_built m" using rebind_bound rb True by (auto simp: m1_def bound_to_prime)
    have bm': "bound_to g (fst (start_advertising base suffix dash a b m1)) = bound_to g m1" for g base suffix dash a b
      by (simp add: bound_to_def start_advertising_keeps)
    show ?thesis
    proof (cases "mi_advertising m1")
      case adv: True
      then show ?thesis using assms rb True built inv1 bm dis
        by (auto simp: enter_session_def m1_def [symmetric] Let_def set_state_def up_on_disconnect_def bound_to_prime split: option.splits)
    next
      case adv: False
      obtain m2 b2 where sa: "start_advertising (base_name i) (ct_suffix (cl_target s)) (se_dash i) (se_adv_ok i) (cl_ble s) m1 = (m2, b2)" by fastforce
      have m2: "mi_built m2" "bound_to (up_gen (cl_up s)) m2" "mirror_inv (cl_mirror s) \<Longrightarrow> mirror_inv m2" "subscribe_all ok m2 = subscribe_all ok m1" for ok
        using sa bm bm' start_advertising_keeps(2) advinv inv1 sub by (metis fst_conv)+
      show ?thesis using assms rb True built m2 bm dis adv sa
        by (auto simp: enter_session_def m1_def [symmetric] Let_def set_state_def up_on_disconnect_def split: option.splits)
    qed
  qed
qed

lemma build_from_unbuilt: "\<not> mi_built m \<Longrightarrow> mi_built (fst (build_from creates client m)) = False"
proof -
  have "mi_built (build_services creates gen svcs m) = mi_built m" for gen svcs m
    by (induction creates gen svcs m rule: build_services.induct) auto
  then show "\<not> mi_built m \<Longrightarrow> ?thesis" by (simp add: build_from_def Let_def split: option.split)
qed

lemma finalize_built: "finalize_server ok m = Some (m', r) \<Longrightarrow> mi_built m' = (mi_built m \<or> r) \<and> (mi_built m \<longrightarrow> m' = m)"
  by (auto simp: finalize_server_def split: if_splits option.splits)

lemmas session_helpers = client_disconnect_def scan_resume_def scan_pause_def set_state_def up_on_disconnect_def

lemma build_mirror_result:
  assumes "\<not> mi_built (cl_mirror s)" "\<not> up_mirror_built (cl_up s)" "build_mirror i svcs s = Some res"
    and "s' = (case res of Inl t \<Rightarrow> t | Inr (t, _) \<Rightarrow> t)"
  shows "cl_target s' = cl_target s \<and> cl_backoff s' = cl_backoff s \<and> up_queue (cl_up s') = up_queue (cl_up s) \<and>
    up_mirror_built (cl_up s') = mi_built (cl_mirror s') \<and> (mirror_inv (cl_mirror s) \<longrightarrow> mirror_inv (cl_mirror s')) \<and>
    (up_state (cl_up s) \<noteq> Ready \<longrightarrow> up_state (cl_up s') \<noteq> Ready) \<and> (case res of Inr _ \<Rightarrow> up_link (cl_up s') | Inl _ \<Rightarrow> True)"
proof -
  define m where "m = fst (build_from (se_creates i) (Some (up_gen (cl_up s), svcs)) (cl_mirror s))"
  have m: "\<not> mi_built m" "mirror_inv (cl_mirror s) \<Longrightarrow> mirror_inv m"
    using build_from_unbuilt [OF assms(1)] mirror_inv_built_rows by (simp_all add: m_def)
  have b: "build_from (se_creates i) (Some (up_gen (cl_up s), svcs)) (cl_mirror s) = (m, True)"
    using assms(1) by (simp add: m_def build_from_def)
  have d: "disconnect_upstream m = m" using m(1) by (simp add: disconnect_upstream_def)
  show ?thesis
  proof (cases "se_gone i")
    case None
    then show ?thesis using assms m b d by (auto simp: build_mirror_def session_helpers Let_def)
  next
    case (Some reason)
    define s1 where "s1 = up_on_disconnect reason (client_disconnect (scan_pause (s\<lparr>cl_mirror := m\<rparr>)))"
    have s1: "cl_mirror s1 = m" "cl_target s1 = cl_target s" "cl_backoff s1 = cl_backoff s" "up_queue (cl_up s1) = up_queue (cl_up s)"
        "up_mirror_built (cl_up s1) = up_mirror_built (cl_up s)" "up_state (cl_up s1) = Reconnecting"
      by (simp_all add: s1_def session_helpers d)
    have e1: "(scan_pause (s\<lparr>cl_mirror := m\<rparr>))\<lparr>cl_mirror := disconnect_upstream (cl_mirror (scan_pause (s\<lparr>cl_mirror := m\<rparr>)))\<rparr> =
        scan_pause (s\<lparr>cl_mirror := m\<rparr>)"
      by (simp add: scan_pause_def d)
    have bm: "build_mirror i svcs s = (case finalize_server (se_start_ok i) m of
          None \<Rightarrow> None
        | Some (m, False) \<Rightarrow> Some (Inl (scan_resume (se_scan_ok i) (s1\<lparr>cl_mirror := m\<rparr>)))
        | Some (m, True) \<Rightarrow>
            (case await_connect False (se_second i) (s1\<lparr>cl_mirror := m, cl_up := (cl_up s1)\<lparr>up_mirror_built := True\<rparr>\<rparr>) of
               (s, False) \<Rightarrow> Some (Inl s)
             | (s, True) \<Rightarrow> (case se_tree2 i of
                  None \<Rightarrow> Some (Inl (client_disconnect (scan_resume (se_scan_ok i) s)))
                | Some svcs2 \<Rightarrow> Some (Inr (scan_resume (se_scan_ok i) s, svcs2)))))"
      unfolding build_mirror_def b Let_def by (simp only: prod.case bool.case e1 Some option.case s1_def [symmetric] s1(1))
    obtain m2 r where f: "finalize_server (se_start_ok i) m = Some (m2, r)"
      using assms(3) bm by (cases "finalize_server (se_start_ok i) m") auto
    have m2: "mi_built m2 = r" "mirror_inv (cl_mirror s) \<Longrightarrow> mirror_inv m2"
      using finalize_built [OF f] m mirror_step_inv [OF step_finalize [OF f]] by auto
    show ?thesis
    proof (cases r)
      case False
      then show ?thesis using assms bm f m2 s1 by (auto simp: session_helpers)
    next
      case True
      obtain s2 ok where a: "await_connect False (se_second i) (s1\<lparr>cl_mirror := m2, cl_up := (cl_up s1)\<lparr>up_mirror_built := True\<rparr>\<rparr>) = (s2, ok)" by fastforce
      show ?thesis using assms bm f m2 s1 True a await_connect_cases [OF a]
        by (cases ok; cases "se_tree2 i") (auto simp: session_helpers)
    qed
  qed
qed

lemma try_session_result:
  assumes "try_session i s = Some (s', ok)" "clone_inv s"
  shows "clone_inv s' \<and> cl_target s' = cl_target s \<and> (ok \<longrightarrow> up_state (cl_up s') = Ready) \<and>
    (up_state (cl_up s) \<noteq> Ready \<and> \<not> ok \<longrightarrow> up_state (cl_up s') \<noteq> Ready) \<and>
    (ok \<and> se_late_drop i = None \<longrightarrow> up_link (cl_up s') \<and> bound_to (up_gen (cl_up s')) (cl_mirror s') \<and>
       up_subscribed (cl_up s') = subscribe_all (se_subscribes i) (cl_mirror s'))"
proof (cases "\<not> up_client (cl_up s) \<and> \<not> se_create i")
  case True
  then show ?thesis using assms by (auto simp: try_session_def)
next
  case client: False
  define s0 where "s0 = set_state Connecting (s\<lparr>cl_up := (cl_up s)\<lparr>up_client := True\<rparr>\<rparr>)"
  have i0: "clone_inv s0" "cl_target s0 = cl_target s" "up_state (cl_up s0) = Connecting"
    using assms(2) by (simp_all add: s0_def clone_inv_def set_state_def queue_ok_def)
  obtain s1 c where a: "await_connect True (se_first i) s0 = (s1, c)" by fastforce
  note ac = await_connect_cases [OF a]
  define s2 where "s2 = set_state Discovering (scan_resume (se_scan_ok i) s1)"
  have i1: "clone_inv s1" using i0 ac by (simp add: clone_inv_def queue_ok_def)
  then have i2: "clone_inv s2" "cl_target s2 = cl_target s" "up_state (cl_up s2) = Discovering" "c \<Longrightarrow> up_link (cl_up s2)"
    using ac i0 by (simp_all add: s2_def clone_inv_def session_helpers queue_ok_def)
  have cl: "(\<not> up_client (cl_up s) \<and> \<not> se_create i) = False" using client by simp
  have ts: "try_session i s = (if \<not> c then Some (s1, False) else case se_tree1 i of
        None \<Rightarrow> Some (client_disconnect s2, False)
      | Some svcs \<Rightarrow> if up_mirror_built (cl_up s2) then Some (enter_session i svcs s2)
          else case build_mirror i svcs s2 of None \<Rightarrow> None | Some (Inl s) \<Rightarrow> Some (s, False) | Some (Inr (s, svcs2)) \<Rightarrow> Some (enter_session i svcs2 s))"
    unfolding try_session_def cl if_False Let_def s0_def [symmetric] s2_def a by (cases c) simp_all
  show ?thesis
  proof (cases "c \<and> se_tree1 i \<noteq> None")
    case False
    then have "\<not> ok \<and> (s' = s1 \<or> s' = client_disconnect s2)" using assms(1) ts by (auto split: if_splits)
    moreover have "clone_inv (client_disconnect s2)" "cl_target (client_disconnect s2) = cl_target s"
        "up_state (cl_up (client_disconnect s2)) \<noteq> Ready"
      using i2 by (simp_all add: clone_inv_def client_disconnect_def queue_ok_def)
    moreover have "cl_target s1 = cl_target s" "up_state (cl_up s1) \<noteq> Ready" using ac i0 by simp_all
    ultimately show ?thesis using i1 by auto
  next
    case True
    then obtain svcs where c: "c" "se_tree1 i = Some svcs" by auto
    show ?thesis
    proof (cases "up_mirror_built (cl_up s2)")
      case built: True
      then have e: "enter_session i svcs s2 = (s', ok)" using assms(1) ts c by simp
      show ?thesis using enter_session_result [OF e] i2 c by (auto simp: clone_inv_def queue_ok_def)
    next
      case fresh: False
      then have nb: "\<not> mi_built (cl_mirror s2)" using i2(1) by (simp add: clone_inv_def)
      obtain res where r: "build_mirror i svcs s2 = Some res" using assms(1) ts c fresh by (cases "build_mirror i svcs s2") auto
      note br = build_mirror_result [OF nb fresh r refl]
      show ?thesis
      proof (cases res)
        case (Inl t)
        then show ?thesis using assms(1) ts c fresh r br i2 by (auto simp: clone_inv_def queue_ok_def)
      next
        case (Inr p)
        obtain t svcs2 where p: "p = (t, svcs2)" by fastforce
        have e: "enter_session i svcs2 t = (s', ok)" using assms(1) ts c fresh r Inr p by simp
        show ?thesis using enter_session_result [OF e] br i2 Inr p by (auto simp: clone_inv_def queue_ok_def)
      qed
    qed
  qed
qed

text \<open>C28: A session that ends well with the link still up leaves a system in order: the state is ready, every bound row points to
  an attribute of the present connection (never to one that the reconnect deleted), at least one row is bound, and the
  peripheral's notifications are subscribed for exactly the bound rows that can notify or indicate and whose
  subscription was not refused. A session that fails never leaves the state ready.\<close>

theorem session_binds_live:
  assumes "clone_inv s" "up_state (cl_up s) \<noteq> Ready" "try_session i s = Some (s', ok)" "se_late_drop i = None"
  shows "(up_state (cl_up s') = Ready) = ok \<and> clone_inv s' \<and>
    (ok \<longrightarrow> up_link (cl_up s') \<and> bound_to (up_gen (cl_up s')) (cl_mirror s') \<and>
      up_subscribed (cl_up s') = subscribe_all (se_subscribes i) (cl_mirror s'))"
  using try_session_result [OF assms(3,1)] assms(2,4) by auto

section \<open>The whole system\<close>

definition clone_initial :: "nvs_env \<Rightarrow> nvs \<Rightarrow> clone_sys" where
  "clone_initial ne n = \<lparr>cl_up = upstream_start upstream_initial, cl_mirror = mirror_initial, cl_ble = ble_initial,
     cl_target = config_load ne n, cl_backoff = INITIAL_BACKOFF_MS\<rparr>"

inductive clone_step :: "clone_sys \<Rightarrow> clone_sys \<Rightarrow> bool" where
  cs_turn: "clone_turn i s = Some (s', sent) \<Longrightarrow> clone_step s s'"
| cs_notify: "clone_step s (fst (up_on_notify chr data s))"
| cs_disconnect: "clone_step s (up_on_disconnect reason s)"
| cs_write: "clone_step s (central_writes i data s)"
| cs_read: "clone_step s (s\<lparr>cl_mirror := char_on_read (cl_mirror s)\<rparr>)"
| cs_central: "clone_step s (s\<lparr>cl_mirror := fst (server_on_connect allowed active (cl_mirror s))\<rparr>)"
| cs_central_gone: "clone_step s (s\<lparr>cl_mirror := fst (server_on_disconnect allowed active (cl_mirror s))\<rparr>)"
| cs_config: "config_set ne t (cl_target s, n) = ((t', n'), ok) \<Longrightarrow> clone_step s (s\<lparr>cl_target := t'\<rparr>)"
| cs_radio: "clone_step s (s\<lparr>cl_ble := b\<rparr>)"

inductive clone_reachable :: "nvs_env \<Rightarrow> nvs \<Rightarrow> clone_sys \<Rightarrow> bool" for ne n where
  cr_start: "clone_reachable ne n (clone_initial ne n)"
| cr_step: "clone_reachable ne n s \<Longrightarrow> clone_step s s' \<Longrightarrow> clone_reachable ne n s'"

lemma queue_ok_drain: "queue_ok u \<Longrightarrow> queue_ok (fst (drain_writes oks u))"
proof (cases "up_queue u")
  case None
  then have "drain_writes oks u = (u, [])" by (cases oks) simp_all
  then show "queue_ok u \<Longrightarrow> ?thesis" by simp
next
  case (Some q)
  assume ok: "queue_ok u"
  from drain_writes_queue [OF Some, of oks] obtain q' where "up_queue (fst (drain_writes oks u)) = Some q'" "q = snd (drain_writes oks u) @ q'"
    by blast
  then show ?thesis using ok Some by (simp add: queue_ok_def)
qed

lemma drain_writes_keeps: "up_mirror_built (fst (drain_writes oks u)) = up_mirror_built u" "up_state (fst (drain_writes oks u)) = up_state u"
    "up_gen (fst (drain_writes oks u)) = up_gen u" "up_link (fst (drain_writes oks u)) = up_link u"
  by (induction oks u rule: drain_writes.induct) (auto simp: Let_def split: option.splits list.splits prod.splits)

lemma queue_ok_enqueue: "queue_ok u \<Longrightarrow> queue_ok (fst (enqueue_write c d rsp u))"
  by (auto simp: enqueue_write_def queue_ok_def write_ok_def split: option.splits)

lemma clone_turn_inv:
  assumes "clone_turn i s = Some (s', sent)" "clone_inv s"
  shows "clone_inv s'"
proof (cases "\<not> ct_enabled (cl_target s) \<or> ct_address (cl_target s) = 0")
  case True
  then show ?thesis using assms by (auto simp: clone_turn_def set_state_def clone_inv_def queue_ok_def)
next
  case on: False
  define s0 where "s0 = s\<lparr>cl_up := (cl_up s)\<lparr>up_address := ct_address (cl_target s)\<rparr>\<rparr>"
  have i0: "clone_inv s0" using assms(2) by (simp add: s0_def clone_inv_def queue_ok_def)
  have drained: "clone_inv (t\<lparr>cl_up := fst (drain_writes oks (cl_up t)), cl_backoff := b\<rparr>)"
    if "clone_inv t" "b \<in> {1000, 2000, 4000, 8000, 16000, 32000, 30000}" for t oks b
    using that by (simp add: clone_inv_def queue_ok_drain drain_writes_keeps)
  show ?thesis
  proof (cases "up_state (cl_up s0) = Ready")
    case True
    then have "s' = s0\<lparr>cl_up := fst (drain_writes (tu_writes i) (cl_up s0)), cl_backoff := cl_backoff s0\<rparr>"
      using assms(1) on by (auto simp: clone_turn_def s0_def Let_def split: prod.splits)
    moreover have "cl_backoff s0 \<in> {1000, 2000, 4000, 8000, 16000, 32000, 30000}" using i0 by (simp only: clone_inv_def)
    ultimately show ?thesis by (simp only: drained [OF i0])
  next
    case False
    then obtain s1 ok where t: "try_session (tu_session i) (set_state Scanning s0) = Some (s1, ok)"
      and s': "s' = s1\<lparr>cl_up := fst (drain_writes (tu_writes i) (cl_up s1)),
          cl_backoff := (if ok then INITIAL_BACKOFF_MS else if cl_backoff s1 < MAX_BACKOFF_MS then cl_backoff s1 * 2 else MAX_BACKOFF_MS)\<rparr>"
      using assms(1) on by (auto simp: clone_turn_def s0_def [symmetric] Let_def split: prod.splits option.splits)
    have "clone_inv (set_state Scanning s0)" using i0 by (simp add: set_state_def clone_inv_def queue_ok_def)
    from try_session_result [OF t this] have i1: "clone_inv s1" by simp
    then have "(if ok then INITIAL_BACKOFF_MS else if cl_backoff s1 < MAX_BACKOFF_MS then cl_backoff s1 * 2 else MAX_BACKOFF_MS)
        \<in> {1000, 2000, 4000, 8000, 16000, 32000, 30000}"
      by (auto simp: clone_inv_def INITIAL_BACKOFF_MS_def MAX_BACKOFF_MS_def)
    then show ?thesis unfolding s' by (rule drained [OF i1])
  qed
qed

lemma disconnect_upstream_keeps: "mi_built (disconnect_upstream m) = mi_built m"
  by (simp add: disconnect_upstream_def)

lemma mirror_notify_built: "mi_built (fst (mirror_notify h d m)) = mi_built m"
  by (auto simp: mirror_notify_def split: option.split)

lemma char_on_write_built: "mi_built (char_write_done q (fst (char_on_write i d m))) = mi_built m" "mi_built (fst (char_on_write i d m)) = mi_built m"
  by (auto simp: char_on_write_def char_write_done_def Let_def)

lemma mirror_inv_write: "mirror_inv m \<Longrightarrow> mirror_inv (fst (char_on_write i d m))"
  using mirror_step_inv [OF step_write, of m False] by (simp add: char_write_done_def)

lemma clone_step_inv: "clone_step s s' \<Longrightarrow> clone_inv s \<Longrightarrow> clone_inv s'"
proof (induction rule: clone_step.induct)
  case (cs_turn i s s' sent)
  then show ?case by (rule clone_turn_inv)
next
  case (cs_notify s chr data)
  have "mirror_inv (fst (mirror_notify h data (cl_mirror s)))" for h
    by (rule mirror_step_inv [OF step_notify]) (use cs_notify in \<open>simp add: clone_inv_def\<close>)
  then show ?case using cs_notify mirror_notify_built
    by (auto simp: up_on_notify_def clone_inv_def queue_ok_def Let_def case_prod_beta split: option.splits)
next
  case (cs_disconnect s reason)
  have "mirror_inv (disconnect_upstream (cl_mirror s))"
    by (rule mirror_step_inv [OF step_disconnect]) (use cs_disconnect in \<open>simp add: clone_inv_def\<close>)
  then show ?case using cs_disconnect by (simp add: up_on_disconnect_def clone_inv_def queue_ok_def disconnect_upstream_keeps)
next
  case (cs_write s i data)
  obtain m w where w: "char_on_write i data (cl_mirror s) = (m, w)" by fastforce
  have m: "mirror_inv m" "mi_built m = mi_built (cl_mirror s)" "mirror_inv (char_write_done q m)" for q
    using mirror_inv_write [of "cl_mirror s" i data] char_on_write_built(2) [of i data "cl_mirror s"]
      mirror_step_inv [OF step_write, of "cl_mirror s" q i data] cs_write w by (simp_all add: clone_inv_def)
  have b: "mi_built (char_write_done q m) = mi_built m" for q by (simp add: char_write_done_def)
  have e: "up_mirror_built (fst (enqueue_write c d r (cl_up s))) = up_mirror_built (cl_up s)" for c d r
    by (auto simp: enqueue_write_def split: option.split)
  show ?case
  proof (cases w)
    case None
    then show ?thesis using cs_write w m by (simp add: central_writes_def clone_inv_def)
  next
    case (Some x)
    obtain up d rsp where x: "x = (up, d, rsp)" by (metis prod_cases3)
    show ?thesis using cs_write w m b e queue_ok_enqueue [of "cl_up s" "Some up" d rsp]
      by (simp add: central_writes_def Some x clone_inv_def case_prod_beta)
  qed
next
  case (cs_read s)
  then show ?case using mirror_step_inv [OF step_read] by (simp add: clone_inv_def) (simp add: char_on_read_def)
next
  case (cs_central s allowed active)
  then show ?case using mirror_step_inv [OF step_connected] by (simp add: clone_inv_def) (simp add: server_on_connect_def)
next
  case (cs_central_gone s allowed active)
  then show ?case using mirror_step_inv [OF step_gone] by (simp add: clone_inv_def) (simp add: server_on_disconnect_def)
qed (simp_all add: clone_inv_def)



section \<open>Sessions by example\<close>

lemma clone_inv_initial: "clone_inv (clone_initial ne n)"
  by (simp add: clone_initial_def clone_inv_def upstream_start_def upstream_init_def upstream_initial_def queue_ok_def
      mirror_inv_initial INITIAL_BACKOFF_MS_def) (simp add: mirror_initial_def)

definition ex_session :: session_in where
  "ex_session = \<lparr>se_create = True, se_first = \<lparr>ci_issued = True, ci_outcome = Connected_with 247\<rparr>,
     se_tree1 = Some [ex_svc [ex_chr 10 1]], se_creates = (\<lambda>_. True), se_gone = Some 22, se_start_ok = True,
     se_second = \<lparr>ci_issued = True, ci_outcome = Connected_with 247\<rparr>, se_tree2 = Some [ex_svc [ex_chr 10 1]],
     se_value = (\<lambda>_. [1]), se_subscribes = (\<lambda>_. True), se_name = ''lamp'', se_late_drop = None, se_dash = None,
     se_adv_ok = True, se_scan_ok = True\<rparr>"

definition ex_sys :: clone_sys where
  "ex_sys = (clone_initial good_nvs (\<lambda>_ _. None))\<lparr>cl_target := \<lparr>ct_address = 1, ct_type = 0, ct_enabled = True, ct_suffix = ''_cloned''\<rparr>\<rparr>"

lemma ex_session_runs: "map_option snd (try_session ex_session ex_sys) = Some True"
  by code_simp

theorem session_binds_live_witness:
  "case try_session ex_session ex_sys of Some (s', ok) \<Rightarrow> up_state (cl_up s') = Ready \<and> up_link (cl_up s') | None \<Rightarrow> False"
proof -
  from ex_session_runs obtain s' where r: "try_session ex_session ex_sys = Some (s', True)"
    by (cases "try_session ex_session ex_sys") auto
  have "clone_inv ex_sys" using clone_inv_initial [of good_nvs "\<lambda>_ _. None"] by (simp add: ex_sys_def clone_inv_def)
  moreover have "up_state (cl_up ex_sys) \<noteq> Ready" by (simp add: ex_sys_def clone_initial_def upstream_start_def upstream_init_def upstream_initial_def)
  moreover have "se_late_drop ex_session = None" by (simp add: ex_session_def)
  ultimately show ?thesis using session_binds_live [OF _ _ r] r by simp
qed

text \<open>When the link drops while the values are read, the callback's state is overwritten by the session's last assignment: the
  session is reported as a success with no link, and no later turn tries to connect.\<close>

fun run_turns :: "turn_in list \<Rightarrow> clone_sys \<Rightarrow> clone_sys option" where
  "run_turns [] s = Some s"
| "run_turns (i # is) s = (case clone_turn i s of None \<Rightarrow> None | Some (s', _) \<Rightarrow> run_turns is s')"

lemma enter_session_late_drop:
  "enter_session i svcs s = (s', True) \<Longrightarrow> se_late_drop i = Some r \<Longrightarrow> up_state (cl_up s') = Ready \<and> \<not> up_link (cl_up s')"
  by (auto simp: enter_session_def set_state_def up_on_disconnect_def Let_def split: prod.splits bool.splits)

lemma try_session_enters:
  "try_session i s = Some (s', True) \<Longrightarrow> \<exists>t svcs. enter_session i svcs t = (s', True)"
  by (auto simp: try_session_def Let_def split: if_splits prod.splits bool.splits option.splits sum.splits)

lemma run_turns_ready:
  "ct_enabled (cl_target s) \<Longrightarrow> ct_address (cl_target s) \<noteq> 0 \<Longrightarrow> up_state (cl_up s) = Ready \<Longrightarrow>
   \<exists>s'. run_turns is s = Some s' \<and> up_state (cl_up s') = Ready \<and> up_link (cl_up s') = up_link (cl_up s) \<and> up_gen (cl_up s') = up_gen (cl_up s)"
proof (induction "is" arbitrary: s)
  case (Cons i "is")
  define s1 where "s1 = s\<lparr>cl_up := fst (drain_writes (tu_writes i) ((cl_up s)\<lparr>up_address := ct_address (cl_target s)\<rparr>))\<rparr>"
  have "clone_turn i s = Some (s1, snd (drain_writes (tu_writes i) ((cl_up s)\<lparr>up_address := ct_address (cl_target s)\<rparr>)))"
    using Cons.prems by (simp add: clone_turn_def s1_def Let_def case_prod_beta)
  moreover have "ct_enabled (cl_target s1)" "ct_address (cl_target s1) \<noteq> 0" "up_state (cl_up s1) = Ready"
      "up_link (cl_up s1) = up_link (cl_up s)" "up_gen (cl_up s1) = up_gen (cl_up s)"
    using Cons.prems by (simp_all add: s1_def drain_writes_keeps)
  ultimately show ?case using Cons.IH [of s1] by auto
qed simp

theorem late_drop_is_lost:
  assumes "clone_inv s" "try_session i s = Some (s', True)" "se_late_drop i = Some r" "ct_enabled (cl_target s)" "ct_address (cl_target s) \<noteq> 0"
  shows "\<exists>t. run_turns turns s' = Some t \<and> up_state (cl_up t) = Ready \<and> \<not> up_link (cl_up t) \<and> up_gen (cl_up t) = up_gen (cl_up s')"
proof -
  obtain t svcs where "enter_session i svcs t = (s', True)" using try_session_enters [OF assms(2)] by blast
  note e = enter_session_late_drop [OF this assms(3)]
  have "cl_target s' = cl_target s" using try_session_result [OF assms(2,1)] by simp
  with run_turns_ready [of s' turns] e assms(4,5) show ?thesis by auto
qed

text \<open>A write that waits in the queue when the link drops is sent, after the next connect has deleted the attribute objects, to the
  object it was queued for.\<close>

theorem stale_write_sent:
  assumes "ct_enabled (cl_target s)" "ct_address (cl_target s) \<noteq> 0" "up_state (cl_up s) \<noteq> Ready" "up_client (cl_up s)"
    and "up_queue (cl_up s) = Some (r # q)" "fst (wr_chr r) \<le> up_gen (cl_up s)"
    and "se_first (tu_session i) = \<lparr>ci_issued = True, ci_outcome = Failed_with e\<rparr>" "tu_writes i = [ok]"
  shows "\<exists>s'. clone_turn i s = Some (s', [r]) \<and> fst (wr_chr r) < up_gen (cl_up s')"
  using assms by (simp add: clone_turn_def try_session_def await_connect_def set_state_def Let_def)

text \<open>When the second connect of the building session fails, the scan that was paused for it stays paused.\<close>

theorem scan_left_paused:
  "let i = ex_session\<lparr>se_second := \<lparr>ci_issued = True, ci_outcome = Timed_out\<rparr>\<rparr>;
       s = ex_sys\<lparr>cl_ble := (cl_ble ex_sys)\<lparr>bb_scanner := (bb_scanner (cl_ble ex_sys))\<lparr>sc_present := True, sc_scanning := True\<rparr>\<rparr>\<rparr>
   in map_option (\<lambda>(s', ok). (ok, sc_scanning (bb_scanner (cl_ble s')))) (try_session i s) = Some (False, False)"
  by code_simp

end
