(* ===== verification/Clone.thy ===== *)
theory Clone
  imports Clone_Upstream Stats_Settings
begin

text \<open>
  The web side of the clone feature, \<^verbatim>\<open>components/ble_clone/clone.cpp\<close>: addresses as text, the status reply, and the request
  that changes the target (and the pairing passkey, which the settings component keeps).
\<close>

section \<open>Addresses as text\<close>

definition xdigit_value :: "char \<Rightarrow> nat" where
  "xdigit_value c = (let n = of_char c in if 48 \<le> n \<and> n \<le> 57 then n - 48 else if 97 \<le> n \<and> n \<le> 102 then n - 97 + 10 else n - 65 + 10)"

fun parse_mac_loop :: "string \<Rightarrow> u64 \<Rightarrow> nat \<Rightarrow> (u64 \<times> nat) option" where
  "parse_mac_loop [] acc hex_seen = Some (acc, hex_seen)"
| "parse_mac_loop (c # cs) acc hex_seen =
     (if c = CHR '':'' \<or> c = CHR ''-'' then parse_mac_loop cs acc hex_seen
      else if \<not> is_xdigit c then None
      else parse_mac_loop cs (push_bit 4 acc OR of_nat (xdigit_value c)) (hex_seen + 1))"

definition parse_mac :: "string \<Rightarrow> u64 option" where
  "parse_mac s = (case parse_mac_loop s 0 0 of Some (acc, n) \<Rightarrow> if n = 12 then Some acc else None | None \<Rightarrow> None)"

definition mac_byte :: "u64 \<Rightarrow> nat \<Rightarrow> u8" where
  "mac_byte addr k = ucast (drop_bit (8 * k) addr AND 0xFF)"

definition fmt_mac :: "u64 \<Rightarrow> string" where
  "fmt_mac addr =
     snprintf_text 20 (hex_byte_lower (mac_byte addr 5) @ '':'' @ hex_byte_lower (mac_byte addr 4) @ '':'' @
       hex_byte_lower (mac_byte addr 3) @ '':'' @ hex_byte_lower (mac_byte addr 2) @ '':'' @
       hex_byte_lower (mac_byte addr 1) @ '':'' @ hex_byte_lower (mac_byte addr 0))"

fun state_name :: "up_state \<Rightarrow> string" where
  "state_name Disabled = ''Disabled''"
| "state_name Idle = ''Idle''"
| "state_name Scanning = ''Scanning''"
| "state_name Connecting = ''Connecting''"
| "state_name Discovering = ''Discovering''"
| "state_name Ready = ''Ready''"
| "state_name Reconnecting = ''Reconnecting''"

section \<open>Status\<close>

definition bool_text :: "bool \<Rightarrow> string" where
  "bool_text b = (if b then ''true'' else ''false'')"

text \<open>\<open>%06lu\<close>.\<close>

definition pad6 :: "nat \<Rightarrow> string" where
  "pad6 n = replicate (6 - length (show_nat n)) (CHR ''0'') @ show_nat n"

definition clone_json_text :: "clone_sys \<Rightarrow> string" where
  "clone_json_text s =
     (let t = cl_target s; us = cl_up s; ms = mirror_stats_of (cl_mirror s)
      in ''{\"enabled\":'' @ bool_text (ct_enabled t) @ '',\"addr\":\"'' @ fmt_mac (ct_address t) @ ''\",\"type\":'' @ show_nat (unat (ct_type t)) @
         '',\"name_suffix\":\"'' @ ct_suffix t @ ''\",\"passkey\":'' @ pad6 (unat (cp_passkey (bb_pool (cl_ble s)))) @
         '',\"state\":\"'' @ state_name (up_state us) @ ''\",\"mtu\":'' @ show_nat (unat (up_mtu us)) @
         '',\"reconnects\":'' @ show_nat (unat (up_reconnects us)) @ '',\"last_disconnect_reason\":'' @ show_nat (unat (up_last_disconnect_reason us)) @
         '',\"notifies_in\":'' @ show_nat (unat (up_notifies_seen us)) @ '',\"notifies_out\":'' @ show_nat (unat (ms_notifies_out ms)) @
         '',\"writes_drained\":'' @ show_nat (unat (up_writes_drained us)) @ '',\"writes_dropped\":'' @ show_nat (unat (up_writes_dropped us)) @
         '',\"services\":'' @ show_nat (unat (ms_services ms)) @ '',\"characteristics\":'' @ show_nat (unat (ms_characteristics ms)) @
         '',\"connected_centrals\":'' @ show_nat (unat (ms_connected_centrals ms)) @ '',\"advertising\":'' @ bool_text (ms_advertising ms) @ ''}'')"

definition build_clone_json :: "nat \<Rightarrow> clone_sys \<Rightarrow> string" where
  "build_clone_json cap s = snprintf_text cap (clone_json_text s)"

section \<open>Changing the target\<close>

text \<open>The clone's state beside the settings' state. The radio is one object: \<open>radio_stats\<close> is the settings' state with the radio
  as it is, and \<open>put_stats\<close> stores a new state with its radio for both.\<close>

record clone_app =
  ca_sys :: clone_sys
  ca_stats :: stats_state

definition radio_stats :: "clone_app \<Rightarrow> stats_state" where
  "radio_stats a = (ca_stats a)\<lparr>st_ble := cl_ble (ca_sys a)\<rparr>"

definition put_stats :: "stats_state \<Rightarrow> clone_app \<Rightarrow> clone_app" where
  "put_stats st a = a\<lparr>ca_stats := st, ca_sys := (ca_sys a)\<lparr>cl_ble := st_ble st\<rparr>\<rparr>"

text \<open>The parameters up to the name suffix: the new target and whether the address changed, or an error. Nothing is
  written yet.\<close>

definition clone_params :: "query \<Rightarrow> clone_target \<Rightarrow> string + clone_target \<times> bool" where
  "clone_params kv prev =
     (case (case kv ''addr'' 32 of
              None \<Rightarrow> Inr (prev, False)
            | Some v \<Rightarrow> (case parse_mac v of
                 None \<Rightarrow> Inl ''addr must be AA:BB:CC:DD:EE:FF''
               | Some a \<Rightarrow> Inr (prev\<lparr>ct_address := a\<rparr>, a \<noteq> ct_address prev))) of
        Inl e \<Rightarrow> Inl e
      | Inr (nxt, changed) \<Rightarrow>
          (case (case kv ''type'' 32 of
                   None \<Rightarrow> Inr nxt
                 | Some v \<Rightarrow> let t = c_atoi v in
                     if t < 0 \<or> t > 3 then Inl ''type must be 0..3'' else Inr (nxt\<lparr>ct_type := word_of_int t\<rparr>)) of
             Inl e \<Rightarrow> Inl e
           | Inr nxt \<Rightarrow>
               let nxt = (case kv ''enabled'' 32 of
                            None \<Rightarrow> nxt
                          | Some v \<Rightarrow> nxt\<lparr>ct_enabled := (v \<noteq> [] \<and> hd v \<in> {CHR ''1'', CHR ''t'', CHR ''T''})\<rparr>);
                   nxt = (case kv ''name_suffix'' 32 of None \<Rightarrow> nxt | Some v \<Rightarrow> nxt\<lparr>ct_suffix := suffix_copy v\<rparr>)
               in Inr (nxt, changed)))"

definition clone_passkey :: "stats_env \<Rightarrow> query \<Rightarrow> stats_state \<Rightarrow> setter" where
  "clone_passkey env kv st =
     (case kv ''passkey'' 32 of
        None \<Rightarrow> (st, None)
      | Some v \<Rightarrow> let pin = c_atoi v in
          if pin < 0 \<or> pin > 999999 then (st, Some ''passkey must be 0..999999'') else stats_set_passkey env (word_of_int pin) st)"

text \<open>The result: an error, or whether a reboot is required.\<close>

definition handle_clone_set :: "stats_env \<Rightarrow> query option \<Rightarrow> clone_app \<Rightarrow> clone_app \<times> (string + bool)" where
  "handle_clone_set env query a =
     (case query of
        None \<Rightarrow> (a, Inl ''missing query'')
      | Some kv \<Rightarrow>
          (case clone_params kv (cl_target (ca_sys a)) of
             Inl e \<Rightarrow> (a, Inl e)
           | Inr (nxt, changed) \<Rightarrow>
               (case clone_passkey env kv (radio_stats a) of
                  (st, Some e) \<Rightarrow> (put_stats st a, Inl e)
                | (st, None) \<Rightarrow>
                    (case config_set (se_nvs env) nxt (cl_target (ca_sys a), st_nvs st) of
                       ((t, n), False) \<Rightarrow> (put_stats (st\<lparr>st_nvs := n\<rparr>) a, Inl ''nvs write failed'')
                     | ((t, n), True) \<Rightarrow>
                         (put_stats (st\<lparr>st_nvs := n\<rparr>) (a\<lparr>ca_sys := (ca_sys a)\<lparr>cl_target := t\<rparr>\<rparr>),
                          Inr (changed \<and> ms_services (mirror_stats_of (cl_mirror (ca_sys a))) > 0))))))"

definition clone_get :: "clone_app \<Rightarrow> http_resp" where
  "clone_get a = Http_ok ''application/json'' (build_clone_json 384 (ca_sys a))"

definition clone_post :: "stats_env \<Rightarrow> (nat \<Rightarrow> query option) \<Rightarrow> clone_app \<Rightarrow> clone_app \<times> http_resp" where
  "clone_post env get_query a =
     (case get_query 160 of
        None \<Rightarrow> (a, Http_error 400 ''missing query'')
      | Some kv \<Rightarrow>
          (case handle_clone_set env (Some kv) a of
             (a, Inl e) \<Rightarrow> (a, Http_error 400 e)
           | (a, Inr reboot) \<Rightarrow> (a, Http_ok ''application/json'' (snprintf_text 64 (''{\"ok\":true,\"reboot_required\":'' @ bool_text reboot @ ''}'')))))"

definition clone_init :: "clone_sys \<Rightarrow> clone_sys" where
  "clone_init s = s\<lparr>cl_up := upstream_start (upstream_init (cl_up s))\<rparr>"

section \<open>Properties\<close>

unbundle bit_operations_syntax

lemma hex_lower_digit:
  assumes "d < 16"
  shows "xdigit_value (hex_lower d) = d" "is_xdigit (hex_lower d)" "hex_lower d \<noteq> CHR '':''" "hex_lower d \<noteq> CHR ''-''"
proof -
  have "list_all (\<lambda>d. xdigit_value (hex_lower d) = d \<and> is_xdigit (hex_lower d) \<and> hex_lower d \<noteq> CHR '':'' \<and> hex_lower d \<noteq> CHR ''-'') [0..<16]"
    by (simp add: upt_rec hex_lower_def xdigit_value_def is_xdigit_def)
  with assms show "xdigit_value (hex_lower d) = d" "is_xdigit (hex_lower d)" "hex_lower d \<noteq> CHR '':''" "hex_lower d \<noteq> CHR ''-''"
    by (auto simp: list_all_iff)
qed

lemma byte_nibbles: "push_bit 4 (push_bit 4 acc OR of_nat (unat b div 16)) OR of_nat (unat b mod 16) = (push_bit 8 acc OR ucast b :: u64)"
  for b :: u8
proof -
  have lt: "unat b < 256" "unat b div 16 < 18446744073709551616" "unat b < 18446744073709551616" using unsigned_less [of b, where ?'a = nat] by simp_all
  have hi: "(of_nat (unat b div 16) :: u64) = ucast (drop_bit 4 b)"
    by (rule word_unat_eq_iff [THEN iffD2])
       (simp add: unsigned_ucast_eq unsigned_drop_bit_eq drop_bit_eq_div [where ?'a = nat] unat_of_nat take_bit_eq_mod lt)
  have lo: "(of_nat (unat b mod 16) :: u64) = ucast (take_bit 4 b)"
    by (rule word_unat_eq_iff [THEN iffD2]) (simp add: unsigned_ucast_eq unsigned_take_bit_eq unat_of_nat take_bit_eq_mod [where ?'a = nat] lt)
  show ?thesis unfolding hi lo
    by (rule bit_word_eqI) (auto simp: bit_simps)
qed

lemma parse_mac_byte:
  "parse_mac_loop (hex_byte_lower b @ r) acc k = parse_mac_loop r (push_bit 8 acc OR ucast b) (k + 2)"
proof -
  have "unat b div 16 < 16" "unat b mod 16 < 16" using unsigned_less [of b, where ?'a = nat] by auto
  note d = hex_lower_digit [OF this(1)] hex_lower_digit [OF this(2)]
  show ?thesis unfolding hex_byte_lower_def byte_nibbles [symmetric] by (simp add: d)
qed

lemma parse_mac_colon: "parse_mac_loop ('':'' @ r) acc k = parse_mac_loop r acc k"
  by simp

lemma join_low_byte: "push_bit 8 (drop_bit (8 + k) x) OR take_bit 8 (drop_bit k x) = drop_bit k (x :: u64)"
  by (rule bit_word_eqI) (auto simp: bit_simps)

lemma mac_byte_cast: "k < 6 \<Longrightarrow> (ucast (mac_byte a k) :: u64) = take_bit 8 (drop_bit (8 * k) (take_bit 48 a))"
proof -
  have m: "(0xFF :: u64) = mask 8" by (simp add: mask_eq_exp_minus_1)
  show "k < 6 \<Longrightarrow> ?thesis" unfolding mac_byte_def m take_bit_eq_mask [symmetric]
    by (rule bit_word_eqI) (auto simp: bit_simps)
qed

lemma mac_top_byte: "take_bit 8 (drop_bit 40 (take_bit 48 a)) = drop_bit 40 (take_bit 48 (a :: u64))"
  by (rule bit_word_eqI) (auto simp: bit_simps)

lemma parse_fmt_mac: "parse_mac (fmt_mac a) = Some (take_bit 48 a)"
proof -
  define x where "x = take_bit 48 a"
  have "length (hex_byte_lower b) = 2" for b by (simp add: hex_byte_lower_def)
  then have f: "fmt_mac a = hex_byte_lower (mac_byte a 5) @ '':'' @ hex_byte_lower (mac_byte a 4) @ '':'' @ hex_byte_lower (mac_byte a 3) @ '':'' @
      hex_byte_lower (mac_byte a 2) @ '':'' @ hex_byte_lower (mac_byte a 1) @ '':'' @ hex_byte_lower (mac_byte a 0) @ []"
    by (simp add: fmt_mac_def snprintf_text_def)
  have b: "ucast (mac_byte a 5) = drop_bit 40 x" "ucast (mac_byte a 4) = take_bit 8 (drop_bit 32 x)" "ucast (mac_byte a 3) = take_bit 8 (drop_bit 24 x)"
      "ucast (mac_byte a 2) = take_bit 8 (drop_bit 16 x)" "ucast (mac_byte a 1) = take_bit 8 (drop_bit 8 x)" "ucast (mac_byte a 0) = take_bit 8 (drop_bit 0 x)"
    using mac_byte_cast [of 5 a] mac_byte_cast [of 4 a] mac_byte_cast [of 3 a] mac_byte_cast [of 2 a] mac_byte_cast [of 1 a] mac_byte_cast [of 0 a]
    by (simp_all add: x_def mac_top_byte)
  note j = join_low_byte [of 32 x] join_low_byte [of 24 x] join_low_byte [of 16 x] join_low_byte [of 8 x] join_low_byte [of 0 x]
  have "parse_mac_loop (fmt_mac a) 0 0 = Some (x, 12)"
    unfolding f parse_mac_byte parse_mac_colon b push_bit_of_0 or.left_neutral using j by simp
  then show ?thesis by (simp add: parse_mac_def x_def)
qed

lemma config_load_other: "ns \<noteq> CLONE_NS \<Longrightarrow> config_load ne (nvs_put ns k v n) = config_load ne n"
  by (simp add: config_load_def get_u8_def get_u64_def get_str_def nvs_read_def)

lemma clone_passkey_store:
  assumes "nvs_works (se_nvs env)" "clone_passkey env kv st0 = (st, e)"
  shows "(e \<noteq> None \<longrightarrow> st = st0) \<and> (st_nvs st = st_nvs st0 \<or> (\<exists>v. st_nvs st = nvs_put NVS_NS ''ble_passkey'' v (st_nvs st0)))"
  using assms by (auto simp: clone_passkey_def stats_set_passkey_def Let_def split: option.splits if_splits)

lemma NVS_NS_CLONE: "NVS_NS \<noteq> CLONE_NS" "CLONE_NS \<noteq> NVS_NS"
  by (simp_all add: NVS_NS_def CLONE_NS_def)

lemma clone_set_persists:
  assumes "nvs_works (se_nvs env)" "length (ct_suffix (cl_target (ca_sys a))) \<le> 15"
    and "handle_clone_set env query a = (a', r)"
    and "config_load (se_nvs env) (st_nvs (ca_stats a)) = cl_target (ca_sys a)"
  shows "config_load (se_nvs env) (st_nvs (ca_stats a')) = cl_target (ca_sys a') \<and> length (ct_suffix (cl_target (ca_sys a'))) \<le> 15 \<and>
    (case r of Inl e \<Rightarrow> cl_target (ca_sys a') = cl_target (ca_sys a) | Inr _ \<Rightarrow> True) \<and>
    parse_mac (fmt_mac (ct_address (cl_target (ca_sys a')))) = Some (take_bit 48 (ct_address (cl_target (ca_sys a'))))"
proof (cases query)
  case None
  then show ?thesis using assms by (auto simp: handle_clone_set_def parse_fmt_mac)
next
  case (Some kv)
  show ?thesis
  proof (cases "clone_params kv (cl_target (ca_sys a))")
    case (Inl e)
    then show ?thesis using Some assms by (auto simp: handle_clone_set_def parse_fmt_mac)
  next
    case (Inr p)
    obtain nxt changed where p: "p = (nxt, changed)" by fastforce
    have suffix: "length (ct_suffix nxt) \<le> 15"
      using Inr p assms(2)
      by (auto simp: clone_params_def suffix_copy_def Let_def split: option.splits sum.splits prod.splits if_splits)
    obtain st e where k: "clone_passkey env kv (radio_stats a) = (st, e)" by fastforce
    have key: "config_load (se_nvs env) (st_nvs st) = config_load (se_nvs env) (st_nvs (ca_stats a))" "e \<noteq> None \<Longrightarrow> st = radio_stats a"
      using clone_passkey_store [OF assms(1) k] by (auto simp: radio_stats_def config_load_other NVS_NS_CLONE)
    show ?thesis
    proof (cases e)
      case None
      from config_set_load [OF assms(1) suffix, of "cl_target (ca_sys a)" "st_nvs st"] show ?thesis
        using Some Inr p k None assms(3) suffix
        by (auto simp: handle_clone_set_def put_stats_def parse_fmt_mac split: prod.splits bool.splits)
    next
      case (Some err)
      then show ?thesis using \<open>query = Some kv\<close> Inr p k key assms
        by (auto simp: handle_clone_set_def put_stats_def parse_fmt_mac radio_stats_def)
    qed
  qed
qed

text \<open>The clone's target survives: an accepted request stores exactly the target it puts in force, so a reboot loads the same one, and
  the text of the address in the reply is read back as the same 48-bit address. A refused request leaves the target in force
  and the stored one as they were.\<close>

theorem clone_target_persists:
  assumes "nvs_works (se_nvs env)" "length (ct_suffix (cl_target (ca_sys a))) \<le> 15"
    and "handle_clone_set env query a = (a', r)"
    and "config_load (se_nvs env) (st_nvs (ca_stats a)) = cl_target (ca_sys a)"
  shows "config_load (se_nvs env) (st_nvs (ca_stats a')) = cl_target (ca_sys a') \<and> length (ct_suffix (cl_target (ca_sys a'))) \<le> 15 \<and>
    (case r of Inl e \<Rightarrow> cl_target (ca_sys a') = cl_target (ca_sys a) | Inr _ \<Rightarrow> True) \<and>
    parse_mac (fmt_mac (ct_address (cl_target (ca_sys a')))) = Some (take_bit 48 (ct_address (cl_target (ca_sys a'))))"
  using clone_set_persists [OF assms] .

text \<open>A passkey below 100000 is printed with leading zeros, which JSON numbers do not allow.\<close>

theorem passkey_leading_zero:
  assumes "n < 100000"
  shows "hd (pad6 n) = CHR ''0'' \<and> length (pad6 n) = 6"
proof -
  have "length (show_nat n) \<le> 5" using length_show_nat [of n 5] assms by simp
  then show ?thesis by (cases "6 - length (show_nat n)") (auto simp: pad6_def)
qed

theorem clone_target_persists_witness:
  "\<exists>a' r. handle_clone_set good_env (Some (\<lambda>k n. if k = ''enabled'' then Some ''1'' else None))
       \<lparr>ca_sys = clone_initial good_nvs (\<lambda>_ _. None), ca_stats = stats_initial (\<lambda>_ _. None)\<rparr> = (a', r) \<and>
     config_load good_nvs (st_nvs (ca_stats a')) = cl_target (ca_sys a')"
proof -
  define a where "a = \<lparr>ca_sys = clone_initial good_nvs (\<lambda>_ _. None), ca_stats = stats_initial (\<lambda>_ _. None)\<rparr>"
  obtain a' r where r: "handle_clone_set good_env (Some (\<lambda>k n. if k = ''enabled'' then Some ''1'' else None)) a = (a', r)" by fastforce
  have "nvs_works (se_nvs good_env)" "se_nvs good_env = good_nvs" by (simp_all add: good_env_def good_nvs_works)
  moreover have "length (ct_suffix (cl_target (ca_sys a))) \<le> 15" by (simp add: a_def clone_initial_def config_load_suffix)
  moreover have "config_load good_nvs (st_nvs (ca_stats a)) = cl_target (ca_sys a)"
    by (simp add: a_def clone_initial_def stats_initial_def)
  ultimately show ?thesis using clone_target_persists [OF _ _ r] r by (auto simp: a_def)
qed

end
