(* ===== verification/Dhcps_Hostname.thy ===== *)
theory Dhcps_Hostname
  imports Interfaces
begin

text \<open>
  Host names of the access point's stations, \<^verbatim>\<open>components/dhcps_hostname/dhcps_hostname.c\<close>: the host-name option of a DHCP
  message, made printable, and a table of eight names by hardware address with a round-robin victim. The DHCP server calls
  the hook with the message it received; the message is its option field (its first four bytes are the magic cookie) and
  the client's hardware address.
\<close>

definition DHCP_OPT_HOST_NAME :: u8 where "DHCP_OPT_HOST_NAME = 12"
definition DHCP_OPT_END :: u8 where "DHCP_OPT_END = 255"
definition DHCP_OPT_PAD :: u8 where "DHCP_OPT_PAD = 0"
definition HN_NAME_MAX :: nat where "HN_NAME_MAX = 32"
definition HN_SLOTS :: nat where "HN_SLOTS = 8"

text \<open>The characters of the name: at most \<open>n\<close> of the option's bytes, up to the first zero, unprintable ones replaced.\<close>

definition printable :: "u8 \<Rightarrow> char" where
  "printable c = (if c \<ge> 0x20 \<and> c < 0x7F then char_of (unat c) else CHR ''?'')"

definition copy_name :: "nat \<Rightarrow> u8 list \<Rightarrow> string" where
  "copy_name n bs = map printable (takeWhile (\<lambda>c. c \<noteq> 0) (take n bs))"

text \<open>The walk over the options; \<open>opt\<close> is what is left of the field.\<close>

function walk_options :: "nat \<Rightarrow> u8 list \<Rightarrow> string option" where
  "walk_options cap [] = None"
| "walk_options cap (code # opt) =
     (if code = DHCP_OPT_END then None
      else if code = DHCP_OPT_PAD then walk_options cap opt
      else case opt of
             [] \<Rightarrow> None
           | olen # rest \<Rightarrow>
               if unat olen > length rest then None
               else if code = DHCP_OPT_HOST_NAME \<and> olen > 0 then
                 (let name = copy_name (if unat olen < cap - 1 then unat olen else cap - 1) (take (unat olen) rest)
                  in if name = [] then None else Some name)
               else walk_options cap (drop (unat olen) rest))"
  by pat_completeness auto
termination by (relation "measure (\<lambda>(_, opt). length opt)") auto

definition extract_hostname :: "nat \<Rightarrow> u8 list \<Rightarrow> string option" where
  "extract_hostname cap options = (if cap = 0 then None else walk_options cap (drop 4 options))"

section \<open>The table\<close>

record hn_entry =
  hn_mac :: "u8 list"
  hn_used :: bool
  hn_name :: string

record hn_table =
  hn_tbl :: "hn_entry list"
  hn_next :: nat

definition hn_initial :: hn_table where
  "hn_initial = \<lparr>hn_tbl = replicate HN_SLOTS \<lparr>hn_mac = replicate 6 0, hn_used = False, hn_name = []\<rparr>, hn_next = 0\<rparr>"

definition hn_find :: "u8 list \<Rightarrow> hn_table \<Rightarrow> nat option" where
  "hn_find mac t = keyed_find hn_used hn_mac (hn_tbl t) mac"

definition hn_record :: "u8 list \<Rightarrow> string \<Rightarrow> hn_table \<Rightarrow> hn_table" where
  "hn_record mac name t =
     (let (slot, t) = (case hn_find mac t of
            Some i \<Rightarrow> (i, t)
          | None \<Rightarrow> (case find_idx (\<lambda>e. \<not> hn_used e) (hn_tbl t) of
              Some i \<Rightarrow> (i, t)
            | None \<Rightarrow> (hn_next t, t\<lparr>hn_next := (hn_next t + 1) mod HN_SLOTS\<rparr>)))
      in t\<lparr>hn_tbl := (hn_tbl t)[slot := \<lparr>hn_mac = mac, hn_used = True, hn_name = take (HN_NAME_MAX - 1) name\<rparr>]\<rparr>)"

text \<open>The hook: the state is returned unchanged to the DHCP server.\<close>

definition dhcps_post_state :: "(u8 list \<times> u8 list) option \<Rightarrow> int \<Rightarrow> hn_table \<Rightarrow> hn_table \<times> int" where
  "dhcps_post_state msg state t =
     (case msg of
        None \<Rightarrow> (t, state)
      | Some (options, chaddr) \<Rightarrow>
          (case extract_hostname HN_NAME_MAX options of
             Some name \<Rightarrow> (hn_record (take 6 chaddr) name t, state)
           | None \<Rightarrow> (t, state)))"

text \<open>The lookup: the text written to \<open>out\<close> and whether a name was found.\<close>

definition dhcps_hostname_lookup :: "u8 list \<Rightarrow> nat \<Rightarrow> hn_table \<Rightarrow> string \<times> bool" where
  "dhcps_hostname_lookup mac cap t =
     (case hn_find mac t of
        None \<Rightarrow> ([], False)
      | Some i \<Rightarrow> (take (cap - 1) (hn_name (hn_tbl t ! i)), hn_name (hn_tbl t ! i) \<noteq> []))"

section \<open>Extraction\<close>

definition printable_name :: "string \<Rightarrow> bool" where
  "printable_name s \<longleftrightarrow> s \<noteq> [] \<and> length s < HN_NAME_MAX \<and> list_all (\<lambda>c. 0x20 \<le> (of_char c :: nat) \<and> (of_char c :: nat) < 0x7F) s"

lemma printable_range: "0x20 \<le> (of_char (printable c) :: nat) \<and> (of_char (printable c) :: nat) < 0x7F"
  by (auto simp: printable_def word_le_nat_alt word_less_nat_alt)

lemma copy_name_length: "length (copy_name n bs) \<le> n"
  by (auto simp: copy_name_def intro: order_trans [OF length_takeWhile_le])

lemma walk_options_sound: "walk_options cap opt = Some name \<Longrightarrow> 0 < cap \<Longrightarrow>
  name \<noteq> [] \<and> length name < cap \<and> list_all (\<lambda>c. 0x20 \<le> (of_char c :: nat) \<and> (of_char c :: nat) < 0x7F) name"
proof (induction cap opt rule: walk_options.induct)
  case (2 cap code opt)
  have len: "n < cap \<Longrightarrow> length (copy_name n bs) < cap" for n bs by (rule order.strict_trans1 [OF copy_name_length])
  have pr: "list_all (\<lambda>c. 0x20 \<le> (of_char c :: nat) \<and> (of_char c :: nat) < 0x7F) (copy_name n bs)" for n bs
    using printable_range by (auto simp: copy_name_def list_all_iff)
  show ?case using 2 by (auto simp: Let_def pr intro!: len split: if_splits list.splits)
qed simp

text \<open>A message with other well-formed options, then the host name, whatever follows.\<close>

fun options_bytes :: "(u8 \<times> u8 list) list \<Rightarrow> u8 list" where
  "options_bytes [] = []"
| "options_bytes ((code, bs) # os) = code # of_nat (length bs) # bs @ options_bytes os"

definition plain_option :: "u8 \<times> u8 list \<Rightarrow> bool" where
  "plain_option o1 \<longleftrightarrow> fst o1 \<notin> {DHCP_OPT_END, DHCP_OPT_PAD, DHCP_OPT_HOST_NAME} \<and> length (snd o1) < 256"

lemma walk_options_skip:
  "list_all plain_option os \<Longrightarrow> walk_options cap (options_bytes os @ rest) = walk_options cap rest"
proof (induction os)
  case (Cons o1 os)
  obtain code bs where o1: "o1 = (code, bs)" by fastforce
  have "unat (of_nat (length bs) :: u8) = length bs" using Cons.prems o1 by (simp add: plain_option_def unat_of_nat)
  then show ?case using Cons by (simp add: o1 plain_option_def)
qed simp

lemma walk_options_name:
  assumes "name \<noteq> []" "length name < 256" "0 < cap" "hd name \<noteq> 0" "1 < cap"
  shows "walk_options cap (DHCP_OPT_HOST_NAME # of_nat (length name) # name @ rest) = Some (copy_name (min (length name) (cap - 1)) name)"
proof -
  have l: "unat (of_nat (length name) :: u8) = length name" using assms(2) by (simp add: unat_of_nat)
  have p: "(of_nat (length name) :: u8) > 0" using assms(1) l by (metis length_0_conv unat_0 word_gt_0)
  have "copy_name (min (length name) (cap - 1)) name \<noteq> []"
    using assms by (cases name; cases "min (length name) (cap - 1)") (auto simp: copy_name_def)
  moreover have "(if length name < cap - 1 then length name else cap - 1) = min (length name) (cap - 1)" by auto
  moreover have "DHCP_OPT_HOST_NAME \<noteq> DHCP_OPT_END" "DHCP_OPT_HOST_NAME \<noteq> DHCP_OPT_PAD"
    by (simp_all add: DHCP_OPT_HOST_NAME_def DHCP_OPT_END_def DHCP_OPT_PAD_def)
  moreover have "take (length name) (name @ rest) = name" by simp
  moreover have "\<not> length name > length (name @ rest)" by simp
  ultimately show ?thesis using p by (simp only: walk_options.simps list.case l Let_def if_False if_True simp_thms)
qed

section \<open>The table keeps its promise\<close>

definition hn_ok :: "hn_table \<Rightarrow> bool" where
  "hn_ok t \<longleftrightarrow> length (hn_tbl t) = HN_SLOTS \<and> hn_next t < HN_SLOTS \<and> keyed_ok hn_used hn_mac (hn_tbl t)"

definition hn_lookup :: "hn_table \<Rightarrow> u8 list \<Rightarrow> string option" where
  "hn_lookup t mac = map_option hn_name (keyed_get hn_used hn_mac (hn_tbl t) mac)"

definition hn_put :: "u8 list \<Rightarrow> string \<Rightarrow> hn_table \<Rightarrow> hn_table option" where
  "hn_put mac name t = (if printable_name name then Some (hn_record mac name t) else None)"

text \<open>The slot a name is written to.\<close>

lemma hn_record_slot:
  assumes "hn_ok t"
  obtains i nxt where
    "hn_record mac name t = \<lparr>hn_tbl = (hn_tbl t)[i := \<lparr>hn_mac = mac, hn_used = True, hn_name = take 31 name\<rparr>], hn_next = nxt\<rparr>"
    "i < length (hn_tbl t)" "nxt < HN_SLOTS" "hn_find mac t = None \<or> hn_find mac t = Some i"
proof (cases "keyed_slot hn_used hn_mac (hn_tbl t) mac")
  case (Some i)
  have "hn_record mac name t = \<lparr>hn_tbl = (hn_tbl t)[i := \<lparr>hn_mac = mac, hn_used = True, hn_name = take 31 name\<rparr>], hn_next = hn_next t\<rparr>"
    using Some by (auto simp: hn_record_def hn_find_def keyed_slot_def HN_NAME_MAX_def split: option.splits)
  then show ?thesis using that keyed_slotD [OF _ Some] assms by (simp add: hn_ok_def hn_find_def)
next
  case None
  then have n: "hn_find mac t = None" "find_idx (\<lambda>e. \<not> hn_used e) (hn_tbl t) = None"
    by (auto simp: keyed_slot_def hn_find_def split: option.splits)
  show ?thesis
    by (rule that [of "hn_next t" "(hn_next t + 1) mod HN_SLOTS"])
       (use n assms in \<open>simp_all add: hn_record_def hn_ok_def HN_SLOTS_def HN_NAME_MAX_def\<close>)
qed

interpretation hn: registry hn_ok hn_lookup hn_put
proof
  fix t mac name t' assume ok: "hn_ok t" and p: "hn_put mac name t = Some t'"
  have short: "take 31 name = name" and t': "t' = hn_record mac name t"
    using p by (auto simp: hn_put_def printable_name_def HN_NAME_MAX_def split: if_splits)
  obtain i nxt where r: "t' = \<lparr>hn_tbl = (hn_tbl t)[i := \<lparr>hn_mac = mac, hn_used = True, hn_name = name\<rparr>], hn_next = nxt\<rparr>"
    and i: "i < length (hn_tbl t)" and n: "nxt < HN_SLOTS"
    and f: "keyed_find hn_used hn_mac (hn_tbl t) mac = None \<or> keyed_find hn_used hn_mac (hn_tbl t) mac = Some i"
    using hn_record_slot [OF ok, of mac name thesis] short t' by (auto simp: hn_find_def)
  define y where "y = \<lparr>hn_mac = mac, hn_used = True, hn_name = name\<rparr>"
  have k: "keyed_ok hn_used hn_mac (hn_tbl t)" using ok by (simp add: hn_ok_def)
  have f': "keyed_find hn_used hn_mac (hn_tbl t) (hn_mac y) = None \<or> keyed_find hn_used hn_mac (hn_tbl t) (hn_mac y) = Some i"
    using f by (simp add: y_def)
  note put = keyed_put [OF k i f']
  show "hn_ok t'" using put(1) ok n by (simp add: hn_ok_def r y_def)
  show "hn_lookup t' mac = Some name" using put(3) by (simp add: hn_lookup_def r y_def)
  fix mac' assume m: "mac' \<noteq> mac"
  show "hn_lookup t' mac' = hn_lookup t mac' \<or> hn_lookup t' mac' = None"
    using put(2) [of mac'] m by (simp add: hn_lookup_def r y_def)
  assume "hn_lookup t mac \<noteq> None"
  then have "hn_mac (hn_tbl t ! i) = mac" using f by (auto simp: hn_lookup_def keyed_get_def keyed_find_Some [OF k, THEN iffD1])
  then show "hn_lookup t' mac' = hn_lookup t mac'" using put(2) [of mac'] m by (simp add: hn_lookup_def r y_def)
qed

section \<open>Messages\<close>

text \<open>What the messages name: hardware address and extracted name, in order.\<close>

definition dhcps_run :: "(u8 list \<times> u8 list) list \<Rightarrow> hn_table \<Rightarrow> hn_table" where
  "dhcps_run msgs t = fold (\<lambda>m t. fst (dhcps_post_state (Some m) 0 t)) msgs t"

definition names_of :: "(u8 list \<times> u8 list) list \<Rightarrow> (u8 list \<times> string) list" where
  "names_of msgs = concat (map (\<lambda>(options, chaddr). case extract_hostname HN_NAME_MAX options of Some name \<Rightarrow> [(take 6 chaddr, name)] | None \<Rightarrow> []) msgs)"

lemma extract_printable: "extract_hostname HN_NAME_MAX options = Some name \<Longrightarrow> printable_name name"
  using walk_options_sound [of HN_NAME_MAX "drop 4 options" name]
  by (simp add: extract_hostname_def printable_name_def HN_NAME_MAX_def)

lemma dhcps_run_put: "dhcps_run msgs t = hn.put_all (names_of msgs) t"
proof (induction msgs arbitrary: t)
  case (Cons m msgs)
  obtain options chaddr where m: "m = (options, chaddr)" by fastforce
  have r: "dhcps_run ((options, chaddr) # msgs) t = dhcps_run msgs (fst (dhcps_post_state (Some (options, chaddr)) 0 t))"
    by (simp add: dhcps_run_def)
  show ?case
  proof (cases "extract_hostname HN_NAME_MAX options")
    case None
    then show ?thesis unfolding m r Cons.IH by (simp add: names_of_def dhcps_post_state_def)
  next
    case (Some name)
    then have "hn_put (take 6 chaddr) name t = Some (hn_record (take 6 chaddr) name t)"
      by (simp add: hn_put_def extract_printable)
    with Some show ?thesis unfolding m r Cons.IH by (simp add: names_of_def dhcps_post_state_def)
  qed
qed (simp add: dhcps_run_def names_of_def)

lemma hn_initial_ok: "hn_ok hn_initial"
  by (auto simp: hn_ok_def hn_initial_def keyed_ok_def HN_SLOTS_def)

lemma hn_initial_lookup: "hn_lookup hn_initial mac = None"
  by (simp add: hn_lookup_def hn_initial_def keyed_get_None)

lemma lookup_by_registry:
  "dhcps_hostname_lookup mac cap t = (case hn_lookup t mac of None \<Rightarrow> ([], False) | Some name \<Rightarrow> (take (cap - 1) name, name \<noteq> []))"
  by (simp add: dhcps_hostname_lookup_def hn_lookup_def hn_find_def keyed_get_def split: option.split)

text \<open>Whatever messages were served: a name that the lookup finds is the printable, bounded name of one of the messages of
  that hardware address.\<close>

lemma names_only:
  assumes "dhcps_hostname_lookup mac HN_NAME_MAX (dhcps_run msgs hn_initial) = (name, found)"
  shows "if found then (mac, name) \<in> set (names_of msgs) \<and> printable_name name else name = []"
proof (cases "hn_lookup (dhcps_run msgs hn_initial) mac")
  case (Some n)
  have n: "(mac, n) \<in> set (names_of msgs)"
    using hn.put_all_lookup [OF hn_initial_ok, of "names_of msgs" mac n] Some by (simp add: dhcps_run_put hn_initial_lookup)
  then have "printable_name n" by (auto simp: names_of_def split: option.splits intro: extract_printable [OF sym])
  then show ?thesis using n Some assms by (auto simp: lookup_by_registry printable_name_def HN_NAME_MAX_def)
qed (use assms in \<open>simp add: lookup_by_registry\<close>)

lemma copy_name_min: "copy_name (min (length name) n) name = copy_name n name"
  by (simp add: copy_name_def min_def)

lemma extract_name:
  assumes "length cookie = 4" "list_all plain_option os" "name \<noteq> []" "length name < 256" "hd name \<noteq> 0"
  shows "extract_hostname HN_NAME_MAX (cookie @ options_bytes os @ DHCP_OPT_HOST_NAME # of_nat (length name) # name @ rest) = Some (copy_name 31 name)"
proof -
  have "walk_options 32 (DHCP_OPT_HOST_NAME # of_nat (length name) # name @ rest) = Some (copy_name 31 name)"
    using walk_options_name [of name 32 rest] assms by (simp add: copy_name_min del: walk_options.simps)
  then show ?thesis using assms(1) walk_options_skip [OF assms(2), of 32]
    by (simp add: extract_hostname_def HN_NAME_MAX_def del: walk_options.simps)
qed

text \<open>The access point's names: after any messages, a message with well-formed options and a host name makes
  the lookup for its sender return that name, its first 31 bytes up to a zero with unprintable ones replaced, and leaves the
  server's state as it was. A name that a lookup finds for any address, then or before, is printable, fits the table's 32 bytes
  and came in a message of that address.\<close>

theorem hostname_captured:
  assumes "length cookie = 4" "list_all plain_option os" "name \<noteq> []" "length name < 256" "hd name \<noteq> 0"
    and m_def: "m = (cookie @ options_bytes os @ DHCP_OPT_HOST_NAME # of_nat (length name) # name @ rest, chaddr)"
  shows "dhcps_hostname_lookup (take 6 chaddr) HN_NAME_MAX (fst (dhcps_post_state (Some m) st (dhcps_run msgs hn_initial))) = (copy_name 31 name, True) \<and>
    snd (dhcps_post_state (Some m) st (dhcps_run msgs hn_initial)) = st \<and>
    (case dhcps_hostname_lookup mac HN_NAME_MAX (dhcps_run (msgs @ [m]) hn_initial) of
       (n, found) \<Rightarrow> if found then (mac, n) \<in> set (names_of (msgs @ [m])) \<and> printable_name n else n = [])"
proof -
  have e: "extract_hostname HN_NAME_MAX (fst m) = Some (copy_name 31 name)"
    unfolding m_def fst_conv by (rule extract_name [OF assms(1,2,3,4,5)])
  have p: "printable_name (copy_name 31 name)" by (rule extract_printable [OF e])
  have s: "dhcps_post_state (Some m) st t = (hn_record (take 6 chaddr) (copy_name 31 name) t, st)" for t
    using e by (simp add: dhcps_post_state_def m_def)
  have ok: "hn_ok (dhcps_run msgs hn_initial)" unfolding dhcps_run_put by (rule hn.put_all_ok [OF hn_initial_ok])
  have "hn_lookup (hn_record (take 6 chaddr) (copy_name 31 name) (dhcps_run msgs hn_initial)) (take 6 chaddr) = Some (copy_name 31 name)"
    by (rule hn.put_same [OF ok]) (simp add: hn_put_def p)
  then have "dhcps_hostname_lookup (take 6 chaddr) HN_NAME_MAX (fst (dhcps_post_state (Some m) st (dhcps_run msgs hn_initial))) = (copy_name 31 name, True)"
    using p by (simp add: s lookup_by_registry printable_name_def HN_NAME_MAX_def)
  then show ?thesis using names_only [of mac "msgs @ [m]"] by (auto simp: s split: prod.split)
qed

theorem hostname_captured_witness:
  "dhcps_hostname_lookup [1, 2, 3, 4, 5, 6] HN_NAME_MAX
     (fst (dhcps_post_state (Some ([99, 130, 83, 99] @ options_bytes [(53, [1])] @ DHCP_OPT_HOST_NAME # of_nat (length [97, 7 :: u8]) # [97, 7] @ [255], [1, 2, 3, 4, 5, 6, 0]))
       5 (dhcps_run [] hn_initial))) = (copy_name 31 [97, 7], True)"
  using hostname_captured [of "[99, 130, 83, 99]" "[(53, [1])]" "[97, 7]" _ "[255]" "[1, 2, 3, 4, 5, 6, 0]" 5 "[]", OF _ _ _ _ _ refl]
  by (simp add: plain_option_def DHCP_OPT_HOST_NAME_def DHCP_OPT_END_def DHCP_OPT_PAD_def)

end
