(* ===== verification/Nat_Router.thy ===== *)
theory Nat_Router
  imports Dhcps_Hostname Nvs Httpd
begin

text \<open>
  The travel router, \<^verbatim>\<open>components/nat_router/nat_router.cpp\<close>: an access point beside the station link, its credentials and
  on/off switch, the port-forwarding rules, their persistence, the web handlers and the throughput counters. Calls into the
  platform (the Wi-Fi driver, lwIP's address translation, the interface's DHCP server) are recorded in order in
  \<open>nr_calls\<close>; what the platform answers is \<open>nat_env\<close>. The build options are the repository's defaults: 16 rules, 4 clients,
  gateway 192.168.4.1, throughput counting and software coexistence on.
\<close>

unbundle bit_operations_syntax

definition NAT_NS :: string where "NAT_NS = ''nat''"
definition PROTO_TCP :: u8 where "PROTO_TCP = 6"
definition PROTO_UDP :: u8 where "PROTO_UDP = 17"
definition PORTMAP_MAX :: nat where "PORTMAP_MAX = 16"
definition AP_MAX_CONN :: nat where "AP_MAX_CONN = 4"
definition AP_SSID :: string where "AP_SSID = ''nimble-nat''"
definition AP_PASSWORD :: string where "AP_PASSWORD = ''nimble-proxy''"

text \<open>Addresses are in network byte order on a little-endian machine: the first octet is the low byte.\<close>

definition AP_IP :: u32 where "AP_IP = 0x0104A8C0"
definition AP_NETMASK :: u32 where "AP_NETMASK = 0x00FFFFFF"

record portmap_entry =
  pm_proto :: u8
  pm_valid :: u8
  pm_mport :: u16
  pm_dport :: u16
  pm_pad :: u16
  pm_daddr :: u32

record ap_config =
  ac_ssid :: string
  ac_ssid_len :: u8
  ac_channel :: u8
  ac_max_connection :: nat
  ac_password :: string
  ac_wpa2 :: bool

datatype nat_call =
    Portmap_add u8 u32 u16 u32 u16
  | Portmap_remove u8 u16
  | Create_ap
  | Dhcps_stop
  | Dhcps_start
  | Set_ap_ip u32 u32 u32
  | Set_dns u32
  | Offer_dns
  | Set_mode_apsta
  | Set_mode_sta
  | Coex_prefer_wifi
  | Coex_balance
  | Set_config ap_config
  | Task_delay nat
  | Napt_enable
  | Napt_disable

record nat_state =
  nr_portmap :: "portmap_entry list"
  nr_ap :: bool
  nr_sta_ip :: u32
  nr_ssid :: string
  nr_psk :: string
  nr_enabled :: bool
  nr_ota_resume :: bool
  nr_net_host :: u32
  nr_mask_host :: u32
  nr_down_bytes :: u64
  nr_up_bytes :: u64
  nr_nvs :: nvs
  nr_calls :: "nat_call list"

text \<open>What the platform answers: the station's channel, its resolver and address when they are known, whether the interface is
  up at the n-th poll, whether the n-th attempt to enable translation succeeds, the stations, their leases, and the
  interface's address.\<close>

record nat_env =
  ve_channel :: u8
  ve_sta_dns :: "u32 option"
  ve_sta_ip :: "u32 option"
  ve_netif_up :: "nat \<Rightarrow> bool"
  ve_napt_ok :: "nat \<Rightarrow> bool"
  ve_ap_ip :: u32
  ve_stations :: "(u8 list \<times> int) list"
  ve_leases :: "(u8 list \<times> u32) list"
  ve_names :: hn_table

definition call :: "nat_call \<Rightarrow> nat_state \<Rightarrow> nat_state" where
  "call c s = s\<lparr>nr_calls := nr_calls s @ [c]\<rparr>"

definition calls :: "nat_call list \<Rightarrow> nat_state \<Rightarrow> nat_state" where
  "calls cs s = s\<lparr>nr_calls := nr_calls s @ cs\<rparr>"

section \<open>Persistence\<close>

definition octet :: "u32 \<Rightarrow> nat \<Rightarrow> nat" where
  "octet net k = unat (drop_bit (8 * k) net AND 0xFF)"

definition ip_to_str :: "u32 \<Rightarrow> string" where
  "ip_to_str net = snprintf_text 16 (show_nat (octet net 0) @ ''.'' @ show_nat (octet net 1) @ ''.'' @ show_nat (octet net 2) @ ''.'' @ show_nat (octet net 3))"

definition entry_valid :: "portmap_entry \<Rightarrow> bool" where
  "entry_valid e \<longleftrightarrow> pm_valid e \<noteq> 0"

definition count_valid :: "nat_state \<Rightarrow> nat" where
  "count_valid s = length (filter entry_valid (nr_portmap s))"

definition load_ap_creds :: "nvs_env \<Rightarrow> nat_state \<Rightarrow> nat_state" where
  "load_ap_creds ne s =
     (let s = s\<lparr>nr_ssid := take 32 AP_SSID, nr_psk := take 63 AP_PASSWORD\<rparr>;
          s = (case get_str ne NAT_NS ''ap_ssid'' 64 (nr_nvs s) of Some v \<Rightarrow> if v \<noteq> [] then s\<lparr>nr_ssid := take 32 v\<rparr> else s | None \<Rightarrow> s)
      in case get_str ne NAT_NS ''ap_psk'' 64 (nr_nvs s) of Some v \<Rightarrow> s\<lparr>nr_psk := take 63 v\<rparr> | None \<Rightarrow> s)"

definition save_ap_creds :: "nvs_env \<Rightarrow> nat_state \<Rightarrow> nat_state" where
  "save_ap_creds ne s =
     s\<lparr>nr_nvs := nvs_write_unchecked ne NAT_NS [(''ap_ssid'', NV_str (nr_ssid s)), (''ap_psk'', NV_str (nr_psk s))] (nr_nvs s)\<rparr>"

definition load_enabled :: "nvs_env \<Rightarrow> nvs \<Rightarrow> bool" where
  "load_enabled ne n = ((case get_u8 ne NAT_NS ''enabled'' n of Some v \<Rightarrow> v | None \<Rightarrow> 1) \<noteq> 0)"

definition save_enabled :: "nvs_env \<Rightarrow> bool \<Rightarrow> nat_state \<Rightarrow> nat_state" where
  "save_enabled ne en s = s\<lparr>nr_nvs := nvs_write_unchecked ne NAT_NS [(''enabled'', NV_u8 (if en then 1 else 0))] (nr_nvs s)\<rparr>"

text \<open>The rules are stored as the bytes of the array: 12 bytes for each entry.\<close>

definition le16 :: "u16 \<Rightarrow> u8 list" where
  "le16 w = [ucast w, ucast (drop_bit 8 w)]"

definition le32 :: "u32 \<Rightarrow> u8 list" where
  "le32 w = [ucast w, ucast (drop_bit 8 w), ucast (drop_bit 16 w), ucast (drop_bit 24 w)]"

definition of_le16 :: "u8 \<Rightarrow> u8 \<Rightarrow> u16" where
  "of_le16 a b = ucast a OR push_bit 8 (ucast b)"

definition of_le32 :: "u8 \<Rightarrow> u8 \<Rightarrow> u8 \<Rightarrow> u8 \<Rightarrow> u32" where
  "of_le32 a b c d = ucast a OR push_bit 8 (ucast b) OR push_bit 16 (ucast c) OR push_bit 24 (ucast d)"

definition entry_bytes :: "portmap_entry \<Rightarrow> u8 list" where
  "entry_bytes e = [pm_proto e, pm_valid e] @ le16 (pm_mport e) @ le16 (pm_dport e) @ le16 (pm_pad e) @ le32 (pm_daddr e)"

fun portmap_of_bytes :: "u8 list \<Rightarrow> portmap_entry list" where
  "portmap_of_bytes (p # v # m0 # m1 # d0 # d1 # x0 # x1 # a0 # a1 # a2 # a3 # bs) =
     \<lparr>pm_proto = p, pm_valid = v, pm_mport = of_le16 m0 m1, pm_dport = of_le16 d0 d1, pm_pad = of_le16 x0 x1, pm_daddr = of_le32 a0 a1 a2 a3\<rparr>
     # portmap_of_bytes bs"
| "portmap_of_bytes _ = []"

definition empty_entry :: portmap_entry where
  "empty_entry = \<lparr>pm_proto = 0, pm_valid = 0, pm_mport = 0, pm_dport = 0, pm_pad = 0, pm_daddr = 0\<rparr>"

definition load_portmap :: "nvs_env \<Rightarrow> nvs \<Rightarrow> portmap_entry list" where
  "load_portmap ne n =
     (case nvs_read ne NAT_NS ''portmap'' n of
        Some (NV_blob bs) \<Rightarrow> if length bs = 12 * PORTMAP_MAX then portmap_of_bytes bs else replicate PORTMAP_MAX empty_entry
      | _ \<Rightarrow> replicate PORTMAP_MAX empty_entry)"

definition save_portmap :: "nvs_env \<Rightarrow> nat_state \<Rightarrow> nat_state" where
  "save_portmap ne s =
     s\<lparr>nr_nvs := nvs_write_unchecked ne NAT_NS [(''portmap'', NV_blob (concat (map entry_bytes (nr_portmap s))))] (nr_nvs s)\<rparr>"

section \<open>Address translation and the access point\<close>

definition remove_all_live :: "nat_state \<Rightarrow> nat_state" where
  "remove_all_live s = calls (map (\<lambda>e. Portmap_remove (pm_proto e) (pm_mport e)) (filter entry_valid (nr_portmap s))) s"

definition apply_portmap :: "nat_state \<Rightarrow> nat_state" where
  "apply_portmap s =
     (if nr_sta_ip s = 0 then s
      else calls (map (\<lambda>e. Portmap_add (pm_proto e) (nr_sta_ip s) (pm_mport e) (pm_daddr e) (pm_dport e)) (filter entry_valid (nr_portmap s))) s)"

text \<open>\<open>ve_sta_dns\<close> is the station's resolver, when the station interface exists and answers.\<close>

definition set_ap_dns :: "nat_env \<Rightarrow> nat_state \<Rightarrow> nat_state" where
  "set_ap_dns env s =
     (if \<not> nr_ap s then s
      else case ve_sta_dns env of
             None \<Rightarrow> s
           | Some dns \<Rightarrow> if dns = 0 then s else calls [Dhcps_stop, Set_dns dns, Offer_dns, Dhcps_start] s)"

text \<open>The name goes into an array of 32 bytes, the password into one of 64, each with a terminator.\<close>

definition ap_config_of :: "nat_env \<Rightarrow> nat_state \<Rightarrow> ap_config" where
  "ap_config_of env s =
     \<lparr>ac_ssid = take 31 (nr_ssid s), ac_ssid_len = of_nat (length (nr_ssid s)), ac_channel = (if ve_channel env \<noteq> 0 then ve_channel env else 1),
      ac_max_connection = AP_MAX_CONN, ac_password = (if length (nr_psk s) < 8 then [] else take 63 (nr_psk s)),
      ac_wpa2 = (length (nr_psk s) \<ge> 8)\<rparr>"

definition configure_ap :: "nat_env \<Rightarrow> nat_state \<Rightarrow> nat_state" where
  "configure_ap env s = call (Set_config (ap_config_of env s)) s"

definition ntohl :: "u32 \<Rightarrow> u32" where
  "ntohl w = (case le32 w of [a, b, c, d] \<Rightarrow> of_le32 d c b a | _ \<Rightarrow> 0)"

definition create_ap :: "nat_state \<Rightarrow> nat_state" where
  "create_ap s = (calls [Create_ap, Dhcps_stop, Set_ap_ip AP_IP AP_IP AP_NETMASK, Dhcps_start] s)
     \<lparr>nr_ap := True, nr_mask_host := ntohl AP_NETMASK, nr_net_host := ntohl AP_IP AND ntohl AP_NETMASK\<rparr>"

text \<open>The wait for the interface, at most 40 polls 25 ms apart.\<close>

fun wait_netif :: "nat_env \<Rightarrow> nat \<Rightarrow> nat \<Rightarrow> nat_state \<Rightarrow> nat_state" where
  "wait_netif env 0 i s = s"
| "wait_netif env (Suc left) i s = (if ve_netif_up env i then s else wait_netif env left (Suc i) (call (Task_delay 25) s))"

definition enable_napt :: "nat_env \<Rightarrow> nat_state \<Rightarrow> nat_state" where
  "enable_napt env s =
     (let s = call Napt_enable s in if ve_napt_ok env 0 then s else calls [Task_delay 100, Napt_enable] s)"

definition ap_up :: "nat_env \<Rightarrow> nat_state \<Rightarrow> nat_state" where
  "ap_up env s =
     (let s = (if nr_ap s then s else create_ap s);
          s = calls [Set_mode_apsta, Coex_prefer_wifi] s;
          s = configure_ap env s;
          s = set_ap_dns env s;
          s = wait_netif env 40 0 s;
          s = enable_napt env s;
          s = apply_portmap s
      in s\<lparr>nr_enabled := True\<rparr>)"

definition ap_down :: "nat_state \<Rightarrow> nat_state" where
  "ap_down s =
     (let s = (if nr_ap s then call Napt_disable s else s);
          s = remove_all_live s;
          s = calls [Set_mode_sta, Coex_balance] s
      in s\<lparr>nr_enabled := False\<rparr>)"

definition on_sta_got_ip :: "nat_env \<Rightarrow> u32 \<Rightarrow> nat_state \<Rightarrow> nat_state" where
  "on_sta_got_ip env new_ip s =
     (let changed = (new_ip \<noteq> nr_sta_ip s); s = s\<lparr>nr_sta_ip := new_ip\<rparr>
      in if \<not> nr_enabled s then s
         else if \<not> changed then set_ap_dns env s
         else set_ap_dns env (apply_portmap (remove_all_live s)))"

definition nat_pause_for_ota :: "nat_state \<Rightarrow> nat_state" where
  "nat_pause_for_ota s =
     (let s = s\<lparr>nr_ota_resume := nr_enabled s\<rparr> in if nr_enabled s then ap_down s else s)"

definition nat_resume_after_ota :: "nat_env \<Rightarrow> nat_state \<Rightarrow> nat_state" where
  "nat_resume_after_ota env s =
     (let s = (if nr_ota_resume s then ap_up env s else s) in s\<lparr>nr_ota_resume := False\<rparr>)"

text \<open>A boot: the globals at their initial values, then \<open>start\<close>.\<close>

definition nat_globals :: "nvs \<Rightarrow> nat_state" where
  "nat_globals n =
     \<lparr>nr_portmap = replicate PORTMAP_MAX empty_entry, nr_ap = False, nr_sta_ip = 0, nr_ssid = [], nr_psk = [], nr_enabled = True,
      nr_ota_resume = False, nr_net_host = 0, nr_mask_host = 0, nr_down_bytes = 0, nr_up_bytes = 0, nr_nvs = n, nr_calls = []\<rparr>"

definition nat_start :: "nvs_env \<Rightarrow> nat_env \<Rightarrow> nat_state \<Rightarrow> nat_state" where
  "nat_start ne env s =
     (let s = load_ap_creds ne s;
          s = s\<lparr>nr_portmap := load_portmap ne (nr_nvs s)\<rparr>;
          s = s\<lparr>nr_enabled := load_enabled ne (nr_nvs s)\<rparr>;
          s = (case ve_sta_ip env of Some ip \<Rightarrow> s\<lparr>nr_sta_ip := ip\<rparr> | None \<Rightarrow> s)
      in if nr_enabled s then ap_up env s else s)"

section \<open>The status reply\<close>

text \<open>\<open>off += snprintf(buf + off, cap - off, ...)\<close>: the text in the buffer and the offset, which counts what would have been
  written. An offset past the end makes \<open>cap - off\<close> wrap: the write is out of bounds (\<open>None\<close>).\<close>

type_synonym out_buf = "string \<times> nat"

definition out_printf :: "nat \<Rightarrow> string \<Rightarrow> out_buf \<Rightarrow> out_buf option" where
  "out_printf cap s b =
     (let (txt, off) = b in if off > cap then None else Some (txt @ take (cap - off - 1) s, off + length s))"

fun escape_host :: "string \<Rightarrow> string \<Rightarrow> string" where
  "escape_host [] esc = esc"
| "escape_host (c # cs) esc =
     (if length esc < 62 then escape_host cs (if c = CHR 0x22 \<or> c = CHR 0x5C then esc @ [CHR 0x5C, c] else esc @ [c]) else esc)"

definition lease_of :: "(u8 list \<times> u32) list \<Rightarrow> u8 list \<Rightarrow> u32" where
  "lease_of leases mac = (case find (\<lambda>(m, _). m = mac) leases of Some (_, ip) \<Rightarrow> ip | None \<Rightarrow> 0)"

definition mac_text :: "u8 list \<Rightarrow> string" where
  "mac_text mac = hex_byte_lower (mac ! 0) @ '':'' @ hex_byte_lower (mac ! 1) @ '':'' @ hex_byte_lower (mac ! 2) @ '':'' @
     hex_byte_lower (mac ! 3) @ '':'' @ hex_byte_lower (mac ! 4) @ '':'' @ hex_byte_lower (mac ! 5)"

definition station_row :: "nat_env \<Rightarrow> bool \<Rightarrow> u8 list \<times> int \<Rightarrow> string" where
  "station_row env first st =
     (let (mac, rssi) = st; host = fst (dhcps_hostname_lookup mac 32 (ve_names env))
      in (if first then [] else '','') @ ''{\"mac\":\"'' @ mac_text mac @ ''\",\"ip\":\"'' @ ip_to_str (lease_of (ve_leases env) mac) @
         ''\",\"rssi\":'' @ show_int rssi @ '',\"hostname\":\"'' @ escape_host host [] @ ''\"}'')"

fun station_rows :: "nat_env \<Rightarrow> nat \<Rightarrow> bool \<Rightarrow> (u8 list \<times> int) list \<Rightarrow> out_buf \<Rightarrow> out_buf option" where
  "station_rows env cap first [] b = Some b"
| "station_rows env cap first (st # sts) b =
     (if snd b + 160 < cap then
        (case out_printf cap (station_row env first st) b of None \<Rightarrow> None | Some b \<Rightarrow> station_rows env cap False sts b)
      else Some b)"

definition append_stations_json :: "nat_env \<Rightarrow> nat \<Rightarrow> out_buf \<Rightarrow> out_buf option" where
  "append_stations_json env cap b =
     Option.bind (out_printf cap ''\"stations\":['' b) (\<lambda>b.
     Option.bind (station_rows env cap True (ve_stations env) b) (out_printf cap '']''))"

definition portmap_row :: "bool \<Rightarrow> portmap_entry \<Rightarrow> string" where
  "portmap_row first e =
     (if first then [] else '','') @ ''{\"proto\":\"'' @ (if pm_proto e = PROTO_TCP then ''tcp'' else ''udp'') @ ''\",\"mport\":'' @ show_nat (unat (pm_mport e)) @
     '',\"daddr\":\"'' @ ip_to_str (pm_daddr e) @ ''\",\"dport\":'' @ show_nat (unat (pm_dport e)) @ ''}''"

fun portmap_rows :: "nat \<Rightarrow> bool \<Rightarrow> portmap_entry list \<Rightarrow> out_buf \<Rightarrow> out_buf option" where
  "portmap_rows cap first [] b = Some b"
| "portmap_rows cap first (e # es) b =
     (if snd b + 96 < cap then
        (if \<not> entry_valid e then portmap_rows cap first es b
         else case out_printf cap (portmap_row first e) b of None \<Rightarrow> None | Some b \<Rightarrow> portmap_rows cap False es b)
      else Some b)"

definition nat_head :: "nat_env \<Rightarrow> nat_state \<Rightarrow> string" where
  "nat_head env s =
     ''{\"enabled\":'' @ (if nr_enabled s then ''true'' else ''false'') @ '',\"ssid\":\"'' @ nr_ssid s @ ''\",\"open\":'' @ (if length (nr_psk s) < 8 then ''true'' else ''false'') @
     '',\"ap_ip\":\"'' @ ip_to_str (if nr_ap s then ve_ap_ip env else 0) @ ''\",\"sta_ip\":\"'' @ ip_to_str (nr_sta_ip s) @
     ''\",\"clients\":'' @ show_nat (length (ve_stations env)) @ '',\"max\":'' @ show_nat AP_MAX_CONN @ '',''"

text \<open>The reply sends \<open>off\<close> bytes of the buffer; \<open>None\<close> when that is more than was written.\<close>

definition nat_get :: "nat_env \<Rightarrow> nat_state \<Rightarrow> http_resp option" where
  "nat_get env s =
     Option.bind (out_printf 3072 (nat_head env s) ([], 0)) (\<lambda>b.
     Option.bind (append_stations_json env 3072 b) (\<lambda>b.
     Option.bind (out_printf 3072 '',\"portmaps\":['' b) (\<lambda>b.
     Option.bind (portmap_rows 3072 True (nr_portmap s) b) (\<lambda>b.
     Option.bind (out_printf 3072 '']}'' b) (\<lambda>(txt, off).
     if off = length txt then Some (Http_ok ''application/json'' txt) else None)))))"

section \<open>Changing the access point and the rules\<close>

type_synonym nat_query = "string \<Rightarrow> nat \<Rightarrow> string option"

text \<open>The credentials, checked and set one after the other.\<close>

definition nat_set_ssid :: "string option \<Rightarrow> nat_state \<Rightarrow> nat_state \<times> string option" where
  "nat_set_ssid ssid s =
     (case ssid of
        None \<Rightarrow> (s, None)
      | Some v \<Rightarrow> if length v < 1 \<or> length v > 32 then (s, Some ''ssid must be 1..32 chars'') else (s\<lparr>nr_ssid := take 32 v\<rparr>, None))"

definition nat_set_psk :: "string option \<Rightarrow> nat_state \<Rightarrow> nat_state \<times> string option" where
  "nat_set_psk psk s =
     (case psk of
        None \<Rightarrow> (s, None)
      | Some v \<Rightarrow> if length v \<noteq> 0 \<and> (length v < 8 \<or> length v > 63) then (s, Some ''psk must be empty or 8..63 chars'')
                  else (s\<lparr>nr_psk := take 63 v\<rparr>, None))"

definition nat_toggle :: "nvs_env \<Rightarrow> nat_env \<Rightarrow> string option \<Rightarrow> nat_state \<Rightarrow> nat_state" where
  "nat_toggle ne env en s =
     (case en of
        None \<Rightarrow> s
      | Some v \<Rightarrow>
          let want = (v \<noteq> [] \<and> hd v = CHR ''1'')
          in if want \<noteq> nr_enabled s then save_enabled ne want (if want then ap_up env s else ap_down s) else s)"

definition nat_post :: "nvs_env \<Rightarrow> nat_env \<Rightarrow> (nat \<Rightarrow> nat_query option) \<Rightarrow> nat_state \<Rightarrow> nat_state \<times> http_resp" where
  "nat_post ne env get_query s =
     (case get_query 160 of
        None \<Rightarrow> (s, Http_error 400 ''missing query'')
      | Some kv \<Rightarrow>
          let en = kv ''enabled'' 8; ssid = kv ''ssid'' 33; psk = kv ''psk'' 64
          in if en = None \<and> ssid = None \<and> psk = None then (s, Http_error 400 ''need enabled=, ssid= or psk='')
             else case nat_set_ssid ssid s of
                    (s, Some e) \<Rightarrow> (s, Http_error 400 e)
                  | (s, None) \<Rightarrow>
                      (case nat_set_psk psk s of
                         (s, Some e) \<Rightarrow> (s, Http_error 400 e)
                       | (s, None) \<Rightarrow>
                           let s = (if ssid \<noteq> None \<or> psk \<noteq> None then
                                      let s = save_ap_creds ne s in if nr_enabled s then configure_ap env s else s
                                    else s)
                           in (nat_toggle ne env en s, json_ok)))"

definition entry_key :: "portmap_entry \<Rightarrow> u8 \<times> u16" where
  "entry_key e = (pm_proto e, pm_mport e)"

text \<open>The parameters every port-map request has: protocol and external port.\<close>

definition portmap_key :: "nat_query \<Rightarrow> string + u8 \<times> u16" where
  "portmap_key kv =
     (case kv ''proto'' 40 of
        None \<Rightarrow> Inl ''missing proto''
      | Some p \<Rightarrow>
          if p \<noteq> ''tcp'' \<and> p \<noteq> ''udp'' then Inl ''proto=tcp|udp''
          else case kv ''mport'' 40 of
                 None \<Rightarrow> Inl ''missing mport''
               | Some v \<Rightarrow> let mport = c_atoi v in
                   if mport < 1 \<or> mport > 65535 then Inl ''mport out of range''
                   else Inr (if p = ''tcp'' then PROTO_TCP else PROTO_UDP, word_of_int mport))"

definition portmap_dest :: "(string \<Rightarrow> u32 option) \<Rightarrow> nat_query \<Rightarrow> string + u32 \<times> u16" where
  "portmap_dest ip4addr_aton kv =
     (case kv ''daddr'' 40 of
        None \<Rightarrow> Inl ''missing daddr''
      | Some a \<Rightarrow>
          (case ip4addr_aton a of
             None \<Rightarrow> Inl ''bad daddr''
           | Some daddr \<Rightarrow>
               (case kv ''dport'' 40 of
                  None \<Rightarrow> Inl ''missing dport''
                | Some v \<Rightarrow> let dport = c_atoi v in
                    if dport < 1 \<or> dport > 65535 then Inl ''dport out of range'' else Inr (daddr, word_of_int dport))))"

definition portmap_delete :: "nvs_env \<Rightarrow> u8 \<times> u16 \<Rightarrow> nat_state \<Rightarrow> nat_state" where
  "portmap_delete ne key s =
     (case keyed_find entry_valid entry_key (nr_portmap s) key of
        None \<Rightarrow> s
      | Some i \<Rightarrow> call (Portmap_remove (fst key) (snd key))
                    (save_portmap ne (s\<lparr>nr_portmap := (nr_portmap s)[i := (nr_portmap s ! i)\<lparr>pm_valid := 0\<rparr>]\<rparr>)))"

definition portmap_entry_of :: "u8 \<times> u16 \<Rightarrow> u32 \<times> u16 \<Rightarrow> portmap_entry" where
  "portmap_entry_of key dest =
     \<lparr>pm_proto = fst key, pm_valid = 1, pm_mport = snd key, pm_dport = snd dest, pm_pad = 0, pm_daddr = fst dest\<rparr>"

text \<open>The table after an addition; \<open>None\<close> when it is full.\<close>

definition portmap_put :: "u8 \<times> u16 \<Rightarrow> u32 \<times> u16 \<Rightarrow> portmap_entry list \<Rightarrow> portmap_entry list option" where
  "portmap_put key dest tbl =
     map_option (\<lambda>i. tbl[i := portmap_entry_of key dest]) (keyed_slot entry_valid entry_key tbl key)"

definition portmap_add :: "nvs_env \<Rightarrow> u8 \<times> u16 \<Rightarrow> u32 \<times> u16 \<Rightarrow> nat_state \<Rightarrow> nat_state option" where
  "portmap_add ne key dest s =
     map_option (\<lambda>tbl.
       let s = save_portmap ne (s\<lparr>nr_portmap := tbl\<rparr>)
       in if nr_sta_ip s \<noteq> 0 then call (Portmap_add (fst key) (nr_sta_ip s) (snd key) (fst dest) (snd dest)) s else s)
     (portmap_put key dest (nr_portmap s))"

definition portmap_del :: "nat_query \<Rightarrow> bool" where
  "portmap_del kv = (case kv ''del'' 40 of Some v \<Rightarrow> v \<noteq> [] \<and> hd v = CHR ''1'' | None \<Rightarrow> False)"

definition portmap_post :: "(string \<Rightarrow> u32 option) \<Rightarrow> nvs_env \<Rightarrow> (nat \<Rightarrow> nat_query option) \<Rightarrow> nat_state \<Rightarrow> nat_state \<times> http_resp" where
  "portmap_post aton ne get_query s =
     (case get_query 160 of
        None \<Rightarrow> (s, Http_error 400 ''missing query'')
      | Some kv \<Rightarrow>
          (case portmap_key kv of
             Inl e \<Rightarrow> (s, Http_error 400 e)
           | Inr key \<Rightarrow>
               if portmap_del kv then (portmap_delete ne key s, json_ok)
               else case portmap_dest aton kv of
                      Inl e \<Rightarrow> (s, Http_error 400 e)
                    | Inr dest \<Rightarrow>
                        (case portmap_add ne key dest s of
                           None \<Rightarrow> (s, Http_error 400 ''portmap table full'')
                         | Some s \<Rightarrow> (s, json_ok))))"

section \<open>Throughput\<close>

definition nbp_ip4_canforward :: "u16 option \<Rightarrow> u32 \<Rightarrow> nat_state \<Rightarrow> nat_state \<times> int" where
  "nbp_ip4_canforward tot_len dest s =
     (case tot_len of
        None \<Rightarrow> (s, - 1)
      | Some n \<Rightarrow>
          (if nr_mask_host s \<noteq> 0 \<and> dest AND nr_mask_host s = nr_net_host s
           then s\<lparr>nr_down_bytes := nr_down_bytes s + ucast n\<rparr> else s\<lparr>nr_up_bytes := nr_up_bytes s + ucast n\<rparr>, - 1))"

definition get_ap_throughput :: "nat_state \<Rightarrow> u64 \<times> u64" where
  "get_ap_throughput s = (nr_up_bytes s, nr_down_bytes s)"

section \<open>The rules\<close>

definition pm_ok :: "portmap_entry list \<Rightarrow> bool" where
  "pm_ok tbl \<longleftrightarrow> length tbl = PORTMAP_MAX \<and> keyed_ok entry_valid entry_key tbl"

definition pm_lookup :: "portmap_entry list \<Rightarrow> u8 \<times> u16 \<Rightarrow> (u32 \<times> u16) option" where
  "pm_lookup tbl key = map_option (\<lambda>e. (pm_daddr e, pm_dport e)) (keyed_get entry_valid entry_key tbl key)"

definition rules :: "nat_state \<Rightarrow> u8 \<times> u16 \<Rightarrow> (u32 \<times> u16) option" where
  "rules s = pm_lookup (nr_portmap s)"

lemma entry_of_simps [simp]: "entry_valid (portmap_entry_of key dest)" "entry_key (portmap_entry_of key dest) = key"
  "pm_daddr (portmap_entry_of key dest) = fst dest" "pm_dport (portmap_entry_of key dest) = snd dest"
  by (simp_all add: entry_valid_def entry_key_def portmap_entry_of_def)

lemma portmap_put_Some:
  assumes "pm_ok tbl" "portmap_put key dest tbl = Some tbl'"
  shows "pm_ok tbl'" "pm_lookup tbl' = (pm_lookup tbl)(key \<mapsto> dest)"
proof -
  obtain i where i: "keyed_slot entry_valid entry_key tbl key = Some i" and t: "tbl' = tbl[i := portmap_entry_of key dest]"
    using assms(2) by (auto simp: portmap_put_def)
  have k: "keyed_ok entry_valid entry_key tbl" using assms(1) by (simp add: pm_ok_def)
  have s: "i < length tbl" "keyed_find entry_valid entry_key tbl (entry_key (portmap_entry_of key dest)) = None \<or>
      keyed_find entry_valid entry_key tbl (entry_key (portmap_entry_of key dest)) = Some i"
    and u: "entry_valid (tbl ! i) \<Longrightarrow> entry_key (tbl ! i) = key"
    using keyed_slotD [OF k i] by simp_all
  note put = keyed_put [OF k s]
  show "pm_ok tbl'" using put(1) assms(1) by (simp add: pm_ok_def t)
  show "pm_lookup tbl' = (pm_lookup tbl)(key \<mapsto> dest)"
  proof
    fix k show "pm_lookup tbl' k = ((pm_lookup tbl)(key \<mapsto> dest)) k"
      using put(2) [of k] put(3) u by (cases "k = key") (auto simp: pm_lookup_def t)
  qed
qed

interpretation pm: registry pm_ok pm_lookup portmap_put
  by unfold_locales (auto simp: portmap_put_Some)

lemma portmap_put_full: "portmap_put key dest tbl = None \<longleftrightarrow> keyed_find entry_valid entry_key tbl key = None \<and> list_all entry_valid tbl"
  by (auto simp: portmap_put_def keyed_slot_def find_idx_None list_all_iff split: option.split)

lemma portmap_delete_table:
  assumes "pm_ok tbl" "keyed_find entry_valid entry_key tbl key = Some i"
  shows "pm_ok (tbl[i := (tbl ! i)\<lparr>pm_valid := 0\<rparr>])" "pm_lookup (tbl[i := (tbl ! i)\<lparr>pm_valid := 0\<rparr>]) = (pm_lookup tbl)(key := None)"
proof -
  define y where "y = (tbl ! i)\<lparr>pm_valid := 0\<rparr>"
  have k: "keyed_ok entry_valid entry_key tbl" using assms(1) by (simp add: pm_ok_def)
  have i: "i < length tbl" "entry_key (tbl ! i) = key" using assms(2) by (simp_all add: keyed_find_Some [OF k])
  have y: "entry_key y = key" "\<not> entry_valid y" using i by (simp_all add: y_def entry_key_def entry_valid_def)
  have f: "keyed_find entry_valid entry_key tbl (entry_key y) = None \<or> keyed_find entry_valid entry_key tbl (entry_key y) = Some i"
    using assms(2) y by simp
  note put = keyed_put [OF k i(1) f]
  show "pm_ok (tbl[i := (tbl ! i)\<lparr>pm_valid := 0\<rparr>])" using put(1) assms(1) by (simp add: pm_ok_def y_def)
  show "pm_lookup (tbl[i := (tbl ! i)\<lparr>pm_valid := 0\<rparr>]) = (pm_lookup tbl)(key := None)"
  proof
    fix k show "pm_lookup (tbl[i := (tbl ! i)\<lparr>pm_valid := 0\<rparr>]) k = ((pm_lookup tbl)(key := None)) k"
      using put(2) [of k] put(4) y i by (cases "k = key") (auto simp: pm_lookup_def y_def)
  qed
qed

lemma pm_empty_ok: "pm_ok (replicate PORTMAP_MAX empty_entry)"
  by (auto simp: pm_ok_def keyed_ok_def empty_entry_def entry_valid_def)

lemma pm_lookup_dom: "key \<in> entry_key ` set (filter entry_valid tbl) \<longleftrightarrow> pm_lookup tbl key \<noteq> None"
  unfolding pm_lookup_def option.map_disc_iff keyed_get_None by auto

lemma pm_lookup_entry: "pm_ok tbl \<Longrightarrow> e \<in> set tbl \<Longrightarrow> entry_valid e \<Longrightarrow> pm_lookup tbl (entry_key e) = Some (pm_daddr e, pm_dport e)"
proof -
  assume "pm_ok tbl" "e \<in> set tbl" "entry_valid e"
  then have "keyed_get entry_valid entry_key tbl (entry_key e) = Some e" using keyed_get_Some [of entry_valid entry_key tbl] by (simp add: pm_ok_def)
  then show ?thesis by (simp add: pm_lookup_def)
qed

section \<open>The translation table as the calls leave it\<close>

type_synonym live_table = "u8 \<times> u16 \<Rightarrow> (u32 \<times> u32 \<times> u16) option"

text \<open>For each protocol and external port, the last of the router's calls decides: an addition gives the external address, the
  destination and its port; a removal leaves nothing.\<close>

fun live_step :: "nat_call \<Rightarrow> live_table \<Rightarrow> live_table" where
  "live_step (Portmap_add p ip m d dp) t = t((p, m) \<mapsto> (ip, d, dp))"
| "live_step (Portmap_remove p m) t = t((p, m) := None)"
| "live_step _ t = t"

definition live :: "nat_state \<Rightarrow> live_table" where
  "live s = fold live_step (nr_calls s) (\<lambda>_. None)"

definition live_call :: "nat_call \<Rightarrow> bool" where
  "live_call c \<longleftrightarrow> (case c of Portmap_add _ _ _ _ _ \<Rightarrow> True | Portmap_remove _ _ \<Rightarrow> True | _ \<Rightarrow> False)"

lemma live_call_other [simp]: "\<not> live_call c \<Longrightarrow> live_step c t = t"
  by (cases c) (simp_all add: live_call_def)

lemma live_calls: "live (calls cs s) = fold live_step cs (live s)"
  by (simp add: live_def calls_def)

lemma fold_live_other: "\<forall>c\<in>set cs. \<not> live_call c \<Longrightarrow> fold live_step cs t = t"
  by (induction cs arbitrary: t) simp_all

lemma fold_live_remove:
  "fold live_step (map (\<lambda>e. Portmap_remove (pm_proto e) (pm_mport e)) es) t = (\<lambda>k. if k \<in> entry_key ` set es then None else t k)"
  by (induction es arbitrary: t) (auto simp: entry_key_def fun_eq_iff)

lemma fold_live_add:
  assumes "\<forall>e\<in>set es. f (entry_key e) = Some (pm_daddr e, pm_dport e)"
  shows "fold live_step (map (\<lambda>e. Portmap_add (pm_proto e) ip (pm_mport e) (pm_daddr e) (pm_dport e)) es) t =
    (\<lambda>k. if k \<in> entry_key ` set es then map_option (\<lambda>(d, p). (ip, d, p)) (f k) else t k)"
  using assms by (induction es arbitrary: t) (auto simp: entry_key_def fun_eq_iff)

lemma live_remove_all: "live (remove_all_live s) = (\<lambda>k. if rules s k \<noteq> None then None else live s k)"
  unfolding remove_all_live_def live_calls fold_live_remove rules_def pm_lookup_dom ..

lemma live_apply:
  assumes "pm_ok (nr_portmap s)"
  shows "live (apply_portmap s) =
    (if nr_sta_ip s = 0 then live s
     else (\<lambda>k. if rules s k \<noteq> None then map_option (\<lambda>(d, p). (nr_sta_ip s, d, p)) (rules s k) else live s k))"
proof -
  have "\<forall>e\<in>set (filter entry_valid (nr_portmap s)). rules s (entry_key e) = Some (pm_daddr e, pm_dport e)"
    using pm_lookup_entry [OF assms] by (simp add: rules_def)
  from fold_live_add [OF this] show ?thesis
    unfolding apply_portmap_def pm_lookup_dom rules_def by (simp add: live_calls)
qed

text \<open>What the other operations leave alone: the rules, the external address, the store, the table and the credentials.\<close>

definition nat_core :: "nat_state \<Rightarrow> portmap_entry list \<times> u32 \<times> nvs \<times> live_table \<times> string \<times> string" where
  "nat_core s = (nr_portmap s, nr_sta_ip s, nr_nvs s, live s, nr_ssid s, nr_psk s)"

lemma core_calls [simp]: "\<forall>c\<in>set cs. \<not> live_call c \<Longrightarrow> nat_core (calls cs s) = nat_core s"
  by (simp add: nat_core_def live_calls fold_live_other) (simp add: calls_def)

lemma call_is_calls: "call c s = calls [c] s"
  by (simp add: call_def calls_def)

lemma core_call [simp]: "\<not> live_call c \<Longrightarrow> nat_core (call c s) = nat_core s"
  by (simp add: call_is_calls)

lemma core_update [simp]: "nat_core (s\<lparr>nr_ap := a\<rparr>) = nat_core s" "nat_core (s\<lparr>nr_enabled := b\<rparr>) = nat_core s"
  "nat_core (s\<lparr>nr_mask_host := m\<rparr>) = nat_core s" "nat_core (s\<lparr>nr_net_host := m\<rparr>) = nat_core s" "nat_core (s\<lparr>nr_ota_resume := b\<rparr>) = nat_core s"
  "nat_core (s\<lparr>nr_up_bytes := w\<rparr>) = nat_core s" "nat_core (s\<lparr>nr_down_bytes := w\<rparr>) = nat_core s"
  by (simp_all add: nat_core_def live_def)

lemma core_platform [simp]:
  "nat_core (create_ap s) = nat_core s" "nat_core (configure_ap env s) = nat_core s" "nat_core (set_ap_dns env s) = nat_core s"
  "nat_core (enable_napt env s) = nat_core s"
  by (simp_all add: create_ap_def configure_ap_def set_ap_dns_def enable_napt_def live_call_def Let_def split: option.split)

lemma core_wait [simp]: "nat_core (wait_netif env n i s) = nat_core s"
  by (induction env n i s rule: wait_netif.induct) (simp_all add: live_call_def)

lemma core_apply: "nat_core s = nat_core s' \<Longrightarrow> nat_core (apply_portmap s) = nat_core (apply_portmap s')"
  by (auto simp: nat_core_def apply_portmap_def live_calls) (simp_all add: calls_def)

lemma core_ap_up: "nat_core (ap_up env s) = nat_core (apply_portmap s)"
  unfolding ap_up_def Let_def core_update by (rule core_apply) (simp add: live_call_def)

lemma core_remove: "nat_core s = nat_core s' \<Longrightarrow> nat_core (remove_all_live s) = nat_core (remove_all_live s')"
  by (auto simp: nat_core_def remove_all_live_def live_calls) (simp_all add: calls_def)

lemma core_ap_down: "nat_core (ap_down s) = nat_core (remove_all_live s)"
proof -
  have c: "nat_core (calls [Set_mode_sta, Coex_balance] s') = nat_core s'" for s' by (simp add: live_call_def)
  have "nat_core (if nr_ap s then call Napt_disable s else s) = nat_core s" by (simp add: live_call_def)
  then show ?thesis unfolding ap_down_def Let_def core_update c by (rule core_remove)
qed

lemma enabled_calls [simp]: "nr_enabled (calls cs s) = nr_enabled s" "nr_enabled (call c s) = nr_enabled s"
  by (simp_all add: calls_def call_def)

lemma enabled_ops [simp]: "nr_enabled (ap_up env s)" "\<not> nr_enabled (ap_down s)" "nr_enabled (configure_ap env s) = nr_enabled s"
  "nr_enabled (set_ap_dns env s) = nr_enabled s" "nr_enabled (apply_portmap s) = nr_enabled s" "nr_enabled (remove_all_live s) = nr_enabled s"
  by (simp_all add: ap_up_def ap_down_def configure_ap_def set_ap_dns_def apply_portmap_def remove_all_live_def Let_def split: option.split)

section \<open>The rules as stored\<close>

lemma le16_inverse: "of_le16 (ucast w) (ucast (drop_bit 8 w)) = w"
  unfolding of_le16_def by (rule bit_word_eqI) (auto simp: bit_simps)

lemma le32_inverse: "of_le32 (ucast w) (ucast (drop_bit 8 w)) (ucast (drop_bit 16 w)) (ucast (drop_bit 24 w)) = w"
proof (unfold of_le32_def, rule bit_word_eqI)
  fix n assume "n < LENGTH(32)"
  then have "n < 8 \<or> 8 \<le> n \<and> n < 16 \<or> 16 \<le> n \<and> n < 24 \<or> 24 \<le> n \<and> n < 32" by auto
  then show "bit ((ucast (ucast w :: u8) :: u32) OR push_bit 8 (ucast (ucast (drop_bit 8 w) :: u8)) OR
      push_bit 16 (ucast (ucast (drop_bit 16 w) :: u8)) OR push_bit 24 (ucast (ucast (drop_bit 24 w) :: u8))) n = bit w n"
    by (elim disjE conjE) (auto simp: bit_simps)
qed

lemma portmap_bytes_inverse: "portmap_of_bytes (concat (map entry_bytes tbl)) = tbl"
  by (induction tbl) (simp_all add: entry_bytes_def le16_def le32_def le16_inverse le32_inverse)

lemma portmap_bytes_length: "length (concat (map entry_bytes tbl)) = 12 * length tbl"
  by (induction tbl) (simp_all add: entry_bytes_def le16_def le32_def)

lemma load_portmap_read: "nvs_read ne NAT_NS ''portmap'' n = nvs_read ne NAT_NS ''portmap'' n' \<Longrightarrow> load_portmap ne n = load_portmap ne n'"
  by (simp add: load_portmap_def)

lemma save_portmap_load:
  assumes "length (nr_portmap s) = PORTMAP_MAX"
  shows "load_portmap ne (nr_nvs (save_portmap ne s)) = nr_portmap s \<or> load_portmap ne (nr_nvs (save_portmap ne s)) = load_portmap ne (nr_nvs s)"
    and "nvs_works ne \<Longrightarrow> load_portmap ne (nr_nvs (save_portmap ne s)) = nr_portmap s"
  using assms
  by (auto simp: save_portmap_def load_portmap_def nvs_read_def nvs_write_unchecked_def portmap_bytes_inverse portmap_bytes_length nvs_works_def)

lemma load_portmap_other:
  "k \<noteq> ''portmap'' \<Longrightarrow> load_portmap ne (nvs_put NAT_NS k v n) = load_portmap ne n"
  by (simp add: load_portmap_def nvs_read_def)

lemma load_after_saves:
  "load_portmap ne (nr_nvs (save_ap_creds ne s)) = load_portmap ne (nr_nvs s)"
  "load_portmap ne (nr_nvs (save_enabled ne en s)) = load_portmap ne (nr_nvs s)"
  by (simp_all add: save_ap_creds_def save_enabled_def nvs_write_unchecked_def load_portmap_other)

section \<open>Runs of the router\<close>

datatype nat_event =
    Ev_nat_post nat_env "nat \<Rightarrow> nat_query option"
  | Ev_portmap_post "nat \<Rightarrow> nat_query option"
  | Ev_got_ip nat_env u32
  | Ev_ota_pause
  | Ev_ota_resume nat_env
  | Ev_forward "u16 option" u32
  | Ev_reboot nat_env

fun nat_event_step :: "(string \<Rightarrow> u32 option) \<Rightarrow> nvs_env \<Rightarrow> nat_event \<Rightarrow> nat_state \<Rightarrow> nat_state" where
  "nat_event_step aton ne (Ev_nat_post env q) s = fst (nat_post ne env q s)"
| "nat_event_step aton ne (Ev_portmap_post q) s = fst (portmap_post aton ne q s)"
| "nat_event_step aton ne (Ev_got_ip env ip) s = on_sta_got_ip env ip s"
| "nat_event_step aton ne Ev_ota_pause s = nat_pause_for_ota s"
| "nat_event_step aton ne (Ev_ota_resume env) s = nat_resume_after_ota env s"
| "nat_event_step aton ne (Ev_forward n dest) s = fst (nbp_ip4_canforward n dest s)"
| "nat_event_step aton ne (Ev_reboot env) s = nat_start ne env (nat_globals (nr_nvs s))"

text \<open>Every state from the first boot of a device without stored rules on.\<close>

inductive nat_reach :: "(string \<Rightarrow> u32 option) \<Rightarrow> nvs_env \<Rightarrow> nat_state \<Rightarrow> bool" for aton ne where
  nat_boot: "n NAT_NS ''portmap'' = None \<Longrightarrow> nat_reach aton ne (nat_start ne env (nat_globals n))"
| nat_next: "nat_reach aton ne s \<Longrightarrow> nat_reach aton ne (nat_event_step aton ne ev s)"

text \<open>The invariant in terms of what the operations keep. \<open>strict\<close> adds that the stored rules are those in memory.\<close>

definition live_matches :: "nat_state \<Rightarrow> bool" where
  "live_matches s \<longleftrightarrow> live s = (\<lambda>k. map_option (\<lambda>(d, p). (nr_sta_ip s, d, p)) (rules s k))"

definition core_inv :: "nvs_env \<Rightarrow> nat_state \<Rightarrow> bool" where
  "core_inv ne s \<longleftrightarrow> pm_ok (nr_portmap s) \<and> (\<forall>k. rules s k = None \<longrightarrow> live s k = None) \<and>
     pm_ok (load_portmap ne (nr_nvs s)) \<and> (nvs_works ne \<longrightarrow> load_portmap ne (nr_nvs s) = nr_portmap s) \<and>
     length (nr_ssid s) \<le> 32 \<and> length (nr_psk s) \<le> 63"

definition nat_inv :: "nvs_env \<Rightarrow> nat_state \<Rightarrow> bool" where
  "nat_inv ne s \<longleftrightarrow> core_inv ne s \<and> (nr_enabled s \<and> nr_sta_ip s \<noteq> 0 \<longrightarrow> live_matches s)"

lemma nat_coreD:
  assumes "nat_core s = nat_core s'"
  shows "nr_portmap s = nr_portmap s'" "nr_sta_ip s = nr_sta_ip s'" "nr_nvs s = nr_nvs s'" "live s = live s'" "nr_ssid s = nr_ssid s'"
    "nr_psk s = nr_psk s'" "rules s = rules s'"
  using assms by (simp_all add: nat_core_def rules_def)

lemma core_inv_cong: "nat_core s = nat_core s' \<Longrightarrow> core_inv ne s = core_inv ne s'"
  by (frule nat_coreD) (simp add: core_inv_def nat_coreD [of s s'])

lemma live_matches_cong: "nat_core s = nat_core s' \<Longrightarrow> live_matches s = live_matches s'"
  by (simp add: live_matches_def nat_coreD [of s s'])

lemma nat_inv_cong: "nat_core s = nat_core s' \<Longrightarrow> nr_enabled s = nr_enabled s' \<Longrightarrow> nat_inv ne s = nat_inv ne s'"
  by (simp add: nat_inv_def core_inv_cong [of s s'] live_matches_cong [of s s'] nat_coreD [of s s'])

lemma same_rules [simp]: "rules (apply_portmap s) = rules s" "rules (remove_all_live s) = rules s"
  "nr_sta_ip (apply_portmap s) = nr_sta_ip s" "nr_sta_ip (remove_all_live s) = nr_sta_ip s"
  "nr_portmap (apply_portmap s) = nr_portmap s" "nr_portmap (remove_all_live s) = nr_portmap s"
  "nr_nvs (apply_portmap s) = nr_nvs s" "nr_nvs (remove_all_live s) = nr_nvs s"
  "nr_ssid (apply_portmap s) = nr_ssid s" "nr_ssid (remove_all_live s) = nr_ssid s"
  "nr_psk (apply_portmap s) = nr_psk s" "nr_psk (remove_all_live s) = nr_psk s"
  by (simp_all add: rules_def apply_portmap_def remove_all_live_def calls_def)

lemma apply_inv:
  assumes "core_inv ne s"
  shows "core_inv ne (apply_portmap s)" "nr_sta_ip s \<noteq> 0 \<Longrightarrow> live_matches (apply_portmap s)"
proof -
  have p: "pm_ok (nr_portmap s)" and l: "\<forall>k. rules s k = None \<longrightarrow> live s k = None" using assms by (simp_all add: core_inv_def)
  have "\<forall>k. rules s k = None \<longrightarrow> live (apply_portmap s) k = None" using l by (simp add: live_apply [OF p])
  then show "core_inv ne (apply_portmap s)" using assms by (simp add: core_inv_def)
  assume n: "nr_sta_ip s \<noteq> 0"
  show "live_matches (apply_portmap s)"
    unfolding live_matches_def
  proof
    fix k show "live (apply_portmap s) k = map_option (\<lambda>(d, p). (nr_sta_ip (apply_portmap s), d, p)) (rules (apply_portmap s) k)"
      using n spec [OF l, of k] by (cases "rules s k") (simp_all add: live_apply [OF p])
  qed
qed

lemma remove_inv:
  assumes "core_inv ne s"
  shows "core_inv ne (remove_all_live s)"
proof -
  have "\<forall>k. rules s k = None \<longrightarrow> live s k = None" using assms by (simp add: core_inv_def)
  then have "\<forall>k. rules s k = None \<longrightarrow> live (remove_all_live s) k = None" by (simp add: live_remove_all)
  then show ?thesis using assms by (simp add: core_inv_def)
qed

lemma ap_up_inv: "core_inv ne s \<Longrightarrow> nat_inv ne (ap_up env s)"
  using apply_inv [of ne s] core_inv_cong [OF core_ap_up, of ne env s] live_matches_cong [OF core_ap_up, of env s]
    nat_coreD(2) [OF core_ap_up, of env s]
  by (simp add: nat_inv_def)

lemma ap_down_inv: "core_inv ne s \<Longrightarrow> nat_inv ne (ap_down s)"
  using remove_inv [of ne s] core_inv_cong [OF core_ap_down, of ne s] by (simp add: nat_inv_def)

lemma got_ip_inv:
  assumes "nat_inv ne s"
  shows "nat_inv ne (on_sta_got_ip env ip s)"
proof (cases "nr_enabled s \<and> ip \<noteq> nr_sta_ip s")
  case True
  define s1 where "s1 = s\<lparr>nr_sta_ip := ip\<rparr>"
  have "core_inv ne s1" using assms by (simp add: s1_def nat_inv_def core_inv_def live_def rules_def)
  from apply_inv [OF remove_inv [OF this]] have "nat_inv ne (apply_portmap (remove_all_live s1))" by (simp add: nat_inv_def)
  moreover have "on_sta_got_ip env ip s = set_ap_dns env (apply_portmap (remove_all_live s1))"
    using True by (simp add: on_sta_got_ip_def s1_def Let_def)
  ultimately show ?thesis by (simp add: nat_inv_cong [OF core_platform(3)])
next
  case False
  then consider "\<not> nr_enabled s" | "nr_enabled s" "ip = nr_sta_ip s" by blast
  then show ?thesis
  proof cases
    case 1
    then show ?thesis using assms by (simp add: on_sta_got_ip_def nat_inv_def core_inv_def live_def rules_def)
  next
    case 2
    then have "on_sta_got_ip env ip s = set_ap_dns env s" by (simp add: on_sta_got_ip_def)
    then show ?thesis using assms by (simp add: nat_inv_cong [OF core_platform(3)])
  qed
qed

text \<open>A change of the rule for one key, stored, with the calls that make it live.\<close>

lemma change_inv:
  assumes inv: "nat_inv ne s" and tbl: "pm_ok tbl" "pm_lookup tbl = (rules s)(key := v)"
    and s2: "s2 = calls cs (save_portmap ne (s\<lparr>nr_portmap := tbl\<rparr>))"
    and cs: "fold live_step cs (live s) = (live s)(key := map_option (\<lambda>(d, p). (nr_sta_ip s, d, p)) v) \<or> cs = [] \<and> nr_sta_ip s = 0 \<and> v \<noteq> None"
  shows "nat_inv ne s2" "rules s2 = (rules s)(key := v)"
proof -
  define s1 where "s1 = s\<lparr>nr_portmap := tbl\<rparr>"
  have f: "nr_portmap s2 = tbl" "nr_sta_ip s2 = nr_sta_ip s" "nr_enabled s2 = nr_enabled s" "nr_ssid s2 = nr_ssid s" "nr_psk s2 = nr_psk s"
      "nr_nvs s2 = nr_nvs (save_portmap ne s1)" "live s2 = fold live_step cs (live s)"
    by (simp_all add: s2 calls_def save_portmap_def live_def s1_def)
  show r: "rules s2 = (rules s)(key := v)" using tbl(2) f by (simp add: rules_def)
  have d: "\<forall>k. rules s k = None \<longrightarrow> live s k = None" using inv by (simp add: nat_inv_def core_inv_def)
  have "\<forall>k. rules s2 k = None \<longrightarrow> live s2 k = None" using cs d by (cases v) (auto simp: f(7) r)
  moreover have "length (nr_portmap s1) = PORTMAP_MAX" using tbl(1) by (simp add: s1_def pm_ok_def)
  note load = save_portmap_load [OF this, of ne]
  have "pm_ok (load_portmap ne (nr_nvs s2))" using load(1) tbl(1) inv by (auto simp: f s1_def nat_inv_def core_inv_def)
  moreover have "nvs_works ne \<Longrightarrow> load_portmap ne (nr_nvs s2) = nr_portmap s2" using load(2) by (simp add: f s1_def)
  ultimately have "core_inv ne s2" using inv tbl(1) by (simp add: nat_inv_def core_inv_def f)
  moreover have "live_matches s2" if "nr_enabled s2" "nr_sta_ip s2 \<noteq> 0"
  proof -
    have m: "live s = (\<lambda>k. map_option (\<lambda>(d, p). (nr_sta_ip s, d, p)) (rules s k))"
      using inv that by (simp add: nat_inv_def live_matches_def f)
    have c: "fold live_step cs (live s) = (live s)(key := map_option (\<lambda>(d, p). (nr_sta_ip s, d, p)) v)" using cs that by (simp add: f)
    show ?thesis unfolding live_matches_def f r c
    proof
      fix k show "((live s)(key := map_option (\<lambda>(d, p). (nr_sta_ip s, d, p)) v)) k = map_option (\<lambda>(d, p). (nr_sta_ip s, d, p)) (((rules s)(key := v)) k)"
        using fun_cong [OF m, of k] by simp
    qed
  qed
  ultimately show "nat_inv ne s2" by (simp add: nat_inv_def)
qed

lemma delete_inv:
  assumes "nat_inv ne s"
  shows "nat_inv ne (portmap_delete ne key s) \<and> rules (portmap_delete ne key s) = (rules s)(key := None)"
proof (cases "keyed_find entry_valid entry_key (nr_portmap s) key")
  case None
  then have "rules s key = None" by (simp add: rules_def pm_lookup_def keyed_get_def)
  then show ?thesis using None assms by (auto simp: portmap_delete_def fun_eq_iff)
next
  case (Some i)
  define tbl where "tbl = (nr_portmap s)[i := (nr_portmap s ! i)\<lparr>pm_valid := 0\<rparr>]"
  have "pm_ok (nr_portmap s)" using assms by (simp add: nat_inv_def core_inv_def)
  note t = portmap_delete_table [OF this Some, folded tbl_def rules_def]
  have d: "portmap_delete ne key s = calls [Portmap_remove (fst key) (snd key)] (save_portmap ne (s\<lparr>nr_portmap := tbl\<rparr>))"
    using Some by (simp add: portmap_delete_def call_is_calls tbl_def)
  show ?thesis using change_inv [OF assms t d] by simp
qed

lemma add_inv:
  assumes "nat_inv ne s" "portmap_add ne key dest s = Some s'"
  shows "nat_inv ne s' \<and> rules s' = (rules s)(key \<mapsto> dest)"
proof -
  obtain tbl where p: "portmap_put key dest (nr_portmap s) = Some tbl" using assms(2) by (auto simp: portmap_add_def)
  have ok: "pm_ok (nr_portmap s)" using assms by (simp add: nat_inv_def core_inv_def)
  have sta: "nr_sta_ip (save_portmap ne s) = nr_sta_ip s" for s by (simp add: save_portmap_def)
  define cs where "cs = (if nr_sta_ip s \<noteq> 0 then [Portmap_add (fst key) (nr_sta_ip s) (snd key) (fst dest) (snd dest)] else [])"
  have s': "s' = calls cs (save_portmap ne (s\<lparr>nr_portmap := tbl\<rparr>))"
    using assms(2) p by (auto simp: portmap_add_def cs_def sta call_is_calls Let_def) (simp add: calls_def)
  have "pm_ok tbl" "pm_lookup tbl = (rules s)(key := Some dest)" using portmap_put_Some [OF ok p] by (simp_all add: rules_def)
  from change_inv [OF assms(1) this s'] show ?thesis by (auto simp: cs_def split: prod.split)
qed

lemma dom_rules: "dom (pm_lookup tbl) = (\<lambda>i. entry_key (tbl ! i)) ` {i. i < length tbl \<and> entry_valid (tbl ! i)}"
proof -
  have "dom (pm_lookup tbl) = entry_key ` set (filter entry_valid tbl)" 
    by (rule set_eqI) (simp only: pm_lookup_dom dom_def mem_Collect_eq)
  then show ?thesis by (force simp: in_set_conv_nth)
qed

lemma card_rules:
  assumes "pm_ok tbl"
  shows "card (dom (pm_lookup tbl)) = length (filter entry_valid tbl)"
proof -
  have "inj_on (\<lambda>i. entry_key (tbl ! i)) {i. i < length tbl \<and> entry_valid (tbl ! i)}"
    using assms keyed_okD [of entry_valid entry_key tbl] by (intro inj_onI) (simp add: pm_ok_def)
  then show ?thesis by (simp add: dom_rules card_image length_filter_conv_card)
qed

lemma portmap_full:
  assumes "pm_ok tbl"
  shows "portmap_put key dest tbl = None \<longleftrightarrow> pm_lookup tbl key = None \<and> card (dom (pm_lookup tbl)) = PORTMAP_MAX"
proof -
  have "list_all entry_valid tbl \<longleftrightarrow> length (filter entry_valid tbl) = length tbl"
    by (metis filter_True length_filter_less list_all_iff less_irrefl)
  then show ?thesis using assms card_rules [OF assms] unfolding portmap_put_full by (simp add: pm_lookup_def keyed_get_def pm_ok_def)
qed

text \<open>What a port-map request does to the rules, on every branch.\<close>

definition portmap_effect :: "(string \<Rightarrow> u32 option) \<Rightarrow> nat_query option \<Rightarrow> (u8 \<times> u16 \<Rightarrow> (u32 \<times> u16) option) \<Rightarrow>
    string + (u8 \<times> u16 \<Rightarrow> (u32 \<times> u16) option)" where
  "portmap_effect aton query m =
     (case query of
        None \<Rightarrow> Inl ''missing query''
      | Some kv \<Rightarrow>
          (case portmap_key kv of
             Inl e \<Rightarrow> Inl e
           | Inr key \<Rightarrow>
               if portmap_del kv then Inr (m(key := None))
               else case portmap_dest aton kv of
                      Inl e \<Rightarrow> Inl e
                    | Inr dest \<Rightarrow> if m key = None \<and> card (dom m) = PORTMAP_MAX then Inl ''portmap table full'' else Inr (m(key \<mapsto> dest))))"

lemma portmap_post_effect:
  assumes "nat_inv ne s" "portmap_post aton ne q s = (s', r)"
  shows "nat_inv ne s' \<and>
    (case portmap_effect aton (q 160) (rules s) of Inl e \<Rightarrow> r = Http_error 400 e \<and> s' = s | Inr m \<Rightarrow> r = json_ok \<and> rules s' = m)"
proof (cases "q 160")
  case (Some kv)
  note q = Some
  have full: "portmap_add ne key dest s = None \<longleftrightarrow> rules s key = None \<and> card (dom (rules s)) = PORTMAP_MAX" for key dest
    using portmap_full [of "nr_portmap s"] assms(1) by (simp add: portmap_add_def rules_def nat_inv_def core_inv_def)
  show ?thesis
  proof (cases "portmap_key kv")
    case (Inr key)
    show ?thesis
    proof (cases "\<not> portmap_del kv \<and> (\<exists>dest. portmap_dest aton kv = Inr dest)")
      case True
      then obtain dest where d: "portmap_dest aton kv = Inr dest" "\<not> portmap_del kv" by blast
      show ?thesis
      proof (cases "portmap_add ne key dest s")
        case None
        then show ?thesis using assms q Inr d full [of key dest] by (auto simp: portmap_post_def portmap_effect_def)
      next
        case (Some s1)
        then have "portmap_effect aton (q 160) (rules s) = Inr ((rules s)(key \<mapsto> dest))"
          using q Inr d full [of key dest] by (simp add: portmap_effect_def)
        moreover have "s' = s1" "r = json_ok" using assms(2) q Inr d Some by (simp_all add: portmap_post_def)
        ultimately show ?thesis using add_inv [OF assms(1) Some] by simp
      qed
    next
      case False
      then show ?thesis using assms q Inr delete_inv [OF assms(1), of key]
        by (cases "portmap_del kv"; cases "portmap_dest aton kv") (auto simp: portmap_post_def portmap_effect_def)
    qed
  qed (use assms q in \<open>auto simp: portmap_post_def portmap_effect_def\<close>)
qed (use assms in \<open>auto simp: portmap_post_def portmap_effect_def\<close>)

lemma creds_inv:
  assumes "nat_inv ne s" "nat_set_ssid a s = (s1, e1)" "nat_set_psk b s1 = (s2, e2)"
  shows "nat_inv ne s1" "nat_inv ne s2"
proof -
  have k: "length v \<le> 32 \<Longrightarrow> nat_inv ne (s\<lparr>nr_ssid := v\<rparr>)" "length v \<le> 63 \<Longrightarrow> nat_inv ne (s\<lparr>nr_psk := v\<rparr>)" if "nat_inv ne s" for v s
    using that by (auto simp: nat_inv_def core_inv_def live_matches_def live_def rules_def)
  show 1: "nat_inv ne s1" using assms(1,2) k(1) by (auto simp: nat_set_ssid_def split: option.splits if_splits)
  show "nat_inv ne s2" using assms(3) 1 k(2) by (auto simp: nat_set_psk_def split: option.splits if_splits)
qed

lemma saves_inv: "nat_inv ne s \<Longrightarrow> nat_inv ne (save_ap_creds ne s)" "nat_inv ne s \<Longrightarrow> nat_inv ne (save_enabled ne en s)"
proof -
  have l: "live (save_ap_creds ne s) = live s" "live (save_enabled ne en s) = live s" "rules (save_ap_creds ne s) = rules s" "rules (save_enabled ne en s) = rules s"
    by (simp_all add: live_def rules_def save_ap_creds_def save_enabled_def)
  have f: "nr_portmap (save_ap_creds ne s) = nr_portmap s" "nr_portmap (save_enabled ne en s) = nr_portmap s" "nr_sta_ip (save_ap_creds ne s) = nr_sta_ip s"
    "nr_sta_ip (save_enabled ne en s) = nr_sta_ip s" "nr_enabled (save_ap_creds ne s) = nr_enabled s" "nr_enabled (save_enabled ne en s) = nr_enabled s"
    "nr_ssid (save_ap_creds ne s) = nr_ssid s" "nr_ssid (save_enabled ne en s) = nr_ssid s" "nr_psk (save_ap_creds ne s) = nr_psk s" "nr_psk (save_enabled ne en s) = nr_psk s"
    by (simp_all add: save_ap_creds_def save_enabled_def)
  show "nat_inv ne s \<Longrightarrow> nat_inv ne (save_ap_creds ne s)" "nat_inv ne s \<Longrightarrow> nat_inv ne (save_enabled ne en s)"
    by (simp_all add: nat_inv_def core_inv_def live_matches_def l f load_after_saves)
qed

lemma toggle_inv: "nat_inv ne s \<Longrightarrow> nat_inv ne (nat_toggle ne env en s)"
  using ap_up_inv [of ne s env] ap_down_inv [of ne s]
  by (auto simp: nat_toggle_def Let_def nat_inv_def [of ne s] intro: saves_inv split: option.splits)

lemma nat_post_inv: "nat_inv ne s \<Longrightarrow> nat_inv ne (fst (nat_post ne env q s))"
proof -
  assume inv: "nat_inv ne s"
  have conf: "nat_inv ne (configure_ap env s)" if "nat_inv ne s" for s using that by (simp add: nat_inv_cong [OF core_platform(2)])
  show ?thesis
    unfolding nat_post_def Let_def
    by (auto split: option.split prod.split intro: inv creds_inv [OF inv] intro!: toggle_inv conf saves_inv dest: creds_inv(2) [OF inv])
qed

lemma start_inv:
  assumes "pm_ok (load_portmap ne n)"
  shows "nat_inv ne (nat_start ne env (nat_globals n))"
proof -
  define s1 where "s1 = load_ap_creds ne (nat_globals n)"
  have l: "length (nr_ssid s1) \<le> 32" "length (nr_psk s1) \<le> 63" "nr_calls s1 = []" "nr_nvs s1 = n"
    by (auto simp: s1_def load_ap_creds_def nat_globals_def Let_def split: option.split)
  define s2 where "s2 = s1\<lparr>nr_portmap := load_portmap ne n, nr_enabled := load_enabled ne n\<rparr>"
  define s3 where "s3 = (case ve_sta_ip env of Some ip \<Rightarrow> s2\<lparr>nr_sta_ip := ip\<rparr> | None \<Rightarrow> s2)"
  have "core_inv ne s3" using assms l by (auto simp: s3_def s2_def core_inv_def live_def split: option.split)
  moreover have "nat_start ne env (nat_globals n) = (if nr_enabled s3 then ap_up env s3 else s3)"
    by (cases "ve_sta_ip env") (simp_all add: nat_start_def s3_def s2_def s1_def [symmetric] l Let_def)
  ultimately show ?thesis using ap_up_inv [of ne s3 env] by (simp add: nat_inv_def)
qed

lemma event_inv: "nat_inv ne s \<Longrightarrow> nat_inv ne (nat_event_step aton ne ev s)"
proof (cases ev)
  case (Ev_portmap_post q)
  assume inv: "nat_inv ne s"
  obtain s' r where p: "portmap_post aton ne q s = (s', r)" by fastforce
  from portmap_post_effect [OF inv p] show ?thesis by (simp add: Ev_portmap_post p)
next
  case (Ev_forward n dest)
  assume inv: "nat_inv ne s"
  have "nat_core (fst (nbp_ip4_canforward n dest s)) = nat_core s" "nr_enabled (fst (nbp_ip4_canforward n dest s)) = nr_enabled s"
    by (auto simp: nbp_ip4_canforward_def split: option.split)
  from nat_inv_cong [OF this] inv show ?thesis by (simp add: Ev_forward)
next
  case Ev_ota_pause
  assume "nat_inv ne s"
  then show ?thesis using ap_down_inv [of ne "s\<lparr>nr_ota_resume := nr_enabled s\<rparr>"]
    by (auto simp: Ev_ota_pause nat_pause_for_ota_def Let_def nat_inv_def core_inv_cong [OF core_update(5)] live_matches_cong [OF core_update(5)])
next
  case (Ev_ota_resume env)
  assume inv: "nat_inv ne s"
  have "nat_inv ne (if nr_ota_resume s then ap_up env s else s)" using inv ap_up_inv [of ne s] by (simp add: nat_inv_def)
  then show ?thesis using nat_inv_cong [OF core_update(5)] by (simp add: Ev_ota_resume nat_resume_after_ota_def Let_def)
next
  case (Ev_reboot env)
  assume "nat_inv ne s"
  then have "pm_ok (load_portmap ne (nr_nvs s))" by (simp add: nat_inv_def core_inv_def)
  from start_inv [OF this] show ?thesis by (simp add: Ev_reboot)
qed (simp_all add: nat_post_inv got_ip_inv)

lemma reach_inv: "nat_reach aton ne s \<Longrightarrow> nat_inv ne s"
proof (induction rule: nat_reach.induct)
  case (nat_boot n env)
  then have "load_portmap ne n = replicate PORTMAP_MAX empty_entry" by (simp add: load_portmap_def nvs_read_def)
  then show ?case by (simp add: start_inv pm_empty_ok)
qed (rule event_inv)

section \<open>Properties\<close>

lemma nat_start_portmap: "nr_portmap (nat_start ne env (nat_globals n)) = load_portmap ne n"
proof -
  have up: "nr_portmap (ap_up env s) = nr_portmap s" for s using nat_coreD(1) [OF core_ap_up, of env s] by simp
  have "nr_nvs (load_ap_creds ne (nat_globals n)) = n" by (auto simp: load_ap_creds_def nat_globals_def Let_def split: option.split)
  then show ?thesis by (cases "ve_sta_ip env") (simp_all add: nat_start_def Let_def up)
qed

text \<open>C30: Port forwarding is what the rules say. In every state the router can reach, through any requests, address changes, updates
  and reboots, the translation table holds nothing but stored rules; whenever the access point is on and the
  station has an address, it holds exactly the rules, each from the station's current address; and while the store works, a
  reboot finds the same rules.\<close>

theorem portmap_live:
  assumes "nat_reach aton ne s"
  shows "(\<forall>k. rules s k = None \<longrightarrow> live s k = None) \<and>
    (nr_enabled s \<and> nr_sta_ip s \<noteq> 0 \<longrightarrow> live s = (\<lambda>k. map_option (\<lambda>(d, p). (nr_sta_ip s, d, p)) (rules s k))) \<and>
    (nvs_works ne \<longrightarrow> rules (nat_start ne env (nat_globals (nr_nvs s))) = rules s)"
proof -
  have inv: "nat_inv ne s" by (rule reach_inv [OF assms])
  have "nr_portmap (nat_start ne env (nat_globals n)) = load_portmap ne n" for n by (rule nat_start_portmap)
  then have "nvs_works ne \<longrightarrow> rules (nat_start ne env (nat_globals (nr_nvs s))) = rules s"
    using inv by (simp add: rules_def nat_inv_def core_inv_def)
  then show ?thesis using inv unfolding nat_inv_def core_inv_def live_matches_def by blast
qed

text \<open>C31: Port-map requests refine updates of a map with room for 16 rules: on every reachable state a request is refused with the
  400 reply of \<open>portmap_effect\<close> and changes nothing at all, or is accepted and the rules become exactly those it gives: the rule of the
  requested protocol and external port deleted or set, every other one kept. Want of room is the reason only when 16 other ports have rules.\<close>

theorem portmap_post_refines:
  assumes "nat_reach aton ne s" "portmap_post aton ne q s = (s', r)"
  shows "case portmap_effect aton (q 160) (rules s) of
      Inl e \<Rightarrow> r = Http_error 400 e \<and> s' = s
    | Inr m \<Rightarrow> r = json_ok \<and> rules s' = m \<and> nat_reach aton ne s'"
proof -
  have "nat_reach aton ne s'" using nat_next [OF assms(1), of "Ev_portmap_post q"] assms(2) by simp
  then show ?thesis using portmap_post_effect [OF reach_inv [OF assms(1)] assms(2)] by (auto split: sum.splits)
qed

section \<open>The reply\<close>

lemma length_ip: "length (ip_to_str net) \<le> 15"
  using snprintf_text_length [of 16] by (simp add: ip_to_str_def less_Suc_eq_le numeral_eq_Suc)

lemma octet_less: "octet net k < 256"
proof -
  have "drop_bit (8 * k) net AND 0xFF = take_bit 8 (drop_bit (8 * k) net)" by (simp add: take_bit_eq_mask mask_eq_exp_minus_1)
  then show ?thesis by (simp add: octet_def unsigned_take_bit_eq take_bit_eq_mod [where ?'a = nat])
qed

lemma ip_complete:
  "ip_to_str net = show_nat (octet net 0) @ ''.'' @ show_nat (octet net 1) @ ''.'' @ show_nat (octet net 2) @ ''.'' @ show_nat (octet net 3)"
proof -
  have "length (show_nat (octet net k)) \<le> 3" for k using octet_less [of net k] by (intro length_show_nat) auto
  from this [of 0] this [of 1] this [of 2] this [of 3] show ?thesis by (simp add: ip_to_str_def)
qed

definition json_escape :: "string \<Rightarrow> string" where
  "json_escape s = concat (map (\<lambda>c. if c = CHR 0x22 \<or> c = CHR 0x5C then [CHR 0x5C, c] else [c]) s)"

lemma json_escape_length: "length (json_escape s) \<le> 2 * length s"
  by (induction s) (auto simp: json_escape_def)

lemma escape_complete: "length esc + 2 * length s \<le> 62 \<Longrightarrow> escape_host s esc = esc @ json_escape s"
  by (induction s arbitrary: esc) (auto simp: json_escape_def)

lemma out_printf_exact: "length txt + length s < cap \<Longrightarrow> out_printf cap s (txt, length txt) = Some (txt @ s, length (txt @ s))"
  by (simp add: out_printf_def)

lemma host_length: "length (fst (dhcps_hostname_lookup mac 32 t)) \<le> 31"
  by (simp add: dhcps_hostname_lookup_def split: option.split)

lemma show_rssi_length: "- 128 \<le> r \<Longrightarrow> r \<le> 127 \<Longrightarrow> length (show_int r) \<le> 4"
proof -
  assume "- 128 \<le> r" "r \<le> 127"
  then have "length (show_nat (nat r)) \<le> 3" "length (show_nat (nat (- r))) \<le> 3" by (auto intro!: length_show_nat)
  then show ?thesis by (simp add: show_int_def)
qed

lemma mac_text_length: "length (mac_text mac) = 17"
  by (simp add: mac_text_def hex_byte_lower_def)

definition rssi_ok :: "u8 list \<times> int \<Rightarrow> bool" where
  "rssi_ok st \<longleftrightarrow> - 128 \<le> snd st \<and> snd st \<le> 127"

lemma station_row_length: "rssi_ok st \<Longrightarrow> length (station_row env first st) \<le> 139"
proof -
  assume r: "rssi_ok st"
  define host where "host = fst (dhcps_hostname_lookup (fst st) 32 (ve_names env))"
  have h: "length host \<le> 31" by (simp add: host_def host_length)
  then have "escape_host host [] = json_escape host" by (simp add: escape_complete)
  then have "length (escape_host host []) \<le> 62" using json_escape_length [of host] h by simp
  then show ?thesis
    using show_rssi_length [of "snd st"] length_ip [of "lease_of (ve_leases env) (fst st)"] r
    by (simp add: station_row_def host_def mac_text_length rssi_ok_def split_beta Let_def)
qed

lemma portmap_row_length: "length (portmap_row first e) \<le> 71"
proof -
  have "length (show_nat (unat w)) \<le> 5" for w :: u16 using unsigned_less [of w, where ?'a = nat] by (intro length_show_nat) auto
  from this [of "pm_mport e"] this [of "pm_dport e"] length_ip [of "pm_daddr e"] show ?thesis by (simp add: portmap_row_def)
qed

fun stations_text :: "nat_env \<Rightarrow> bool \<Rightarrow> (u8 list \<times> int) list \<Rightarrow> string" where
  "stations_text env first [] = []"
| "stations_text env first (st # sts) = station_row env first st @ stations_text env False sts"

fun portmaps_text :: "bool \<Rightarrow> portmap_entry list \<Rightarrow> string" where
  "portmaps_text first [] = []"
| "portmaps_text first (e # es) = portmap_row first e @ portmaps_text False es"

lemma stations_text_length: "list_all rssi_ok sts \<Longrightarrow> length (stations_text env first sts) \<le> 139 * length sts"
proof (induction env first sts rule: stations_text.induct)
  case (2 env first st sts)
  then show ?case using station_row_length [of st env first] by simp
qed simp

lemma portmaps_text_length: "length (portmaps_text first es) \<le> 71 * length es"
proof (induction first es rule: portmaps_text.induct)
  case (2 first e es)
  then show ?case using portmap_row_length [of first e] by simp
qed simp

lemma station_rows_exact:
  "list_all rssi_ok sts \<Longrightarrow> length tx + 139 * length sts + 160 < cap \<Longrightarrow>
   station_rows env cap first sts (tx, length tx) = Some (tx @ stations_text env first sts, length (tx @ stations_text env first sts))"
proof (induction sts arbitrary: tx first)
  case (Cons st sts)
  define row where "row = station_row env first st"
  have r: "length row \<le> 139" using Cons.prems(1) station_row_length [of st env first] by (simp add: row_def)
  then have p: "out_printf cap row (tx, length tx) = Some (tx @ row, length (tx @ row))" using Cons.prems(2) by (intro out_printf_exact) simp
  have "station_rows env cap False sts (tx @ row, length (tx @ row)) =
      Some ((tx @ row) @ stations_text env False sts, length ((tx @ row) @ stations_text env False sts))"
    using Cons.prems r by (intro Cons.IH) auto
  with p show ?case using Cons.prems(2) by (simp add: row_def)
qed simp

lemma portmap_rows_exact:
  "length tx + 71 * length es + 96 < cap \<Longrightarrow>
   portmap_rows cap first es (tx, length tx) =
     Some (tx @ portmaps_text first (filter entry_valid es), length (tx @ portmaps_text first (filter entry_valid es)))"
proof (induction es arbitrary: tx first)
  case (Cons e es)
  define row where "row = portmap_row first e"
  have r: "length row \<le> 71" using portmap_row_length by (simp add: row_def)
  then have p: "out_printf cap row (tx, length tx) = Some (tx @ row, length (tx @ row))" using Cons.prems by (intro out_printf_exact) simp
  have "portmap_rows cap False es (tx @ row, length (tx @ row)) =
      Some ((tx @ row) @ portmaps_text False (filter entry_valid es), length ((tx @ row) @ portmaps_text False (filter entry_valid es)))"
    using Cons.prems r by (intro Cons.IH) simp
  with p show ?case using Cons by (simp add: row_def)
qed simp

lemma nat_head_length:
  assumes "length (nr_ssid s) \<le> 32" "length (ve_stations env) \<le> 10"
  shows "length (nat_head env s) \<le> 200"
proof -
  have "length (show_nat (length (ve_stations env))) \<le> 2" "length (show_nat AP_MAX_CONN) \<le> 1"
    using assms by (auto intro!: length_show_nat simp: AP_MAX_CONN_def)
  then show ?thesis
    using assms length_ip [of "if nr_ap s then ve_ap_ip env else 0"] length_ip [of "nr_sta_ip s"] by (auto simp: nat_head_def)
qed

text \<open>The text as one would write it with room to spare.\<close>

definition nat_text :: "nat_env \<Rightarrow> nat_state \<Rightarrow> string" where
  "nat_text env s =
     nat_head env s @ ''\"stations\":['' @ stations_text env True (ve_stations env) @ ''],\"portmaps\":['' @
     portmaps_text True (filter entry_valid (nr_portmap s)) @ '']}''"

text \<open>C32: The router's status reply is complete: whatever the credentials, the rules and the host names, with the at most ten stations
  the access point can have, no row is left out, nothing is cut at the end of the buffer of 3072 bytes and no more bytes are sent
  than were written. Addresses are printed in full and every quote and backslash of a host name is escaped.\<close>

theorem nat_reply_complete:
  assumes "nat_reach aton ne s" "length (ve_stations env) \<le> 10" "list_all rssi_ok (ve_stations env)"
  shows "nat_get env s = Some (Http_ok ''application/json'' (nat_text env s)) \<and>
    escape_host (fst (dhcps_hostname_lookup mac 32 (ve_names env))) [] = json_escape (fst (dhcps_hostname_lookup mac 32 (ve_names env)))"
proof -
  have inv: "length (nr_ssid s) \<le> 32" "length (nr_portmap s) = 16"
    using reach_inv [OF assms(1)] by (simp_all add: nat_inv_def core_inv_def pm_ok_def PORTMAP_MAX_def)
  define h where "h = nat_head env s"
  define st where "st = stations_text env True (ve_stations env)"
  define pm where "pm = portmaps_text True (filter entry_valid (nr_portmap s))"
  have hl: "length h \<le> 200" unfolding h_def by (rule nat_head_length [OF inv(1) assms(2)])
  have sl: "length st \<le> 1390" using stations_text_length [OF assms(3), of env True] assms(2) by (simp add: st_def)
  have "length (filter entry_valid (nr_portmap s)) \<le> 16" using inv(2) length_filter_le [of entry_valid "nr_portmap s"] by simp
  then have pl: "length pm \<le> 1136" using portmaps_text_length [of True "filter entry_valid (nr_portmap s)"] by (simp add: pm_def)
  define t1 where "t1 = h @ ''\"stations\":[''"
  define t2 where "t2 = t1 @ st @ '']''"
  define t3 where "t3 = t2 @ '',\"portmaps\":[''"
  have l: "length t1 \<le> 212" "length t2 \<le> 1603" "length t3 \<le> 1616" using hl sl by (simp_all add: t1_def t2_def t3_def)
  have 1: "out_printf 3072 h ([], 0) = Some (h, length h)" using out_printf_exact [of "[]" h 3072] hl by simp
  have 2: "out_printf 3072 ''\"stations\":['' (h, length h) = Some (t1, length t1)"
    unfolding t1_def by (rule out_printf_exact) (use hl in simp)
  have 3: "station_rows env 3072 True (ve_stations env) (t1, length t1) = Some (t1 @ st, length (t1 @ st))"
    unfolding st_def by (rule station_rows_exact [OF assms(3)]) (use assms(2) l in simp)
  have 4: "out_printf 3072 '']'' (t1 @ st, length (t1 @ st)) = Some (t2, length t2)"
    using out_printf_exact [of "t1 @ st" "'']''" 3072] l sl by (simp add: t2_def)
  have 5: "out_printf 3072 '',\"portmaps\":['' (t2, length t2) = Some (t3, length t3)"
    unfolding t3_def by (rule out_printf_exact) (use l in simp)
  have 6: "portmap_rows 3072 True (nr_portmap s) (t3, length t3) = Some (t3 @ pm, length (t3 @ pm))"
    unfolding pm_def by (rule portmap_rows_exact) (use inv l in simp)
  have 7: "out_printf 3072 '']}'' (t3 @ pm, length (t3 @ pm)) = Some ((t3 @ pm) @ '']}'', length ((t3 @ pm) @ '']}''))"
    by (rule out_printf_exact) (use l pl in simp)
  have "nat_get env s = Some (Http_ok ''application/json'' ((t3 @ pm) @ '']}''))"
    unfolding nat_get_def append_stations_json_def h_def [symmetric] 1 2 3 4 5 6 7 Option.bind.simps by simp
  moreover have "(t3 @ pm) @ '']}'' = nat_text env s"
    by (simp add: t3_def t2_def t1_def nat_text_def h_def st_def pm_def)
  ultimately show ?thesis using escape_complete [of "[]"] host_length [of mac] by simp
qed

section \<open>Refused and odd requests\<close>

text \<open>A request that changes both credentials is not all or nothing: with an acceptable name and a password of the wrong length it is
  answered by 400, yet the new name is in force in memory (and not stored).\<close>

theorem nat_post_partial:
  assumes "q 160 = Some kv" "kv ''ssid'' 33 = Some v" "1 \<le> length v" "length v \<le> 32" "kv ''psk'' 64 = Some p" "0 < length p" "length p < 8"
  shows "nat_post ne env q s = (s\<lparr>nr_ssid := v\<rparr>, Http_error 400 ''psk must be empty or 8..63 chars'')"
  using assms by (auto simp: nat_post_def nat_set_ssid_def nat_set_psk_def)

text \<open>A name of 32 characters, which the handler accepts, reaches the driver cut to 31 with the length still 32.\<close>

theorem long_ssid_cut:
  assumes "length (nr_ssid s) = 32"
  shows "ac_ssid (ap_config_of env s) = butlast (nr_ssid s) \<and> ac_ssid_len (ap_config_of env s) = 32"
  using assms by (simp add: ap_config_of_def butlast_conv_take)

text \<open>A rule added while the access point is off becomes live all the same.\<close>

theorem added_while_off:
  assumes "nat_inv ne s" "\<not> nr_enabled s" "nr_sta_ip s \<noteq> 0" "portmap_add ne key dest s = Some s'"
  shows "\<not> nr_enabled s' \<and> live s' key = Some (nr_sta_ip s, fst dest, snd dest)"
proof -
  obtain tbl where "s' = calls [Portmap_add (fst key) (nr_sta_ip s) (snd key) (fst dest) (snd dest)] (save_portmap ne (s\<lparr>nr_portmap := tbl\<rparr>))"
    using assms(3,4) by (auto simp: portmap_add_def save_portmap_def call_is_calls Let_def)
  then show ?thesis using assms(2) by (simp add: live_def calls_def save_portmap_def)
qed

section \<open>Throughput\<close>

definition in_ap_net :: "u32 \<Rightarrow> bool" where
  "in_ap_net dest \<longleftrightarrow> dest AND 0xFFFFFF00 = 0xC0A80400"

fun forward_all :: "(u16 \<times> u32) list \<Rightarrow> nat_state \<Rightarrow> nat_state" where
  "forward_all [] s = s"
| "forward_all ((n, dest) # ps) s = forward_all ps (fst (nbp_ip4_canforward (Some n) dest s))"

definition bytes_where :: "(u32 \<Rightarrow> bool) \<Rightarrow> (u16 \<times> u32) list \<Rightarrow> u64" where
  "bytes_where P ps = sum_list (map (\<lambda>(n, dest). if P dest then ucast n else 0) ps)"

lemma ap_net_words: "ntohl AP_NETMASK = 0xFFFFFF00" "ntohl AP_IP AND ntohl AP_NETMASK = 0xC0A80400"
  by code_simp+

lemma forward_counts:
  "nr_mask_host s = 0xFFFFFF00 \<Longrightarrow> nr_net_host s = 0xC0A80400 \<Longrightarrow>
   nr_down_bytes (forward_all ps s) = nr_down_bytes s + bytes_where in_ap_net ps \<and>
   nr_up_bytes (forward_all ps s) = nr_up_bytes s + bytes_where (\<lambda>d. \<not> in_ap_net d) ps"
proof (induction ps s rule: forward_all.induct)
  case (2 n dest ps s)
  then show ?case
    by (simp add: nbp_ip4_canforward_def in_ap_net_def bytes_where_def)
qed (simp add: bytes_where_def)

lemma create_ap_net: "nr_mask_host (create_ap s) = 0xFFFFFF00" "nr_net_host (create_ap s) = 0xC0A80400"
  using ap_net_words by (simp_all add: create_ap_def)

text \<open>Once the access point has been created, the counters tell the two directions apart: after any forwarded datagrams the downlink
  counter has grown by the bytes of those to 192.168.4.0/24 and the uplink counter by the bytes of all others, modulo 2^64.\<close>

theorem throughput_exact:
  "get_ap_throughput (forward_all ps (create_ap s)) =
     (nr_up_bytes s + bytes_where (\<lambda>d. \<not> in_ap_net d) ps, nr_down_bytes s + bytes_where in_ap_net ps)"
  using forward_counts [OF create_ap_net, of ps] by (simp add: get_ap_throughput_def) (simp add: create_ap_def calls_def)

section \<open>Witnesses\<close>

definition nat_good_env :: nat_env where
  "nat_good_env = \<lparr>ve_channel = 6, ve_sta_dns = Some 1, ve_sta_ip = Some 0x0A01A8C0, ve_netif_up = (\<lambda>_. True), ve_napt_ok = (\<lambda>_. True),
     ve_ap_ip = AP_IP, ve_stations = [([1, 2, 3, 4, 5, 6], - 40)], ve_leases = [([1, 2, 3, 4, 5, 6], 0x0204A8C0)], ve_names = hn_initial\<rparr>"

definition nat_booted :: nat_state where
  "nat_booted = nat_start good_nvs nat_good_env (nat_globals (\<lambda>_ _. None))"

definition web_rule :: "nat \<Rightarrow> nat_query option" where
  "web_rule n = Some (\<lambda>k m. if k = ''proto'' then Some ''tcp'' else if k = ''mport'' then Some ''8080''
     else if k = ''daddr'' then Some ''192.168.4.2'' else if k = ''dport'' then Some ''80'' else None)"

definition web_aton :: "string \<Rightarrow> u32 option" where
  "web_aton a = (if a = ''192.168.4.2'' then Some 0x0204A8C0 else None)"

lemma nat_booted_facts: "nat_reach aton good_nvs nat_booted" "nr_enabled nat_booted" "nr_sta_ip nat_booted = 0x0A01A8C0"
  "nr_portmap nat_booted = replicate 16 empty_entry"
proof -
  show "nat_reach aton good_nvs nat_booted" unfolding nat_booted_def by (rule nat_boot) simp
  define s where "s = (load_ap_creds good_nvs (nat_globals (\<lambda>_ _. None)))\<lparr>nr_portmap := replicate 16 empty_entry, nr_enabled := True, nr_sta_ip := 0x0A01A8C0\<rparr>"
  have b: "nat_booted = ap_up nat_good_env s"
    by (simp add: nat_booted_def nat_start_def s_def Let_def nat_good_env_def load_enabled_def load_portmap_def nvs_gets load_ap_creds_def nat_globals_def
      good_nvs_def PORTMAP_MAX_def)
  show "nr_enabled nat_booted" by (simp add: b)
  show "nr_sta_ip nat_booted = 0x0A01A8C0" "nr_portmap nat_booted = replicate 16 empty_entry"
    using nat_coreD(1,2) [OF core_ap_up, of nat_good_env s] by (simp_all add: b s_def)
qed

lemma web_rule_accepted:
  "portmap_post web_aton good_nvs web_rule nat_booted = (nat_event_step web_aton good_nvs (Ev_portmap_post web_rule) nat_booted, json_ok)"
  "portmap_key (the (web_rule 160)) = Inr (6, 8080)" "portmap_dest web_aton (the (web_rule 160)) = Inr (0x0204A8C0, 80)"
proof -
  have n: "c_atoi ''8080'' = 8080" "c_atoi ''80'' = 80" by code_simp+
  show k: "portmap_key (the (web_rule 160)) = Inr (6, 8080)" "portmap_dest web_aton (the (web_rule 160)) = Inr (0x0204A8C0, 80)"
    by (simp_all add: portmap_key_def portmap_dest_def web_rule_def web_aton_def n PROTO_TCP_def)
  have "keyed_slot entry_valid entry_key (nr_portmap nat_booted) (6, 8080) = Some 0"
    by (simp add: nat_booted_facts keyed_slot_def keyed_find_def empty_entry_def entry_valid_def entry_key_def numeral_eq_Suc)
  then obtain s' where "portmap_add good_nvs (6, 8080) (0x0204A8C0, 80) nat_booted = Some s'" by (auto simp: portmap_add_def portmap_put_def)
  then show "portmap_post web_aton good_nvs web_rule nat_booted = (nat_event_step web_aton good_nvs (Ev_portmap_post web_rule) nat_booted, json_ok)"
    using k by (simp add: portmap_post_def portmap_del_def web_rule_def)
qed

theorem portmap_live_witness:
  "nr_enabled nat_booted \<and> live nat_booted = (\<lambda>k. map_option (\<lambda>(d, p). (0x0A01A8C0, d, p)) (rules nat_booted k))"
  using portmap_live [OF nat_booted_facts(1)] nat_booted_facts(2,3) by simp

theorem portmap_post_refines_witness:
  "\<exists>s'. portmap_post web_aton good_nvs web_rule nat_booted = (s', json_ok) \<and> rules s' (6, 8080) = Some (0x0204A8C0, 80)"
proof -
  define s' where "s' = nat_event_step web_aton good_nvs (Ev_portmap_post web_rule) nat_booted"
  have p: "portmap_post web_aton good_nvs web_rule nat_booted = (s', json_ok)" unfolding s'_def by (rule web_rule_accepted(1))
  have "\<not> portmap_del (the (web_rule 160))" by (simp add: portmap_del_def web_rule_def)
  moreover have "card (dom (rules nat_booted)) = 0"
    by (simp add: rules_def nat_booted_facts dom_rules empty_entry_def entry_valid_def)
  ultimately have "portmap_effect web_aton (web_rule 160) (rules nat_booted) = Inr ((rules nat_booted)((6, 8080) \<mapsto> (0x0204A8C0, 80)))"
    using web_rule_accepted(2,3) by (simp add: portmap_effect_def web_rule_def PORTMAP_MAX_def)
  with portmap_post_refines [OF nat_booted_facts(1) p] p show ?thesis by auto
qed

theorem nat_reply_complete_witness:
  "nat_get nat_good_env nat_booted = Some (Http_ok ''application/json'' (nat_text nat_good_env nat_booted))"
  using nat_reply_complete [OF nat_booted_facts(1), of nat_good_env] by (simp add: nat_good_env_def rssi_ok_def)

end
