(* ===== verification/Wifi_Sta.thy ===== *)
theory Wifi_Sta
  imports Serial_Provision Stats_Settings Handshake
begin

text \<open>
  The Wi-Fi station and its provisioning fallback, \<^verbatim>\<open>components/wifi_sta/wifi_sta.cpp\<close>: credentials from the store or
  compiled in, the configuration handed to the driver, the event handlers, the bounded wait for an address, and the
  access point with a form that takes new credentials. Calls into the driver are recorded in order. Built with the fallback
  (the repository's default).
\<close>

section \<open>Credentials and configuration\<close>

definition NVS_WIFI_NS :: string where "NVS_WIFI_NS = ''wifi''"
definition DEFAULT_WIFI_LI :: int where "DEFAULT_WIFI_LI = 0"
definition SETUP_AP_CHANNEL :: u8 where "SETUP_AP_CHANNEL = 1"
definition SETUP_AP_MAX_CONN :: u8 where "SETUP_AP_MAX_CONN = 2"

definition read_listen_interval_from_nvs :: "nvs_env \<Rightarrow> nvs \<Rightarrow> int" where
  "read_listen_interval_from_nvs ne n =
     (case get_i8 ne NVS_NS ''wifi_li'' n of
        None \<Rightarrow> DEFAULT_WIFI_LI
      | Some v \<Rightarrow> if v < 0 \<or> v > 10 then DEFAULT_WIFI_LI else v)"

definition read_creds_from_nvs :: "nvs_env \<Rightarrow> nat \<Rightarrow> nat \<Rightarrow> nvs \<Rightarrow> (string \<times> string) option" where
  "read_creds_from_nvs ne ssid_cap psk_cap n =
     (case get_str ne NVS_WIFI_NS ''ssid'' ssid_cap n of
        None \<Rightarrow> None
      | Some ssid \<Rightarrow> if ssid = [] then None
                     else Some (ssid, case get_str ne NVS_WIFI_NS ''psk'' psk_cap n of Some psk \<Rightarrow> psk | None \<Rightarrow> []))"

record sta_config =
  sc_ssid :: string
  sc_password :: string
  sc_wpa2 :: bool
  sc_listen_interval :: u16

record setup_config =
  su_ssid :: string
  su_ssid_len :: u8
  su_channel :: u8
  su_max_connection :: u8

datatype wifi_call =
    Wifi_connect
  | Wifi_mode_sta
  | Wifi_set_config sta_config
  | Wifi_start
  | Wifi_ps bool
  | Wifi_stop
  | Wifi_create_ap
  | Wifi_mode_ap
  | Wifi_set_setup setup_config

record wifi_sta =
  wf_connected :: bool
  wf_got_ip :: bool
  wf_calls :: "wifi_call list"

definition wifi_calls :: "wifi_call list \<Rightarrow> wifi_sta \<Rightarrow> wifi_sta" where
  "wifi_calls cs w = w\<lparr>wf_calls := wf_calls w @ cs\<rparr>"

section \<open>Events\<close>

datatype wifi_event = WIFI_EVENT_STA_START | WIFI_EVENT_STA_DISCONNECTED | WIFI_EVENT_OTHER | IP_EVENT_STA_GOT_IP

definition on_wifi_event :: "wifi_event \<Rightarrow> wifi_sta \<Rightarrow> wifi_sta" where
  "on_wifi_event ev w =
     (if ev = WIFI_EVENT_STA_START then wifi_calls [Wifi_connect] w
      else if ev = WIFI_EVENT_STA_DISCONNECTED then wifi_calls [Wifi_connect] (w\<lparr>wf_connected := False\<rparr>)
      else w)"

definition on_ip_event :: "wifi_event \<Rightarrow> wifi_sta \<Rightarrow> wifi_sta" where
  "on_ip_event ev w = (if ev = IP_EVENT_STA_GOT_IP then w\<lparr>wf_connected := True, wf_got_ip := True\<rparr> else w)"

definition wifi_handle :: "wifi_event \<Rightarrow> wifi_sta \<Rightarrow> wifi_sta" where
  "wifi_handle ev w = (if ev = IP_EVENT_STA_GOT_IP then on_ip_event ev w else on_wifi_event ev w)"

definition is_connected :: "wifi_sta \<Rightarrow> bool" where
  "is_connected w = wf_connected w"

section \<open>The setup access point\<close>

definition compose_ap_ssid :: "string \<Rightarrow> u8 list \<Rightarrow> nat \<Rightarrow> string" where
  "compose_ap_ssid hostname mac cap = snprintf_text cap (hostname @ ''-setup-'' @ hex_byte (mac ! 4) @ hex_byte (mac ! 5))"

text \<open>The device stays here until a request restarts it; the result is whether the form is served.\<close>

definition enter_ap_provisioning :: "string \<Rightarrow> u8 list \<Rightarrow> bool \<Rightarrow> wifi_sta \<Rightarrow> wifi_sta \<times> bool" where
  "enter_ap_provisioning hostname mac httpd_ok w =
     (let ssid = compose_ap_ssid hostname mac 33;
          ap = \<lparr>su_ssid = take 31 ssid, su_ssid_len = of_nat (length ssid), su_channel = SETUP_AP_CHANNEL, su_max_connection = SETUP_AP_MAX_CONN\<rparr>
      in (wifi_calls [Wifi_stop, Wifi_create_ap, Wifi_mode_ap, Wifi_set_setup ap, Wifi_start] w, httpd_ok))"

datatype wifi_outcome = Station_up | Provisioning bool

definition station_config :: "string \<times> string \<Rightarrow> int \<Rightarrow> sta_config" where
  "station_config creds li =
     \<lparr>sc_ssid = fst creds, sc_password = snd creds, sc_wpa2 = (snd creds \<noteq> []), sc_listen_interval = word_of_int (if li > 0 then li else 0)\<rparr>"

text \<open>\<open>compiled\<close> are the credentials of the build, \<open>events\<close> what happens before the wait ends.\<close>

definition boot_creds :: "nvs_env \<Rightarrow> string \<times> string \<Rightarrow> nvs \<Rightarrow> string \<times> string" where
  "boot_creds ne compiled n =
     (case read_creds_from_nvs ne 33 65 n of Some c \<Rightarrow> c | None \<Rightarrow> (take 32 (fst compiled), take 64 (snd compiled)))"

definition start_and_wait_for_ip ::
  "nvs_env \<Rightarrow> string \<times> string \<Rightarrow> string \<Rightarrow> u8 list \<Rightarrow> bool \<Rightarrow> wifi_event list \<Rightarrow> nvs \<Rightarrow> wifi_sta \<times> wifi_outcome" where
  "start_and_wait_for_ip ne compiled hostname mac httpd_ok events n =
     (let w = \<lparr>wf_connected = False, wf_got_ip = False, wf_calls = []\<rparr>;
          creds = boot_creds ne compiled n
      in if fst creds = [] then (case enter_ap_provisioning hostname mac httpd_ok w of (w, ok) \<Rightarrow> (w, Provisioning ok))
         else let li = read_listen_interval_from_nvs ne n;
                  w = wifi_calls [Wifi_mode_sta, Wifi_set_config (station_config creds li), Wifi_start, Wifi_ps (li > 0)] w;
                  w = fold wifi_handle events w
              in if wf_got_ip w then (w, Station_up)
                 else (case enter_ap_provisioning hostname mac httpd_ok w of (w, ok) \<Rightarrow> (w, Provisioning ok)))"

section \<open>The form\<close>

definition form_is_hex_string :: "string \<Rightarrow> bool" where
  "form_is_hex_string s = list_all is_xdigit s"

definition hex_value :: "char \<Rightarrow> nat option" where
  "hex_value c =
     (let n = of_char c in
      if 48 \<le> n \<and> n \<le> 57 then Some (n - 48)
      else if 97 \<le> n \<and> n \<le> 102 then Some (10 + n - 97)
      else if 65 \<le> n \<and> n \<le> 70 then Some (10 + n - 65) else None)"

text \<open>The value of a field, decoded into the \<open>room\<close> characters the buffer has before its terminator.\<close>

fun form_decode :: "nat \<Rightarrow> string \<Rightarrow> string" where
  "form_decode 0 q = []"
| "form_decode (Suc room) [] = []"
| "form_decode (Suc room) (c # q) =
     (if c = CHR ''+'' then CHR '' '' # form_decode room q
      else case (if c = CHR ''%'' then (case q of h # l # r \<Rightarrow> (case (hex_value h, hex_value l) of (Some hi, Some lo) \<Rightarrow> Some (char_of (16 * hi + lo), r) | _ \<Rightarrow> None) | _ \<Rightarrow> None) else None) of
             Some (d, r) \<Rightarrow> d # form_decode room r
           | None \<Rightarrow> c # form_decode room q)"

function form_find :: "string \<Rightarrow> string \<Rightarrow> string option" where
  "form_find key p =
     (case dropWhile (\<lambda>c. c \<noteq> CHR ''='') p of
        [] \<Rightarrow> None
      | _ # rest \<Rightarrow>
          if takeWhile (\<lambda>c. c \<noteq> CHR ''='') p = key then Some (takeWhile (\<lambda>c. c \<noteq> CHR ''&'') rest)
          else case dropWhile (\<lambda>c. c \<noteq> CHR ''&'') rest of
                 [] \<Rightarrow> None
               | _ # p' \<Rightarrow> form_find key p')"
  by pat_completeness auto
termination
proof (relation "measure (\<lambda>(_, p). length p)", simp, clarsimp)
  fix p rest p' :: string and x y
  assume "dropWhile (\<lambda>c. c \<noteq> CHR ''='') p = x # rest" "dropWhile (\<lambda>c. c \<noteq> CHR ''&'') rest = y # p'"
  then have "length rest < length p" "length p' < length rest"
    by (metis length_Cons length_dropWhile_le less_eq_Suc_le)+
  then show "length p' < length p" by simp
qed

declare form_find.simps [simp del]

text \<open>What the caller sees of the buffer: the C string in it, empty when the key is missing.\<close>

definition form_get :: "string \<Rightarrow> string \<Rightarrow> nat \<Rightarrow> string option" where
  "form_get src key cap = map_option (\<lambda>v. c_string (form_decode (cap - 1) v)) (form_find key src)"

text \<open>What \<open>httpd_req_recv\<close> returns: at least one byte of data, a timeout, or the end or an error.\<close>

datatype recv_result = Recv_data string | Recv_timeout | Recv_end

fun recv_body :: "nat \<Rightarrow> recv_result list \<Rightarrow> string" where
  "recv_body 0 rs = []"
| "recv_body (Suc room) [] = []"
| "recv_body (Suc room) (Recv_timeout # rs) = recv_body (Suc room) rs"
| "recv_body (Suc room) (Recv_end # rs) = []"
| "recv_body (Suc room) (Recv_data s # rs) = take (Suc room) s @ recv_body (Suc room - length s) rs"

definition saved_page :: string where
  "saved_page = ''<!doctype html><meta charset=utf-8><title>saved</title><body style='font:14px system-ui'><h2>Saved '' @ [CHR 0xE2, CHR 0x80, CHR 0x94] @
     '' rebooting</h2><p>Reconnect to your normal WiFi and look for <code>nimble-proxy.local</code> in a few seconds.</p>''"

text \<open>The credentials of a request body, or the refusal.\<close>

definition form_creds :: "string \<Rightarrow> string + string \<times> string" where
  "form_creds buf =
     (case form_get buf ''ssid'' 34 of
        None \<Rightarrow> Inl ''missing ssid''
      | Some ssid \<Rightarrow>
          if ssid = [] then Inl ''missing ssid''
          else if length ssid > 32 then Inl ''ssid too long''
          else let psk = (case form_get buf ''psk'' 66 of Some p \<Rightarrow> p | None \<Rightarrow> [])
               in if (length psk > 0 \<and> length psk < 8) \<or> length psk > 64 \<or> (length psk = 64 \<and> \<not> form_is_hex_string psk) then Inl ''invalid password''
                  else Inr (ssid, psk))"

text \<open>The store, the reply, and whether the device restarts.\<close>

definition ap_wifi_post :: "nvs_env \<Rightarrow> recv_result list \<Rightarrow> nvs \<Rightarrow> nvs \<times> http_resp \<times> bool" where
  "ap_wifi_post ne rs n =
     (case form_creds (c_string (recv_body 255 rs)) of
        Inl e \<Rightarrow> (n, Http_error 400 e, False)
      | Inr (ssid, psk) \<Rightarrow>
          if \<not> ne_open_rw ne NVS_WIFI_NS then (n, Http_error 500 ''nvs open'', False)
          else (nvs_write_unchecked ne NVS_WIFI_NS [(''ssid'', NV_str ssid), (''psk'', NV_str psk)] n,
                Http_ok ''text/html; charset=utf-8'' saved_page, True))"

section \<open>The form as a browser sends it\<close>

definition unreserved :: "char \<Rightarrow> bool" where
  "unreserved c \<longleftrightarrow> is_digit c \<or> (65 \<le> (of_char c :: nat) \<and> (of_char c :: nat) \<le> 90) \<or> (97 \<le> (of_char c :: nat) \<and> (of_char c :: nat) \<le> 122) \<or>
     c \<in> {CHR ''-'', CHR ''.'', CHR ''_'', CHR ''*''}"

definition form_escape :: "char \<Rightarrow> string" where
  "form_escape c = (if unreserved c then [c] else if c = CHR '' '' then ''+'' else CHR ''%'' # hex_byte (of_nat (of_char c)))"

definition form_body :: "string \<Rightarrow> string \<Rightarrow> string" where
  "form_body ssid psk = ''ssid='' @ concat (map form_escape ssid) @ ''&psk='' @ concat (map form_escape psk)"

text \<open>The body in pieces, with pauses, up to the end of the request.\<close>

fun recv_data :: "recv_result list \<Rightarrow> string" where
  "recv_data [] = []"
| "recv_data (Recv_data s # rs) = s @ recv_data rs"
| "recv_data (Recv_timeout # rs) = recv_data rs"
| "recv_data (Recv_end # rs) = []"

lemma recv_body_all: "length (recv_data rs) \<le> room \<Longrightarrow> recv_body room rs = recv_data rs"
proof (induction room rs rule: recv_body.induct)
  case (1 rs)
  then show ?case by simp
next
  case (5 room s rs)
  then show ?case by simp
qed simp_all

lemma recv_body_bound: "length (recv_body room rs) \<le> room"
proof (induction room rs rule: recv_body.induct)
  case (5 room s rs)
  then show ?case by (cases "length s \<le> Suc room") auto
qed simp_all

lemma char_nibbles: "(of_char c :: nat) div 16 < 16" "(of_char c :: nat) mod 16 < 16"
proof -
  have "(of_char c :: nat) < 256" by simp
  then show "(of_char c :: nat) div 16 < 16" by linarith
qed simp

lemma hex_value_digit: "d < 16 \<Longrightarrow> hex_value (hex_digit d) = Some d"
proof -
  have "list_all (\<lambda>d. hex_value (hex_digit d) = Some d) [0..<16]" by code_simp
  then show "d < 16 \<Longrightarrow> ?thesis" by (auto simp: list_all_iff)
qed

lemma hex_byte_value:
  "hex_byte (of_nat (of_char c)) = [hex_digit (of_char c div 16), hex_digit (of_char c mod 16)]"
  "hex_value (hex_digit (of_char c div 16)) = Some (of_char c div 16)" "hex_value (hex_digit (of_char c mod 16)) = Some (of_char c mod 16)"
proof -
  have c: "(of_char c :: nat) < 256" by simp
  then have "unat (of_nat (of_char c) :: u8) = of_char c" by (simp add: unat_of_nat)
  then show "hex_byte (of_nat (of_char c)) = [hex_digit (of_char c div 16), hex_digit (of_char c mod 16)]" by (simp add: hex_byte_def)
  show "hex_value (hex_digit (of_char c div 16)) = Some (of_char c div 16)" "hex_value (hex_digit (of_char c mod 16)) = Some (of_char c mod 16)"
    using char_nibbles by (simp_all add: hex_value_digit)
qed

lemma unreserved_not: "unreserved c \<Longrightarrow> c \<noteq> CHR ''%'' \<and> c \<noteq> CHR ''+'' \<and> c \<noteq> CHR ''&'' \<and> c \<noteq> CHR ''='' \<and> c \<noteq> CHR 0x00"
  by (auto simp: unreserved_def is_digit_def)

lemma form_decode_escape: "form_decode (Suc room) (form_escape c @ q) = c # form_decode room q"
proof -
  have "16 * (of_char c div 16) + of_char c mod 16 = (of_char c :: nat)" by simp
  then have "char_of (16 * (of_char c div 16) + of_char c mod 16 :: nat) = c" by (simp only: char_of_char)
  then show ?thesis using unreserved_not [of c] by (simp add: form_escape_def hex_byte_value)
qed

lemma form_decode_escapes: "length s \<le> room \<Longrightarrow> form_decode room (concat (map form_escape s)) = s"
proof (induction s arbitrary: room)
  case Nil
  then show ?case by (cases room) simp_all
next
  case (Cons c s)
  then obtain r where "room = Suc r" "length s \<le> r" by (cases room) auto
  then show ?case using Cons.IH by (simp add: form_decode_escape)
qed

lemma hex_digit_plain: "d < 16 \<Longrightarrow> unreserved (hex_digit d)"
proof -
  have "list_all (\<lambda>d. unreserved (hex_digit d)) [0..<16]" by code_simp
  then show "d < 16 \<Longrightarrow> ?thesis" by (auto simp: list_all_iff)
qed

lemma form_escape_plain: "x \<in> set (form_escape c) \<Longrightarrow> x \<noteq> CHR ''&'' \<and> x \<noteq> CHR ''='' \<and> x \<noteq> CHR 0x00"
proof -
  have "unreserved (hex_digit (of_char c div 16))" "unreserved (hex_digit (of_char c mod 16))" using char_nibbles by (simp_all add: hex_digit_plain)
  note u = this [THEN unreserved_not] 
  show "x \<in> set (form_escape c) \<Longrightarrow> ?thesis"
    using u unreserved_not [of c] by (auto simp: form_escape_def hex_byte_value split: if_splits)
qed

lemma form_escapes_plain: "x \<in> set (concat (map form_escape s)) \<Longrightarrow> x \<noteq> CHR ''&'' \<and> x \<noteq> CHR ''='' \<and> x \<noteq> CHR 0x00"
  using form_escape_plain by auto

lemma span_until: "x \<notin> set a \<Longrightarrow> takeWhile (\<lambda>c. c \<noteq> x) (a @ x # b) = a \<and> dropWhile (\<lambda>c. c \<noteq> x) (a @ x # b) = x # b"
  by (induction a) auto

lemma form_find_body:
  assumes "CHR ''&'' \<notin> set a" "CHR ''='' \<notin> set a" "CHR ''&'' \<notin> set b"
  shows "form_find ''ssid'' (''ssid='' @ a @ ''&psk='' @ b) = Some a" "form_find ''psk'' (''ssid='' @ a @ ''&psk='' @ b) = Some b"
proof -
  have s: "takeWhile (\<lambda>c. c \<noteq> CHR ''&'') (a @ CHR ''&'' # r) = a" "dropWhile (\<lambda>c. c \<noteq> CHR ''&'') (a @ CHR ''&'' # r) = CHR ''&'' # r" for r
    using span_until [OF assms(1), of r] by simp_all
  have "takeWhile (\<lambda>c. c \<noteq> CHR ''&'') b = b" using assms(3) by (induction b) auto
  then have p: "form_find ''psk'' (''psk='' @ b) = Some b" by (subst form_find.simps) simp
  show "form_find ''ssid'' (''ssid='' @ a @ ''&psk='' @ b) = Some a" by (subst form_find.simps) (simp add: s)
  show "form_find ''psk'' (''ssid='' @ a @ ''&psk='' @ b) = Some b" using p by (subst form_find.simps) (simp add: s)
qed

lemma c_string_id: "CHR 0x00 \<notin> set s \<Longrightarrow> c_string s = s"
  by (induction s) (auto simp: c_string_def)

lemma form_creds_body:
  assumes "valid_ssid ssid" "valid_psk psk"
  shows "form_creds (form_body ssid psk) = Inr (ssid, psk)"
proof -
  define a b where "a = concat (map form_escape ssid)" and "b = concat (map form_escape psk)"
  have "CHR ''&'' \<notin> set a" "CHR ''='' \<notin> set a" "CHR ''&'' \<notin> set b"
    unfolding a_def b_def using form_escapes_plain by blast+
  note f = form_find_body [OF this]
  have "form_decode 33 a = ssid" "form_decode 65 b = psk"
    unfolding a_def b_def using assms by (auto intro!: form_decode_escapes simp: valid_ssid_def valid_psk_def)
  then have "form_get (form_body ssid psk) ''ssid'' 34 = Some ssid" "form_get (form_body ssid psk) ''psk'' 66 = Some psk"
    using f assms c_string_id [of ssid] c_string_id [of psk]
    by (simp_all add: form_get_def form_body_def a_def [symmetric] b_def [symmetric] valid_ssid_def valid_psk_def)
  then show ?thesis using assms by (auto simp: form_creds_def valid_ssid_def valid_psk_def is_hex_string_def form_is_hex_string_def)
qed

section \<open>Properties\<close>

lemma form_body_plain: "c_string (form_body ssid psk) = form_body ssid psk"
proof (rule c_string_id)
  show "CHR 0x00 \<notin> set (form_body ssid psk)" using form_escapes_plain [of "CHR 0x00"] by (auto simp: form_body_def)
qed


lemma form_creds_valid: "form_creds buf = Inr (ssid, psk) \<Longrightarrow> valid_ssid ssid \<and> valid_psk psk"
proof -
  assume f: "form_creds buf = Inr (ssid, psk)"
  have z: "CHR 0x00 \<notin> set (c_string s)" for s by (auto simp: c_string_def dest: set_takeWhileD)
  have s: "form_get buf ''ssid'' 34 = Some ssid" "ssid \<noteq> []" "length ssid \<le> 32"
    using f by (auto simp: form_creds_def Let_def split: option.splits if_splits)
  have p: "form_get buf ''psk'' 66 = Some psk \<or> psk = []" "length psk = 0 \<or> 8 \<le> length psk" "length psk \<le> 64" "length psk = 64 \<longrightarrow> is_hex_string psk"
    using f by (auto simp: form_creds_def Let_def is_hex_string_def form_is_hex_string_def split: option.splits if_splits)
  have "CHR 0x00 \<notin> set ssid" "CHR 0x00 \<notin> set psk" using s(1) p(1) z by (auto simp: form_get_def)
  then show ?thesis using s p by (auto simp: valid_ssid_def valid_psk_def)
qed

text \<open>Whatever a client posts to the form, and whichever writes fail: only valid credentials can get into the store, a refused
  request changes nothing and does not restart the device, and the credentials of the next boot always fit the driver's arrays of 32
  and 64 bytes.\<close>

theorem wifi_form_sound:
  assumes "creds_sound n" "ap_wifi_post ne rs n = (n', r, restart)"
  shows "creds_sound n' \<and> (\<not> restart \<longrightarrow> n' = n \<and> (\<exists>code e. r = Http_error code e)) \<and>
    length (fst (boot_creds ne compiled n')) \<le> 32 \<and> length (snd (boot_creds ne compiled n')) \<le> 64"
proof -
  have b: "length (fst (boot_creds ne compiled n')) \<le> 32 \<and> length (snd (boot_creds ne compiled n')) \<le> 64"
    by (auto simp: boot_creds_def read_creds_from_nvs_def get_str_def split: option.splits nvs_val.splits if_splits)
  show ?thesis
  proof (cases "form_creds (c_string (recv_body 255 rs))")
    case (Inl e)
    then show ?thesis using assms b by (auto simp: ap_wifi_post_def)
  next
    case (Inr c)
    obtain ssid psk where c: "c = (ssid, psk)" by fastforce
    then have v: "valid_ssid ssid" "valid_psk psk" using form_creds_valid Inr by auto
    have "creds_sound (nvs_write_unchecked ne NVS_WIFI_NS [(''ssid'', NV_str ssid), (''psk'', NV_str psk)] n)"
      using assms(1) v by (simp add: creds_sound_def nvs_write_unchecked_def NVS_WIFI_NS_def nvs_put_def str_ok_def)
    then show ?thesis using assms b Inr c by (auto simp: ap_wifi_post_def split: if_splits)
  qed
qed

text \<open>A longer body is cut at 255 bytes, possibly inside the password, which is then stored as far as it came.\<close>

theorem long_form_cut:
  "form_creds (c_string (recv_body 255 [Recv_data (form_body (replicate 32 (CHR ''#'')) (replicate 60 (CHR ''!''))), Recv_end])) =
     Inr (replicate 32 (CHR ''#''), replicate 49 (CHR ''!'') @ ''%2'')"
  by code_simp

text \<open>The name of the setup access point: with a host name of 25 to 30 characters, which the settings allow, the digits that tell
  two devices apart are cut off.\<close>

theorem setup_ssid_collides:
  assumes "length hostname \<ge> 25"
  shows "compose_ap_ssid hostname mac 33 = compose_ap_ssid hostname mac' 33"
proof -
  have "compose_ap_ssid hostname m 33 = take 32 (hostname @ ''-setup-'')" for m
  proof -
    have "length (hex_byte b) = 2" for b by (simp add: hex_byte_def)
    then have "compose_ap_ssid hostname m 33 = take 32 ((hostname @ ''-setup-'') @ hex_byte (m ! 4) @ hex_byte (m ! 5))"
      using assms by (simp add: compose_ap_ssid_def snprintf_text_def)
    also have "\<dots> = take 32 (hostname @ ''-setup-'')" using assms by (subst take_append) simp
    finally show ?thesis .
  qed
  then show ?thesis by simp
qed

text \<open>After any events the station counts as connected exactly when the last of the connection events was an address; every
  loss is followed by an attempt to reconnect.\<close>

theorem connected_tracks_events:
  defines "relevant evs \<equiv> filter (\<lambda>e. e = IP_EVENT_STA_GOT_IP \<or> e = WIFI_EVENT_STA_DISCONNECTED) evs"
  shows "is_connected (fold wifi_handle evs w) = (if relevant evs = [] then is_connected w else last (relevant evs) = IP_EVENT_STA_GOT_IP) \<and>
    wf_calls (fold wifi_handle evs w) = wf_calls w @ replicate (length (filter (\<lambda>e. e = WIFI_EVENT_STA_START \<or> e = WIFI_EVENT_STA_DISCONNECTED) evs)) Wifi_connect"
proof (induction evs rule: rev_induct)
  case Nil
  then show ?case by (simp add: relevant_def)
next
  case (snoc e evs)
  then show ?case
    by (cases e) (simp_all add: relevant_def wifi_handle_def on_wifi_event_def on_ip_event_def wifi_calls_def is_connected_def replicate_append_same)
qed


theorem wifi_form_sound_witness:
  "\<exists>n' r restart. ap_wifi_post good_nvs [Recv_data ''ssid=&psk=x'', Recv_end] (\<lambda>_ _. None) = (n', r, restart) \<and> creds_sound n' \<and>
     length (fst (boot_creds good_nvs (''home'', ''secret123'') n')) \<le> 32"
proof -
  obtain n' r restart where p: "ap_wifi_post good_nvs [Recv_data ''ssid=&psk=x'', Recv_end] (\<lambda>_ _. None) = (n', r, restart)" by (metis prod_cases3)
  have "creds_sound (\<lambda>_ _. None)" by (simp add: creds_sound_def str_ok_def)
  from wifi_form_sound [OF this p, of "(''home'', ''secret123'')"] p show ?thesis by blast
qed

end
