(* ===== verification/Ble_Httpd.thy ===== *)
theory Ble_Httpd
  imports Stats_Web Clone
begin

text \<open>
  The dashboard over Bluetooth, \<^verbatim>\<open>components/ble_httpd/ble_httpd.cpp\<close>: a request characteristic that takes one frame, a dispatcher
  over the same getters and setters as the web server, and a response characteristic that notifies the reply in fragments.
  Frames are flags, request id and text. Whether a notification finds a free buffer is an input for each
  attempt, as is the query parser (\<open>qkv query\<close> looks keys up in a query text).
\<close>

definition FRAME_FIN :: u8 where "FRAME_FIN = 1"
definition FRAME_ERR :: u8 where "FRAME_ERR = 2"
definition MAX_FRAG :: nat where "MAX_FRAG = 242"
definition RESP_BUF_BYTES :: nat where "RESP_BUF_BYTES = 4096"

record bh_frame =
  fr_flags :: u8
  fr_id :: u8
  fr_data :: string

section \<open>Sending a response\<close>

text \<open>Up to six attempts; the second component counts the delays.\<close>

fun notify_retry :: "(nat \<Rightarrow> bool) \<Rightarrow> nat \<Rightarrow> nat \<Rightarrow> bool \<times> nat" where
  "notify_retry outcome attempt 0 = (False, 0)"
| "notify_retry outcome attempt (Suc left) =
     (if outcome attempt then (True, 0) else (case notify_retry outcome (Suc attempt) left of (ok, delays) \<Rightarrow> (ok, Suc delays)))"

text \<open>The fragment loop from the k-th fragment on: the frames notified.\<close>

function send_frames :: "(nat \<Rightarrow> nat \<Rightarrow> bool) \<Rightarrow> u8 \<Rightarrow> bool \<Rightarrow> nat \<Rightarrow> string \<Rightarrow> bh_frame list" where
  "send_frames outcome req_id is_error k payload =
     (let final = (length payload \<le> MAX_FRAG);
          frame = \<lparr>fr_flags = (if final then FRAME_FIN else 0) OR (if is_error then FRAME_ERR else 0), fr_id = req_id, fr_data = take MAX_FRAG payload\<rparr>
      in if \<not> fst (notify_retry (outcome k) 0 6) then []
         else if final then [frame]
         else frame # send_frames outcome req_id is_error (Suc k) (drop MAX_FRAG payload))"
  by pat_completeness auto
termination by (relation "measure (\<lambda>(_, _, _, _, payload). length payload)") (auto simp: MAX_FRAG_def)

declare send_frames.simps [simp del]

definition send_response :: "bool \<Rightarrow> (nat \<Rightarrow> nat \<Rightarrow> bool) \<Rightarrow> u8 \<Rightarrow> string \<Rightarrow> bool \<Rightarrow> bh_frame list" where
  "send_response has_chr outcome req_id payload is_error = (if has_chr then send_frames outcome req_id is_error 0 payload else [])"

section \<open>Dispatch\<close>

text \<open>The C library's prefix test with the character behind the key, at the start of each parameter.\<close>

function find_query_u32 :: "string \<Rightarrow> string \<Rightarrow> u32 option" where
  "find_query_u32 key p =
     (if p = [] then None
      else if take (length key) p = key \<and> take 1 (drop (length key) p) = ''='' then Some (c_strtoul (drop (length key + 1) p))
      else case dropWhile (\<lambda>c. c \<noteq> CHR ''&'') p of
             [] \<Rightarrow> None
           | _ # p' \<Rightarrow> find_query_u32 key p')"
  by pat_completeness auto
termination
proof (relation "measure (\<lambda>(_, p). length p)", simp, clarsimp)
  fix p p' :: string and x
  assume "dropWhile (\<lambda>c. c \<noteq> CHR ''&'') p = x # p'"
  then show "length p' < length p" by (metis length_Cons length_dropWhile_le less_eq_Suc_le)
qed

declare find_query_u32.simps [simp del]

text \<open>A reply is the text in the buffer and the length returned, which \<open>snprintf\<close> does not clamp.\<close>

type_synonym ble_reply = "string \<times> nat"

definition printed :: "nat \<Rightarrow> string \<Rightarrow> ble_reply" where
  "printed cap s = (snprintf_text cap s, length s)"

definition built :: "string \<Rightarrow> ble_reply" where
  "built s = (s, length s)"

definition render_ok_or_error :: "nat \<Rightarrow> string option \<Rightarrow> ble_reply" where
  "render_ok_or_error cap err =
     printed cap (case err of None \<Rightarrow> ''{\"ok\":true}'' | Some e \<Rightarrow> ''{\"error\":\"'' @ e @ ''\"}'')"

definition pad10 :: "nat \<Rightarrow> string" where
  "pad10 n = replicate (10 - length (show_nat n)) (CHR ''0'') @ show_nat n"

definition dispatch_log :: "web_in \<Rightarrow> string \<Rightarrow> nat \<Rightarrow> ble_reply" where
  "dispatch_log i query cap =
     (if cap \<le> 11 then ([], 0)
      else let log_cap = min (cap - 11) 1024;
               since = (case find_query_u32 ''since'' query of Some v \<Rightarrow> v | None \<Rightarrow> 0);
               (since, slice, seq) = build_log_slice since log_cap (wi_rings i 0);
               hdr = pad10 (unat (since + of_nat (length slice))) @ [CHR 0x0A]
           in if length hdr \<noteq> 11 then ([], 0) else built (hdr @ slice))"

text \<open>The state both transports share, with the clone beside it. The radio is the settings' one.\<close>

record ble_web =
  bw_web :: web_state
  bw_clone :: clone_sys

definition bw_app :: "ble_web \<Rightarrow> clone_app" where
  "bw_app b = \<lparr>ca_sys = (bw_clone b)\<lparr>cl_ble := st_ble (wb_stats (bw_web b))\<rparr>, ca_stats = wb_stats (bw_web b)\<rparr>"

definition bw_put_app :: "clone_app \<Rightarrow> ble_web \<Rightarrow> ble_web" where
  "bw_put_app a b = b\<lparr>bw_web := (bw_web b)\<lparr>wb_stats := ca_stats a\<rparr>, bw_clone := ca_sys a\<rparr>"

definition set_over_ble :: "web_in \<Rightarrow> query \<Rightarrow> setting \<Rightarrow> nat \<Rightarrow> ble_web \<Rightarrow> ble_web \<times> ble_reply" where
  "set_over_ble i kv s cap b =
     (case handle_setting (wi_env i) s kv (wb_stats (bw_web b)) of
        (st, e) \<Rightarrow> (b\<lparr>bw_web := (bw_web b)\<lparr>wb_stats := st\<rparr>\<rparr>, render_ok_or_error cap e))"

definition dispatch :: "web_in \<Rightarrow> (string \<Rightarrow> query) \<Rightarrow> string \<Rightarrow> string \<Rightarrow> nat \<Rightarrow> ble_web \<Rightarrow> ble_web \<times> ble_reply" where
  "dispatch i qkv meth line cap b =
     (let path = takeWhile (\<lambda>c. c \<noteq> CHR ''?'') line;
          query = drop 1 (dropWhile (\<lambda>c. c \<noteq> CHR ''?'') line);
          is_get = (meth = ''GET''); is_post = (meth = ''POST'');
          st = wb_stats (bw_web b); kv = qkv query
      in if is_get \<and> path = ''/stats.json'' then (case build_stats_json cap i (bw_web b) of (w, s) \<Rightarrow> (b\<lparr>bw_web := w\<rparr>, built s))
         else if is_get \<and> path = ''/log'' then (b, dispatch_log i query cap)
         else if is_get \<and> path = ''/level'' then (b, built (build_level_json cap st))
         else if is_post \<and> path = ''/level'' then set_over_ble i kv Set_level cap b
         else if is_get \<and> path = ''/txpower'' then (b, built (build_txpower_json cap st))
         else if is_post \<and> path = ''/txpower'' then set_over_ble i kv Set_txpower cap b
         else if is_get \<and> path = ''/cpufreq'' then (b, built (build_cpufreq_json cap st))
         else if is_post \<and> path = ''/cpufreq'' then set_over_ble i kv Set_cpufreq cap b
         else if is_get \<and> path = ''/advitvl'' then (b, built (build_advitvl_json cap st))
         else if is_post \<and> path = ''/advitvl'' then set_over_ble i kv Set_advitvl cap b
         else if is_get \<and> path = ''/wifips'' then (b, built (build_wifips_json cap st))
         else if is_post \<and> path = ''/wifips'' then set_over_ble i kv Set_wifips cap b
         else if is_get \<and> path = ''/hostname'' then (b, built (build_hostname_json cap st))
         else if is_post \<and> path = ''/hostname'' then set_over_ble i kv Set_hostname cap b
         else if is_get \<and> path = ''/scan'' then (b, built (build_scan_json cap st))
         else if is_post \<and> path = ''/scan'' then set_over_ble i kv Set_scan cap b
         else if is_get \<and> path = ''/devices'' then (b, built (build_devices_json cap (wi_now_ms i) (bb_scanner (st_ble st)) (wb_bthome (bw_web b))))
         else if is_post \<and> path = ''/trace'' then
           (case handle_trace_set (wi_env i) kv st of
              (st, on) \<Rightarrow> (b\<lparr>bw_web := (bw_web b)\<lparr>wb_stats := st\<rparr>\<rparr>, printed cap (if on then ''{\"trace\":true}'' else ''{\"trace\":false}'')))
         else if is_post \<and> path = ''/reboot'' then
           (b\<lparr>bw_web := (bw_web b)\<lparr>wb_stats := schedule_reboot st\<rparr>\<rparr>, printed cap ''{\"ok\":true}'')
         else if is_get \<and> path = ''/clone'' then (b, built (build_clone_json cap (ca_sys (bw_app b))))
         else if is_post \<and> path = ''/clone'' then
           (case handle_clone_set (wi_env i) (Some kv) (bw_app b) of
              (a, Inl e) \<Rightarrow> (bw_put_app a b, printed cap (''{\"error\":\"'' @ e @ ''\"}''))
            | (a, Inr reboot) \<Rightarrow> (bw_put_app a b, printed cap (''{\"ok\":true,\"reboot_required\":'' @ bool_text reboot @ ''}'')))
         else (b, printed cap (''{\"error\":\"no route '' @ path @ ''\"}'')))"

text \<open>A write to the request characteristic. The bytes sent are the first \<open>out_len\<close> of the buffer, whose text ends with a zero.\<close>

definition reply_payload :: "ble_reply \<Rightarrow> string" where
  "reply_payload r = take (min (snd r) RESP_BUF_BYTES) (fst r @ [CHR 0x00])"

definition on_request :: "bool \<Rightarrow> (nat \<Rightarrow> nat \<Rightarrow> bool) \<Rightarrow> web_in \<Rightarrow> (string \<Rightarrow> query) \<Rightarrow> u8 list \<Rightarrow> ble_web \<Rightarrow> ble_web \<times> bh_frame list" where
  "on_request has_chr outcome i qkv bytes b =
     (case bytes of
        flags # req_id # payload \<Rightarrow>
          if flags AND FRAME_FIN = 0 then (b, send_response has_chr outcome req_id ''fragmented requests unsupported'' True)
          else let line = takeWhile (\<lambda>c. c \<noteq> CHR 0x00) (map (\<lambda>w. char_of (unat w)) (take 255 payload))
               in if CHR '' '' \<notin> set line then (b, send_response has_chr outcome req_id ''bad request'' True)
                  else (case dispatch i qkv (takeWhile (\<lambda>c. c \<noteq> CHR '' '') line) (drop 1 (dropWhile (\<lambda>c. c \<noteq> CHR '' '') line)) RESP_BUF_BYTES b of
                          (b, r) \<Rightarrow> (b, send_response has_chr outcome req_id (reply_payload r) False))
      | _ \<Rightarrow> (b, []))"

section \<open>The GATT server\<close>

record bh_server =
  bs_started :: bool
  bs_activated :: bool
  bs_server :: bool
  bs_resp_chr :: bool
  bs_uuid_advertised :: bool

text \<open>\<open>adv->start()\<close> behind the master switch, as the callbacks and the activation do it.\<close>

definition adv_start_gated :: "bool \<Rightarrow> ble_backend \<Rightarrow> ble_backend" where
  "adv_start_gated ok r = (if bb_adv r \<noteq> None \<and> advertising_enabled r then r\<lparr>bb_adv := Some ok\<rparr> else r)"

definition bh_start :: "bool \<Rightarrow> bh_server \<Rightarrow> bh_server" where
  "bh_start service_ok s =
     (if bs_started s then s
      else let s = s\<lparr>bs_started := True, bs_server := True\<rparr> in if service_ok then s\<lparr>bs_resp_chr := True\<rparr> else s)"

definition bh_activate :: "bool \<Rightarrow> bool \<Rightarrow> bool \<Rightarrow> bh_server \<times> ble_backend \<Rightarrow> bh_server \<times> ble_backend" where
  "bh_activate server_ok scan_ok adv_ok sr =
     (let (s, r) = sr in
      if bs_activated s then sr
      else let s = s\<lparr>bs_activated := True\<rparr> in
           if \<not> bs_server s then (s, r)
           else let r = r\<lparr>bb_scanner := scanner_pause (bb_scanner r)\<rparr>;
                    r = r\<lparr>bb_scanner := scanner_resume scan_ok (bb_scanner r)\<rparr>
                in if \<not> server_ok then (s, r)
                   else (s\<lparr>bs_uuid_advertised := True\<rparr>, adv_start_gated adv_ok r))"

definition bh_on_connect :: "bool \<Rightarrow> ble_backend \<Rightarrow> ble_backend" where
  "bh_on_connect ok r = adv_start_gated ok r"

definition bh_on_disconnect :: "bool \<Rightarrow> ble_backend \<Rightarrow> ble_backend" where
  "bh_on_disconnect ok r = adv_start_gated ok r"

section \<open>Fragments\<close>

text \<open>The other side: text is collected until a frame with the final flag.\<close>

fun reassemble :: "bh_frame list \<Rightarrow> string option" where
  "reassemble [] = None"
| "reassemble (f # fs) = (if fr_flags f AND FRAME_FIN \<noteq> 0 then Some (fr_data f) else map_option (\<lambda>s. fr_data f @ s) (reassemble fs))"

definition fragments :: "string \<Rightarrow> nat" where
  "fragments payload = (length payload - 1) div MAX_FRAG + 1"

lemma notify_retry_iff: "fst (notify_retry outcome a n) \<longleftrightarrow> (\<exists>j<n. outcome (a + j))"
proof (induction n arbitrary: a)
  case (Suc n)
  have "(\<exists>j<Suc n. outcome (a + j)) \<longleftrightarrow> outcome a \<or> (\<exists>j<n. outcome (Suc a + j))"
    by (simp add: Ex_less_Suc2)
  then show ?case using Suc [of "Suc a"] by (simp add: split_beta)
qed simp

lemma fragments_drop: "MAX_FRAG < length payload \<Longrightarrow> fragments payload = Suc (fragments (drop MAX_FRAG payload))"
proof -
  assume l: "MAX_FRAG < length payload"
  then have "length payload - 1 = MAX_FRAG + (length payload - MAX_FRAG - 1)" by simp
  moreover have "(MAX_FRAG + m) div MAX_FRAG = m div MAX_FRAG + 1" for m by (simp add: MAX_FRAG_def)
  ultimately have "(length payload - 1) div MAX_FRAG = (length payload - MAX_FRAG - 1) div MAX_FRAG + 1" by metis
  then show ?thesis by (simp add: fragments_def)
qed

lemma fragments_last: "length payload \<le> MAX_FRAG \<Longrightarrow> fragments payload = 1"
  by (auto simp: fragments_def MAX_FRAG_def)

lemma flag_bits: "(FRAME_FIN OR e) AND FRAME_FIN \<noteq> 0" "e = 0 \<or> e = FRAME_ERR \<Longrightarrow> (0 OR e) AND FRAME_FIN = 0"
  "FRAME_FIN AND FRAME_ERR = 0" "FRAME_ERR AND FRAME_ERR \<noteq> 0" "(FRAME_FIN OR FRAME_ERR) AND FRAME_ERR \<noteq> 0"
proof -
  have "bit ((FRAME_FIN OR e) AND FRAME_FIN) 0" by (simp add: FRAME_FIN_def bit_simps)
  then show "(FRAME_FIN OR e) AND FRAME_FIN \<noteq> 0" by auto
qed (auto simp: FRAME_FIN_def FRAME_ERR_def)

lemma send_frames_step:
  "send_frames outcome req_id e k payload =
    (if \<exists>j<6. outcome k j then
       if length payload \<le> MAX_FRAG then [\<lparr>fr_flags = FRAME_FIN OR (if e then FRAME_ERR else 0), fr_id = req_id, fr_data = payload\<rparr>]
       else \<lparr>fr_flags = 0 OR (if e then FRAME_ERR else 0), fr_id = req_id, fr_data = take MAX_FRAG payload\<rparr> #
         send_frames outcome req_id e (Suc k) (drop MAX_FRAG payload)
     else [])"
  by (subst send_frames.simps) (simp add: notify_retry_iff Let_def)

lemma send_frames_reassemble:
  "reassemble (send_frames outcome req_id e k payload) =
    (if \<forall>j<fragments payload. \<exists>a<6. outcome (k + j) a then Some payload else None)"
proof (induction "length payload" arbitrary: payload k rule: less_induct)
  case less
  show ?case
  proof (cases "length payload \<le> MAX_FRAG")
    case True
    moreover have "FRAME_FIN AND FRAME_FIN \<noteq> 0" by (simp add: FRAME_FIN_def)
    ultimately show ?thesis using flag_bits(1) [of FRAME_ERR] by (subst send_frames_step) (simp add: fragments_last)
  next
    case False
    then have l: "length (drop MAX_FRAG payload) < length payload" by (simp add: MAX_FRAG_def)
    have f: "fragments payload = Suc (fragments (drop MAX_FRAG payload))" using False by (simp add: fragments_drop)
    have "(\<forall>j<fragments payload. \<exists>a<6. outcome (k + j) a) \<longleftrightarrow>
        (\<exists>a<6. outcome k a) \<and> (\<forall>j<fragments (drop MAX_FRAG payload). \<exists>a<6. outcome (Suc k + j) a)"
      unfolding f by (simp add: All_less_Suc2)
    moreover have "(0 OR (if e then FRAME_ERR else 0)) AND FRAME_FIN = 0" by (simp add: FRAME_FIN_def FRAME_ERR_def)
    ultimately show ?thesis using False less.hyps [OF l, of "Suc k"] by (subst send_frames_step) simp
  qed
qed

lemma send_frames_shape:
  "f \<in> set (send_frames outcome req_id e k payload) \<Longrightarrow>
    fr_id f = req_id \<and> length (fr_data f) + 2 \<le> 244 \<and> ((fr_flags f AND FRAME_ERR \<noteq> 0) = e)"
proof (induction "length payload" arbitrary: payload k rule: less_induct)
  case less
  have e: "((FRAME_FIN OR (if e then FRAME_ERR else 0)) AND FRAME_ERR \<noteq> 0) = e" "((0 OR (if e then FRAME_ERR else 0)) AND FRAME_ERR \<noteq> 0) = e"
    by (cases e; simp add: FRAME_FIN_def FRAME_ERR_def)+
  show ?case
  proof (cases "length payload \<le> MAX_FRAG")
    case True
    then show ?thesis using less.prems e by (subst (asm) send_frames_step) (auto simp: MAX_FRAG_def split: if_splits)
  next
    case False
    then have l: "length (drop MAX_FRAG payload) < length payload" by (simp add: MAX_FRAG_def)
    from less.prems False consider "f = \<lparr>fr_flags = 0 OR (if e then FRAME_ERR else 0), fr_id = req_id, fr_data = take MAX_FRAG payload\<rparr>"
      | "f \<in> set (send_frames outcome req_id e (Suc k) (drop MAX_FRAG payload))"
      by (subst (asm) send_frames_step) (auto split: if_splits)
    then show ?thesis
    proof cases
      case 1
      then show ?thesis using e by (simp add: MAX_FRAG_def)
    next
      case 2
      then show ?thesis by (rule less.hyps [OF l])
    qed
  qed
qed

text \<open>C36: A response over Bluetooth is whole or visibly unfinished. Every frame fits a notification of the negotiated maximum (244 bytes),
  carries the id of the request and the error flag exactly for errors; when each fragment finds a free buffer within its six
  attempts, the client reassembles exactly the payload, in the least number of frames; when one does not, the client never
  sees a final frame, so a cut response cannot be taken for a complete one.\<close>

theorem ble_response_complete:
  "(\<forall>f\<in>set (send_response True outcome req_id payload e). fr_id f = req_id \<and> length (fr_data f) + 2 \<le> 244 \<and> ((fr_flags f AND FRAME_ERR \<noteq> 0) = e)) \<and>
   reassemble (send_response True outcome req_id payload e) = (if \<forall>j<fragments payload. \<exists>a<6. outcome j a then Some payload else None)"
  unfolding send_response_def using send_frames_shape send_frames_reassemble [of outcome req_id e 0 payload] by simp

theorem ble_response_complete_witness:
  "reassemble (send_response True (\<lambda>j a. a = 2) 7 (replicate 300 (CHR ''x'')) False) = Some (replicate 300 (CHR ''x'')) \<and>
   reassemble (send_response True (\<lambda>j a. j = 0) 7 (replicate 300 (CHR ''x'')) False) = None"
proof -
  have "\<forall>j<fragments (replicate 300 (CHR ''x'')). \<exists>a<6. a = (2 :: nat)" by (intro allI impI exI [of _ 2]) simp
  moreover have "\<not> (\<forall>j<fragments (replicate 300 (CHR ''x'')). \<exists>a<6. j = (0 :: nat) \<and> a = (a :: nat))"
    by (auto simp: fragments_def MAX_FRAG_def intro!: exI [of _ 1])
  ultimately show ?thesis
    using ble_response_complete [of "\<lambda>j a. a = 2" 7 "replicate 300 (CHR ''x'')" False] ble_response_complete [of "\<lambda>j a. j = 0" 7 "replicate 300 (CHR ''x'')" False]
    by simp
qed

section \<open>The same dashboard on both transports\<close>

fun setting_path :: "setting \<Rightarrow> string" where
  "setting_path Set_level = ''/level''"
| "setting_path Set_txpower = ''/txpower''"
| "setting_path Set_cpufreq = ''/cpufreq''"
| "setting_path Set_advitvl = ''/advitvl''"
| "setting_path Set_wifips = ''/wifips''"
| "setting_path Set_hostname = ''/hostname''"
| "setting_path Set_scan = ''/scan''"
| "setting_path Set_trace = ''/trace''"
| "setting_path (Set_passkey pin) = ''/clone''"

definition plain_setting :: "setting \<Rightarrow> bool" where
  "plain_setting s \<longleftrightarrow> s \<in> {Set_level, Set_txpower, Set_cpufreq, Set_advitvl, Set_wifips, Set_hostname, Set_scan}"

fun resp_error :: "http_resp \<Rightarrow> string option" where
  "resp_error (Http_error code e) = Some e"
| "resp_error _ = None"

lemma split_query: "CHR ''?'' \<notin> set p \<Longrightarrow>
  takeWhile (\<lambda>c. c \<noteq> CHR ''?'') (p @ ''?'' @ q) = p \<and> drop 1 (dropWhile (\<lambda>c. c \<noteq> CHR ''?'') (p @ ''?'' @ q)) = q"
  by (induction p) auto

lemma setting_path_plain: "CHR ''?'' \<notin> set (setting_path s)"
  by (cases s) auto

lemma dispatch_setting:
  "plain_setting s \<Longrightarrow> dispatch i qkv ''POST'' (setting_path s @ ''?'' @ q) cap b = set_over_ble i (qkv q) s cap b"
  unfolding dispatch_def Let_def split_query [OF setting_path_plain, THEN conjunct1] split_query [OF setting_path_plain, THEN conjunct2]
  by (auto simp: plain_setting_def)

lemma serve_setting:
  "plain_setting s \<Longrightarrow> wi_query i = (\<lambda>_. Some kv) \<Longrightarrow>
   web_serve html svg i HTTP_POST (setting_path s) w =
     Some (case handle_setting (wi_env i) s kv (wb_stats w) of (st, e) \<Rightarrow> (w\<lparr>wb_stats := st\<rparr>, post_reply e))"
  by (auto simp: plain_setting_def web_serve_def register_endpoints_def run_endpoint_def post_setting_def Let_def)

definition getter_http :: "(string \<times> nat \<times> (nat \<Rightarrow> stats_state \<Rightarrow> string)) list" where
  "getter_http = [(''/level'', 32, build_level_json), (''/txpower'', 48, build_txpower_json), (''/cpufreq'', 64, build_cpufreq_json),
     (''/advitvl'', 32, build_advitvl_json), (''/wifips'', 32, build_wifips_json), (''/hostname'', 96, build_hostname_json), (''/scan'', 48, build_scan_json)]"

lemma snprintf_more_room: "length (snprintf_text cap s) + 1 < cap \<Longrightarrow> cap \<le> cap' \<Longrightarrow> snprintf_text cap' s = snprintf_text cap s"
  by (auto simp: snprintf_text_def split: if_splits)

lemma getter_more_room:
  "(path, cap, build) \<in> set getter_http \<Longrightarrow> length (build cap st) + 1 < cap \<Longrightarrow> build RESP_BUF_BYTES st = build cap st"
proof -
  assume g: "(path, cap, build) \<in> set getter_http" and l: "length (build cap st) + 1 < cap"
  have "\<exists>t. \<forall>c. build_level_json c st = snprintf_text c t" "\<exists>t. \<forall>c. build_txpower_json c st = snprintf_text c t"
      "\<exists>t. \<forall>c. build_cpufreq_json c st = snprintf_text c t" "\<exists>t. \<forall>c. build_advitvl_json c st = snprintf_text c t"
      "\<exists>t. \<forall>c. build_wifips_json c st = snprintf_text c t" "\<exists>t. \<forall>c. build_hostname_json c st = snprintf_text c t"
      "\<exists>t. \<forall>c. build_scan_json c st = snprintf_text c t"
    unfolding build_level_json_def build_txpower_json_def build_cpufreq_json_def build_advitvl_json_def build_wifips_json_def
      build_hostname_json_def build_scan_json_def Let_def by (rule exI, rule allI, rule refl)+
  then have "\<exists>t. \<forall>c. build c st = snprintf_text c t" using g unfolding getter_http_def by (elim set_ConsD [THEN disjE]) simp_all
  then obtain t where t: "\<And>c. build c st = snprintf_text c t" by blast
  have "cap \<le> RESP_BUF_BYTES" using g by (auto simp: getter_http_def RESP_BUF_BYTES_def)
  then show ?thesis using snprintf_more_room [of cap t RESP_BUF_BYTES] l by (simp add: t)
qed

lemma getter_serve:
  "(path, cap, build) \<in> set getter_http \<Longrightarrow> web_serve html svg i HTTP_GET path w = Some (w, json_reply (build cap (wb_stats w)))"
proof -
  have "web_serve html svg i HTTP_GET ''/level'' w = Some (w, json_reply (build_level_json 32 (wb_stats w)))"
    "web_serve html svg i HTTP_GET ''/txpower'' w = Some (w, json_reply (build_txpower_json 48 (wb_stats w)))"
    "web_serve html svg i HTTP_GET ''/cpufreq'' w = Some (w, json_reply (build_cpufreq_json 64 (wb_stats w)))"
    "web_serve html svg i HTTP_GET ''/advitvl'' w = Some (w, json_reply (build_advitvl_json 32 (wb_stats w)))"
    "web_serve html svg i HTTP_GET ''/wifips'' w = Some (w, json_reply (build_wifips_json 32 (wb_stats w)))"
    "web_serve html svg i HTTP_GET ''/hostname'' w = Some (w, json_reply (build_hostname_json 96 (wb_stats w)))"
    "web_serve html svg i HTTP_GET ''/scan'' w = Some (w, json_reply (build_scan_json 48 (wb_stats w)))"
    by (simp_all add: web_serve_def register_endpoints_def run_endpoint_def)
  then show "(path, cap, build) \<in> set getter_http \<Longrightarrow> ?thesis" unfolding getter_http_def by (elim set_ConsD [THEN disjE]) simp_all
qed

lemma getter_dispatch:
  "(path, cap, build) \<in> set getter_http \<Longrightarrow> dispatch i qkv ''GET'' path n b = (b, built (build n (wb_stats (bw_web b))))"
proof -
  have "dispatch i qkv ''GET'' ''/level'' n b = (b, built (build_level_json n (wb_stats (bw_web b))))"
    "dispatch i qkv ''GET'' ''/txpower'' n b = (b, built (build_txpower_json n (wb_stats (bw_web b))))"
    "dispatch i qkv ''GET'' ''/cpufreq'' n b = (b, built (build_cpufreq_json n (wb_stats (bw_web b))))"
    "dispatch i qkv ''GET'' ''/advitvl'' n b = (b, built (build_advitvl_json n (wb_stats (bw_web b))))"
    "dispatch i qkv ''GET'' ''/wifips'' n b = (b, built (build_wifips_json n (wb_stats (bw_web b))))"
    "dispatch i qkv ''GET'' ''/hostname'' n b = (b, built (build_hostname_json n (wb_stats (bw_web b))))"
    "dispatch i qkv ''GET'' ''/scan'' n b = (b, built (build_scan_json n (wb_stats (bw_web b))))"
    by (simp_all add: dispatch_def)
  then show "(path, cap, build) \<in> set getter_http \<Longrightarrow> ?thesis" unfolding getter_http_def by (elim set_ConsD [THEN disjE]) simp_all
qed


section \<open>The GATT server keeps the gate\<close>

lemma gated_inv: "bb_inv r \<Longrightarrow> bb_inv (adv_start_gated ok r)"
  by (auto simp: adv_start_gated_def bb_inv_def advertising_enabled_def adv_allowed_def)

text \<open>Registering the server happens once, keeps the radio's invariant (no advertising behind the master switch) and leaves the
  scan as it was when the stack can restart it.\<close>

theorem activate_once:
  assumes "bb_inv r" "bh_activate server_ok scan_ok adv_ok (s, r) = (s', r')"
  shows "bb_inv r' \<and> bs_activated s' \<and> bh_activate server_ok' scan_ok' adv_ok' (s', r') = (s', r') \<and>
    (scan_ok \<longrightarrow> sc_scanning (bb_scanner r) \<longrightarrow> sc_scanning (bb_scanner r')) \<and> bb_inv (bh_on_connect ok r') \<and> bb_inv (bh_on_disconnect ok r')"
proof -
  have "bs_activated s'" using assms(2) by (auto simp: bh_activate_def Let_def split: if_splits)
  moreover have "bb_inv r'" using assms by (auto simp: bh_activate_def Let_def gated_inv split: if_splits)
  moreover have "scan_ok \<longrightarrow> sc_scanning (bb_scanner r) \<longrightarrow> sc_scanning (bb_scanner r')"
    using assms(2) by (auto simp: bh_activate_def Let_def scanner_resume_def scanner_pause_def adv_start_gated_def split: if_splits)
  ultimately show ?thesis by (auto simp: bh_activate_def bh_on_connect_def bh_on_disconnect_def gated_inv)
qed


end
