(* ===== verification/Ota.thy ===== *)
theory Ota
  imports Ble_Backend Nat_Router
begin

text \<open>
  Firmware update over HTTP, \<^verbatim>\<open>components/ota/ota.cpp\<close>, with the radio hooks \<^verbatim>\<open>main.cpp\<close> gives it. The flash layer is third-party
  code: each of its calls succeeds or not as \<open>ota_env\<close> says, and the calls made are recorded in order. The request body arrives as a
  sequence of receive results; when the sequence ends without an end of stream the handler is still waiting (\<open>None\<close>).
\<close>

text \<open>What \<open>httpd_req_recv\<close> returns: at least one byte of data, a timeout, the end, or another error.\<close>

datatype ota_recv = Ota_data "u8 list" | Ota_timeout | Ota_eof | Ota_recv_error

datatype ota_call =
    Ota_begin
  | Ota_write "u8 list"
  | Ota_abort
  | Ota_end
  | Ota_set_boot
  | Ota_restart

record ota_env =
  oe_target :: "string option"          \<comment> \<open>label of the inactive partition\<close>
  oe_begin :: bool
  oe_write :: "nat \<Rightarrow> bool"            \<comment> \<open>the write after so many bytes\<close>
  oe_end :: bool
  oe_set_boot :: bool

text \<open>The download loop: what was written, its length, and the error if there was one.\<close>

fun ota_receive :: "ota_env \<Rightarrow> ota_recv list \<Rightarrow> nat \<Rightarrow> ota_call list \<Rightarrow> (ota_call list \<times> nat \<times> string option) option" where
  "ota_receive env [] tot cs = None"
| "ota_receive env (Ota_eof # rs) tot cs = Some (cs, tot, None)"
| "ota_receive env (Ota_timeout # rs) tot cs = ota_receive env rs tot cs"
| "ota_receive env (Ota_recv_error # rs) tot cs = Some (cs @ [Ota_abort], tot, Some ''recv failed'')"
| "ota_receive env (Ota_data bs # rs) tot cs =
     (if oe_write env tot then ota_receive env rs (tot + length bs) (cs @ [Ota_write bs])
      else Some (cs @ [Ota_write bs, Ota_abort], tot, Some ''ota_write failed''))"

definition bad_image :: string where
  "bad_image = ''ota_end failed '' @ [CHR 0xE2, CHR 0x80, CHR 0x94] @ '' bad image?''"

text \<open>The handler; \<open>begin_fn\<close> and \<open>end_fn\<close> are the hooks (identity when none is set) on whatever they act on.\<close>

definition update_post ::
  "('s \<Rightarrow> 's) \<Rightarrow> ('s \<Rightarrow> 's) \<Rightarrow> ota_env \<Rightarrow> ota_recv list \<Rightarrow> 's \<Rightarrow> ('s \<times> ota_call list \<times> http_resp) option" where
  "update_post begin_fn end_fn env rs s =
     (case oe_target env of
        None \<Rightarrow> Some (s, [], Http_error 500 ''no OTA partition'')
      | Some label \<Rightarrow>
          let s = begin_fn s in
          if \<not> oe_begin env then Some (end_fn s, [Ota_begin], Http_error 500 ''ota_begin failed'')
          else case ota_receive env rs 0 [Ota_begin] of
                 None \<Rightarrow> None
               | Some (cs, tot, Some e) \<Rightarrow> Some (end_fn s, cs, Http_error 500 e)
               | Some (cs, tot, None) \<Rightarrow>
                   if \<not> oe_end env then Some (end_fn s, cs @ [Ota_end], Http_error 400 bad_image)
                   else if \<not> oe_set_boot env then Some (end_fn s, cs @ [Ota_end, Ota_set_boot], Http_error 500 ''set_boot failed'')
                   else Some (s, cs @ [Ota_end, Ota_set_boot, Ota_restart],
                          Http_ok ''text/plain'' (snprintf_text 80 (''ok: wrote '' @ show_nat tot @ '' bytes to '' @ label @ '', rebooting'' @ [CHR 0x0A]))))"

section \<open>The hooks of the application\<close>

text \<open>The radio users: the access point and the Bluetooth backend. \<open>ok\<close> is whether the stack restarts scan and advertising.\<close>

record radio_users =
  ru_nat :: nat_state
  ru_ble :: ble_backend

definition quiesce_begin :: "bool \<Rightarrow> radio_users \<Rightarrow> radio_users" where
  "quiesce_begin ok r = (let r = r\<lparr>ru_nat := nat_pause_for_ota (ru_nat r)\<rparr> in r\<lparr>ru_ble := quiesce_for_ota ok (ru_ble r)\<rparr>)"

definition quiesce_end :: "nat_env \<Rightarrow> bool \<Rightarrow> radio_users \<Rightarrow> radio_users" where
  "quiesce_end nenv ok r = (let r = r\<lparr>ru_ble := resume_after_ota ok (ru_ble r)\<rparr> in r\<lparr>ru_nat := nat_resume_after_ota nenv (ru_nat r)\<rparr>)"

section \<open>What is flashed\<close>

fun ota_body :: "ota_recv list \<Rightarrow> u8 list" where
  "ota_body [] = []"
| "ota_body (Ota_data bs # rs) = bs @ ota_body rs"
| "ota_body (Ota_timeout # rs) = ota_body rs"
| "ota_body (Ota_eof # rs) = []"
| "ota_body (Ota_recv_error # rs) = []"

fun ends_cleanly :: "ota_recv list \<Rightarrow> bool" where
  "ends_cleanly [] = False"
| "ends_cleanly (Ota_data bs # rs) = ends_cleanly rs"
| "ends_cleanly (Ota_timeout # rs) = ends_cleanly rs"
| "ends_cleanly (Ota_eof # rs) = True"
| "ends_cleanly (Ota_recv_error # rs) = False"

definition flashed :: "ota_call list \<Rightarrow> u8 list" where
  "flashed cs = concat (map (\<lambda>c. case c of Ota_write bs \<Rightarrow> bs | _ \<Rightarrow> []) cs)"

lemma flashed_simps [simp]: "flashed [] = []" "flashed (xs @ ys) = flashed xs @ flashed ys" "flashed (Ota_write bs # cs) = bs @ flashed cs"
  "flashed (Ota_begin # cs) = flashed cs" "flashed (Ota_abort # cs) = flashed cs" "flashed (Ota_end # cs) = flashed cs"
  "flashed (Ota_set_boot # cs) = flashed cs" "flashed (Ota_restart # cs) = flashed cs"
  by (simp_all add: flashed_def)

lemma ota_receive_done:
  "ota_receive env rs tot cs = Some (cs', tot', None) \<Longrightarrow>
   ends_cleanly rs \<and> flashed cs' = flashed cs @ ota_body rs \<and> tot' = tot + length (ota_body rs) \<and>
   (Ota_set_boot \<in> set cs' \<longleftrightarrow> Ota_set_boot \<in> set cs) \<and> (Ota_abort \<in> set cs' \<longleftrightarrow> Ota_abort \<in> set cs)"
proof (induction env rs tot cs rule: ota_receive.induct)
  case (5 env bs rs tot cs)
  then show ?case by (auto split: if_splits)
qed auto

lemma ota_receive_failed:
  "ota_receive env rs tot cs = Some (cs', tot', Some e) \<Longrightarrow>
   last cs' = Ota_abort \<and> cs' \<noteq> [] \<and> (Ota_set_boot \<in> set cs' \<longleftrightarrow> Ota_set_boot \<in> set cs)"
proof (induction env rs tot cs rule: ota_receive.induct)
  case (5 env bs rs tot cs)
  then show ?case by (auto split: if_splits)
qed auto

lemma ota_receive_no_restart:
  "ota_receive env rs tot cs = Some (cs', tot', e) \<Longrightarrow> Ota_restart \<notin> set cs \<Longrightarrow> Ota_restart \<notin> set cs'"
  by (induction env rs tot cs rule: ota_receive.induct) (auto split: if_splits)

lemma ota_receive_ok:
  "(\<forall>n. oe_write env n) \<Longrightarrow> ends_cleanly rs \<Longrightarrow> \<exists>cs' tot'. ota_receive env rs tot cs = Some (cs', tot', None)"
  by (induction env rs tot cs rule: ota_receive.induct) auto

lemma update_outcome:
  assumes "update_post begin_fn end_fn env rs s = Some (s', cs, r)"
  shows "(if Ota_restart \<in> set cs
      then ends_cleanly rs \<and> flashed cs = ota_body rs \<and> oe_begin env \<and> oe_end env \<and> oe_set_boot env \<and> Ota_abort \<notin> set cs \<and>
        (\<exists>label. oe_target env = Some label \<and> r = Http_ok ''text/plain''
          (snprintf_text 80 (''ok: wrote '' @ show_nat (length (ota_body rs)) @ '' bytes to '' @ label @ '', rebooting'' @ [CHR 0x0A])))
      else (\<exists>code e. r = Http_error code e) \<and> (oe_set_boot env \<longrightarrow> Ota_set_boot \<notin> set cs) \<and> (s' = s \<and> cs = [] \<or> s' = end_fn (begin_fn s)))"
proof (cases "oe_target env")
  case None
  then show ?thesis using assms by (auto simp: update_post_def)
next
  case (Some label)
  show ?thesis
  proof (cases "oe_begin env")
    case False
    then show ?thesis using assms Some by (auto simp: update_post_def Let_def)
  next
    case True
    then obtain cz tot e where r: "ota_receive env rs 0 [Ota_begin] = Some (cz, tot, e)"
      using assms Some by (cases "ota_receive env rs 0 [Ota_begin]") (auto simp: update_post_def Let_def)
    show ?thesis
    proof (cases e)
      case None
      from None r ota_receive_done [of env rs 0 "[Ota_begin]" cz tot] ota_receive_no_restart [OF r]
      show ?thesis using assms Some True by (auto simp: update_post_def Let_def split: if_splits)
    next
      case (Some err)
      from Some r ota_receive_failed [of env rs 0 "[Ota_begin]" cz tot err] ota_receive_no_restart [OF r]
      show ?thesis using assms \<open>oe_target env = Some label\<close> True by (auto simp: update_post_def Let_def)
    qed
  qed
qed

text \<open>C38: An update is all or nothing. When the handler answers, it either restarts the device, and then every byte of the body was
  written in order, the stream had ended cleanly, the image was accepted, the new partition was selected and the number of bytes
  reported is right; or it answers an error, the boot partition was not changed, and the state is what the closing hook makes of the opened
  one (untouched when no hook was called). With a flash layer that works, a body that ends cleanly does restart it.\<close>

theorem update_all_or_nothing:
  assumes "update_post begin_fn end_fn env rs s = Some (s', cs, r)"
  shows "(if Ota_restart \<in> set cs
      then ends_cleanly rs \<and> flashed cs = ota_body rs \<and> oe_begin env \<and> oe_end env \<and> oe_set_boot env \<and> Ota_abort \<notin> set cs \<and>
        (\<exists>label. oe_target env = Some label \<and> r = Http_ok ''text/plain''
          (snprintf_text 80 (''ok: wrote '' @ show_nat (length (ota_body rs)) @ '' bytes to '' @ label @ '', rebooting'' @ [CHR 0x0A])))
      else (\<exists>code e. r = Http_error code e) \<and> (oe_set_boot env \<longrightarrow> Ota_set_boot \<notin> set cs) \<and> (s' = s \<and> cs = [] \<or> s' = end_fn (begin_fn s)))"
  by (rule update_outcome [OF assms])

text \<open>With a flash layer that works, a body that ends cleanly is flashed and booted.\<close>

lemma update_succeeds:
  assumes "oe_target env = Some label" "oe_begin env" "\<forall>n. oe_write env n" "oe_end env" "oe_set_boot env" "ends_cleanly rs"
  shows "\<exists>cs r. update_post begin_fn end_fn env rs s = Some (begin_fn s, cs, r) \<and> Ota_restart \<in> set cs \<and> flashed cs = ota_body rs"
proof -
  obtain cs tot where r: "ota_receive env rs 0 [Ota_begin] = Some (cs, tot, None)"
    using ota_receive_ok [OF assms(3,6), of 0 "[Ota_begin]"] by blast
  then show ?thesis using assms ota_receive_done [OF r] by (simp add: update_post_def)
qed

section \<open>Failed updates and the radio\<close>

lemma ap_down_resume_flag [simp]: "nr_ota_resume (ap_down s) = nr_ota_resume s"
  by (simp add: ap_down_def Let_def calls_def call_def remove_all_live_def)

lemma nat_pause_resume:
  "nr_enabled (nat_resume_after_ota env (nat_pause_for_ota s)) = nr_enabled s"
  "nr_portmap (nat_resume_after_ota env (nat_pause_for_ota s)) = nr_portmap s"
proof -
  have "nr_portmap (ap_up env s) = nr_portmap s" "nr_portmap (ap_down s) = nr_portmap s" for s
    using nat_coreD(1) [OF core_ap_up, of env s] nat_coreD(1) [OF core_ap_down, of s] by simp_all
  then show "nr_enabled (nat_resume_after_ota env (nat_pause_for_ota s)) = nr_enabled s"
    "nr_portmap (nat_resume_after_ota env (nat_pause_for_ota s)) = nr_portmap s"
    by (simp_all add: nat_resume_after_ota_def nat_pause_for_ota_def Let_def)
qed

lemma ota_suspend_frames:
  "bb_scanner (set_advertising_auto_suspend ok x b) = bb_scanner b" "bb_ota_quiesce (set_advertising_auto_suspend ok x b) = bb_ota_quiesce b"
  by (simp_all add: set_advertising_auto_suspend_def apply_adv_state_def Let_def split: option.split)

lemma quiesce_resume_scan:
  "sc_present (bb_scanner b) \<Longrightarrow> sc_scanning (bb_scanner (resume_after_ota True (quiesce_for_ota ok b)))"
  "\<not> bb_ota_quiesce (resume_after_ota ok' (quiesce_for_ota ok b))"
  by (simp_all add: resume_after_ota_def quiesce_for_ota_def Let_def ota_suspend_frames scanner_resume_def scanner_pause_def)

lemma quiesce_resume_inv: "bb_inv b \<Longrightarrow> bb_inv (resume_after_ota ok' (quiesce_for_ota ok b))"
  by (simp add: resume_after_ota_def quiesce_for_ota_def Let_def)


section \<open>Witnesses\<close>

definition ota_good :: ota_env where
  "ota_good = \<lparr>oe_target = Some ''ota_1'', oe_begin = True, oe_write = (\<lambda>_. True), oe_end = True, oe_set_boot = True\<rparr>"

theorem update_all_or_nothing_witness:
  "\<exists>s' cs r. update_post id id ota_good [Ota_data [1, 2], Ota_timeout, Ota_data [3], Ota_eof] (0 :: nat) = Some (s', cs, r) \<and> Ota_restart \<in> set cs \<and> flashed cs = [1, 2, 3]"
proof -
  have "\<exists>cs r. update_post id id ota_good [Ota_data [1, 2], Ota_timeout, Ota_data [3], Ota_eof] (0 :: nat) = Some (id 0, cs, r) \<and> Ota_restart \<in> set cs"
    using update_succeeds [of ota_good "''ota_1''" "[Ota_data [1, 2], Ota_timeout, Ota_data [3], Ota_eof]" id id 0] by (auto simp: ota_good_def)
  then obtain cs r where u: "update_post id id ota_good [Ota_data [1, 2], Ota_timeout, Ota_data [3], Ota_eof] (0 :: nat) = Some (id 0, cs, r)" "Ota_restart \<in> set cs" by blast
  from update_all_or_nothing [OF u(1)] u show ?thesis by auto
qed


end
