(* ===== verification/Ws_Proxy.thy ===== *)
theory Ws_Proxy
  imports Api_Proto
begin

text \<open>
  The browser bridge, \<^verbatim>\<open>components/ws_proxy/ws_proxy.cpp\<close>: each WebSocket of the dashboard server is joined to a loopback connection
  into the API server. Two tasks touch a session: the HTTP server's (opening, frames from the browser, teardown) and the session's
  pump (bytes from the API server). They interleave as the step relation below; the answers of sockets and allocators
  are inputs. A session keeps the bytes that came in and went out on each side.
\<close>

definition MAX_WS_SESSIONS :: u8 where "MAX_WS_SESSIONS = 2"
definition WS_RX_MAX :: nat where "WS_RX_MAX = MAX_MESSAGE_SIZE"

text \<open>The pump is in its loop, past it (before the semaphore is given), or gone.\<close>

datatype pump_phase = Pump_running | Pump_leaving | Pump_gone

record ws_session =
  ws_fd :: nat
  ws_loop_fd :: nat
  ws_closing :: bool
  ws_pump :: pump_phase
  ws_from_loop :: "u8 list"
  ws_to_browser :: "u8 list"
  ws_from_browser :: "u8 list"
  ws_to_loop :: "u8 list"

text \<open>\<open>wp_fds\<close> are the loopback sockets that are open, \<open>wp_closes\<close> the requests to close a browser socket.\<close>

record ws_proxy =
  wp_count :: u8
  wp_sessions :: "ws_session list"
  wp_fds :: "nat list"
  wp_closes :: "nat list"

definition ws_initial :: ws_proxy where
  "ws_initial = \<lparr>wp_count = 0, wp_sessions = [], wp_fds = [], wp_closes = []\<rparr>"

section \<open>Opening\<close>

record ws_open_env =
  wo_socket :: "nat option"
  wo_connect :: bool
  wo_alloc :: bool
  wo_semaphore :: bool
  wo_task :: bool

definition close_fd :: "nat \<Rightarrow> ws_proxy \<Rightarrow> ws_proxy" where
  "close_fd fd s = s\<lparr>wp_fds := remove1 fd (wp_fds s)\<rparr>"

definition connect_loopback :: "ws_open_env \<Rightarrow> ws_proxy \<Rightarrow> ws_proxy \<times> nat option" where
  "connect_loopback env s =
     (case wo_socket env of
        None \<Rightarrow> (s, None)
      | Some fd \<Rightarrow>
          let s = s\<lparr>wp_fds := fd # wp_fds s\<rparr>
          in if \<not> wo_connect env then (close_fd fd s, None) else (s, Some fd))"

definition new_session :: "nat \<Rightarrow> nat \<Rightarrow> ws_session" where
  "new_session browser_fd loop_fd =
     \<lparr>ws_fd = browser_fd, ws_loop_fd = loop_fd, ws_closing = False, ws_pump = Pump_running, ws_from_loop = [], ws_to_browser = [],
      ws_from_browser = [], ws_to_loop = []\<rparr>"

definition ws_open :: "ws_open_env \<Rightarrow> nat \<Rightarrow> ws_proxy \<Rightarrow> ws_proxy \<times> bool" where
  "ws_open env browser_fd s =
     (if wp_count s \<ge> MAX_WS_SESSIONS then (s, False)
      else case connect_loopback env s of
             (s, None) \<Rightarrow> (s, False)
           | (s, Some fd) \<Rightarrow>
               if \<not> wo_alloc env then (close_fd fd s, False)
               else if \<not> wo_semaphore env then (close_fd fd s, False)
               else if \<not> wo_task env then (close_fd fd s, False)
               else (s\<lparr>wp_sessions := wp_sessions s @ [new_session browser_fd fd], wp_count := wp_count s + 1\<rparr>, True))"

section \<open>From the browser\<close>

text \<open>The send loop: what the loopback socket took and whether all of it; \<open>None\<close> while the socket has not answered.\<close>

fun forward_to_loopback :: "int list \<Rightarrow> u8 list \<Rightarrow> (u8 list \<times> bool) option" where
  "forward_to_loopback rs [] = Some ([], True)"
| "forward_to_loopback [] data = None"
| "forward_to_loopback (r # rs) data =
     (if r < 0 then Some ([], False)
      else map_option (\<lambda>(sent, ok). (take (nat r) data @ sent, ok)) (forward_to_loopback rs (drop (nat r) data)))"

text \<open>A data frame: its length first (\<open>None\<close> when that fails), then its bytes. The result says whether the session goes on.\<close>

definition ws_frame :: "nat option \<Rightarrow> u8 list option \<Rightarrow> int list \<Rightarrow> ws_session \<Rightarrow> (ws_session \<times> bool) option" where
  "ws_frame len payload sends s =
     (case len of
        None \<Rightarrow> Some (s, False)
      | Some n \<Rightarrow>
          if n = 0 then Some (s, True)
          else if n > WS_RX_MAX then Some (s, False)
          else case payload of
                 None \<Rightarrow> Some (s, False)
               | Some bs \<Rightarrow> map_option (\<lambda>(sent, ok). (s\<lparr>ws_from_browser := ws_from_browser s @ bs, ws_to_loop := ws_to_loop s @ sent\<rparr>, ok))
                              (forward_to_loopback sends bs))"

section \<open>The pump and the teardown\<close>

text \<open>One turn of the pump's loop: what the loopback socket gave (nothing: end of stream; \<open>None\<close>: error) and whether the frame could be sent.\<close>

definition pump_turn :: "u8 list option \<Rightarrow> bool \<Rightarrow> ws_session \<Rightarrow> ws_session" where
  "pump_turn got send_ok s =
     (if ws_pump s \<noteq> Pump_running then s
      else if ws_closing s then s\<lparr>ws_pump := Pump_leaving\<rparr>
      else case got of
             None \<Rightarrow> s\<lparr>ws_pump := Pump_leaving\<rparr>
           | Some bs \<Rightarrow>
               if bs = [] then s\<lparr>ws_pump := Pump_leaving\<rparr>
               else if send_ok then s\<lparr>ws_from_loop := ws_from_loop s @ bs, ws_to_browser := ws_to_browser s @ bs\<rparr>
               else s\<lparr>ws_from_loop := ws_from_loop s @ bs, ws_pump := Pump_leaving\<rparr>)"

text \<open>After the loop: ask for the teardown unless it is under way, and give the semaphore; nothing of the session is touched after that.\<close>

definition pump_leave :: "ws_session \<Rightarrow> ws_session \<times> nat option" where
  "pump_leave s =
     (if ws_pump s \<noteq> Pump_leaving then (s, None)
      else (s\<lparr>ws_pump := Pump_gone\<rparr>, if ws_closing s then None else Some (ws_fd s)))"

definition free_begin :: "ws_session \<Rightarrow> ws_session" where
  "free_begin s = s\<lparr>ws_closing := True\<rparr>"

definition free_end :: "nat \<Rightarrow> ws_proxy \<Rightarrow> ws_proxy" where
  "free_end i s =
     (let x = wp_sessions s ! i; s = close_fd (ws_loop_fd x) s
      in s\<lparr>wp_count := wp_count s - 1, wp_sessions := take i (wp_sessions s) @ drop (Suc i) (wp_sessions s)\<rparr>)"

section \<open>The two tasks\<close>

definition upd :: "nat \<Rightarrow> ws_session \<Rightarrow> ws_proxy \<Rightarrow> ws_proxy" where
  "upd i x s = s\<lparr>wp_sessions := (wp_sessions s)[i := x]\<rparr>"

text \<open>The server tears a session down when its handler fails. The teardown blocks in \<open>xSemaphoreTake\<close> until the pump is gone. A new socket is not among the open ones.\<close>

inductive ws_step :: "ws_proxy \<Rightarrow> ws_proxy \<Rightarrow> bool" where
  st_open: "\<forall>fd. wo_socket env = Some fd \<longrightarrow> fd \<notin> set (wp_fds s) \<Longrightarrow> ws_open env browser_fd s = (s', ok) \<Longrightarrow> ws_step s s'"
| st_frame: "i < length (wp_sessions s) \<Longrightarrow> \<not> ws_closing (wp_sessions s ! i) \<Longrightarrow> ws_frame len payload sends (wp_sessions s ! i) = Some (x, ok) \<Longrightarrow>
    ws_step s (upd i (if ok then x else free_begin x) s)"
| st_pump: "i < length (wp_sessions s) \<Longrightarrow> ws_step s (upd i (pump_turn got send_ok (wp_sessions s ! i)) s)"
| st_leave: "i < length (wp_sessions s) \<Longrightarrow> pump_leave (wp_sessions s ! i) = (x, c) \<Longrightarrow>
    ws_step s ((upd i x s)\<lparr>wp_closes := wp_closes s @ (case c of Some fd \<Rightarrow> [fd] | None \<Rightarrow> [])\<rparr>)"
| st_free_begin: "i < length (wp_sessions s) \<Longrightarrow> ws_step s (upd i (free_begin (wp_sessions s ! i)) s)"
| st_free_end: "i < length (wp_sessions s) \<Longrightarrow> ws_closing (wp_sessions s ! i) \<Longrightarrow> ws_pump (wp_sessions s ! i) = Pump_gone \<Longrightarrow> ws_step s (free_end i s)"

inductive ws_reachable :: "ws_proxy \<Rightarrow> bool" where
  ws_init: "ws_reachable ws_initial"
| ws_next: "ws_reachable s \<Longrightarrow> ws_step s t \<Longrightarrow> ws_reachable t"

section \<open>Nothing leaks, nothing is lost\<close>

definition prefix_of :: "'a list \<Rightarrow> 'a list \<Rightarrow> bool" where
  "prefix_of xs ys \<longleftrightarrow> take (length xs) ys = xs"

definition session_ok :: "ws_session \<Rightarrow> bool" where
  "session_ok x \<longleftrightarrow> prefix_of (ws_to_browser x) (ws_from_loop x) \<and> (ws_pump x = Pump_running \<longrightarrow> ws_to_browser x = ws_from_loop x) \<and>
     prefix_of (ws_to_loop x) (ws_from_browser x) \<and> (\<not> ws_closing x \<longrightarrow> ws_to_loop x = ws_from_browser x)"

definition ws_inv :: "ws_proxy \<Rightarrow> bool" where
  "ws_inv s \<longleftrightarrow> unat (wp_count s) = length (wp_sessions s) \<and> length (wp_sessions s) \<le> 2 \<and>
     distinct (wp_fds s) \<and> distinct (map ws_loop_fd (wp_sessions s)) \<and> set (wp_fds s) = set (map ws_loop_fd (wp_sessions s)) \<and>
     list_all session_ok (wp_sessions s)"

lemma forward_all_sent: "forward_to_loopback rs data = Some (sent, ok) \<Longrightarrow> prefix_of sent data \<and> (ok \<longrightarrow> sent = data)"
proof (induction rs data arbitrary: sent ok rule: forward_to_loopback.induct)
  case (3 r rs v va)
  show ?case
  proof (cases "r < 0")
    case True
    then show ?thesis using "3.prems" by (simp add: prefix_of_def)
  next
    case False
    then obtain sent' where f: "forward_to_loopback rs (drop (nat r) (v # va)) = Some (sent', ok)" "sent = take (nat r) (v # va) @ sent'"
      using "3.prems" by auto
    from "3.IH" [OF False f(1)] have p: "take (length sent') (drop (nat r) (v # va)) = sent'" "ok \<longrightarrow> sent' = drop (nat r) (v # va)"
      by (simp_all add: prefix_of_def)
    have "take (length sent) (v # va) = take (nat r) (v # va) @ take (length sent') (drop (nat r) (v # va))"
    proof (cases "nat r \<le> length (v # va)")
      case True
      then have "length sent = nat r + length sent'" using f(2) by simp
      then show ?thesis by (simp only: take_add)
    next
      case False
      then have "drop (nat r) (v # va) = []" by simp
      then show ?thesis using p(1) f(2) False by simp
    qed
    then show ?thesis using p f(2) by (simp add: prefix_of_def)
  qed
qed (auto simp: prefix_of_def)

lemma prefix_of_append: "prefix_of xs ys \<Longrightarrow> prefix_of (zs @ xs) (zs @ ys)" "prefix_of xs xs"
  by (simp_all add: prefix_of_def)

lemma prefix_of_more: "prefix_of xs ys \<Longrightarrow> prefix_of xs (ys @ zs)"
proof -
  assume p: "prefix_of xs ys"
  then have "length xs \<le> length ys" unfolding prefix_of_def by (metis length_take min.cobounded2 min.commute)
  with p show ?thesis by (simp add: prefix_of_def)
qed

lemma session_ok_ops:
  assumes "session_ok x"
  shows "session_ok (pump_turn got send_ok x)" "session_ok (fst (pump_leave x))" "session_ok (free_begin x)"
    "\<not> ws_closing x \<Longrightarrow> ws_frame len payload sends x = Some (y, ok) \<Longrightarrow> session_ok (if ok then y else free_begin y)"
proof -
  show "session_ok (pump_turn got send_ok x)" using assms
    by (auto simp: session_ok_def pump_turn_def prefix_of_append intro: prefix_of_more split: option.split)
  show "session_ok (fst (pump_leave x))" "session_ok (free_begin x)" using assms by (auto simp: session_ok_def pump_leave_def free_begin_def)
  assume c: "\<not> ws_closing x" and f: "ws_frame len payload sends x = Some (y, ok)"
  then consider "y = x" | bs sent where "forward_to_loopback sends bs = Some (sent, ok)"
      "y = x\<lparr>ws_from_browser := ws_from_browser x @ bs, ws_to_loop := ws_to_loop x @ sent\<rparr>"
    by (auto simp: ws_frame_def split: option.splits if_splits)
  then show "session_ok (if ok then y else free_begin y)"
  proof cases
    case 1
    then show ?thesis using assms by (simp add: session_ok_def free_begin_def)
  next
    case 2
    from forward_all_sent [OF 2(1)] show ?thesis using assms c by (auto simp: 2(2) session_ok_def free_begin_def prefix_of_append)
  qed
qed

lemma loop_fd_ops [simp]: "ws_loop_fd (pump_turn got send_ok x) = ws_loop_fd x" "ws_loop_fd (fst (pump_leave x)) = ws_loop_fd x" "ws_loop_fd (free_begin x) = ws_loop_fd x"
  by (auto simp: pump_turn_def pump_leave_def free_begin_def split: option.split)

lemma loop_fd_frame: "ws_frame len payload sends x = Some (y, ok) \<Longrightarrow> ws_loop_fd (if ok then y else free_begin y) = ws_loop_fd x"
  by (auto simp: ws_frame_def free_begin_def split: option.splits if_splits)

lemma upd_inv:
  assumes "ws_inv s" "i < length (wp_sessions s)" "session_ok x" "ws_loop_fd x = ws_loop_fd (wp_sessions s ! i)"
  shows "ws_inv (upd i x s)"
proof -
  have "map ws_loop_fd ((wp_sessions s)[i := x]) = map ws_loop_fd (wp_sessions s)"
    using assms(2,4) by (simp add: map_update list_update_same_conv)
  then show ?thesis using assms(1,3)
    by (auto simp: ws_inv_def upd_def list_all_iff dest: set_update_subset_insert [THEN subsetD])
qed

lemma closes_inv [simp]: "ws_inv (s\<lparr>wp_closes := c\<rparr>) = ws_inv s"
  by (simp add: ws_inv_def)

lemma open_inv:
  assumes "ws_inv s" "\<forall>fd. wo_socket env = Some fd \<longrightarrow> fd \<notin> set (wp_fds s)" "ws_open env browser_fd s = (s', ok)"
  shows "ws_inv s' \<and> (\<not> ok \<longrightarrow> s' = s)"
proof (cases "wp_count s \<ge> MAX_WS_SESSIONS \<or> wo_socket env = None")
  case True
  then have "s' = s" using assms(3) by (auto simp: ws_open_def connect_loopback_def split: if_splits)
  then show ?thesis using assms(1) by simp
next
  case False
  then obtain fd where fd: "wo_socket env = Some fd" "fd \<notin> set (wp_fds s)" and c: "\<not> wp_count s \<ge> MAX_WS_SESSIONS" using assms(2) by auto
  have undo: "close_fd fd (s\<lparr>wp_fds := fd # wp_fds s\<rparr>) = s" by (simp add: close_fd_def)
  show ?thesis
  proof (cases "wo_connect env \<and> wo_alloc env \<and> wo_semaphore env \<and> wo_task env")
    case False
    then have "s' = s" "\<not> ok" using assms(3) fd c undo by (auto simp: ws_open_def connect_loopback_def Let_def split: if_splits)
    then show ?thesis using assms(1) by simp
  next
    case True
    then have s': "s' = s\<lparr>wp_fds := fd # wp_fds s, wp_sessions := wp_sessions s @ [new_session browser_fd fd], wp_count := wp_count s + 1\<rparr>" "ok"
      using assms(3) fd c by (auto simp: ws_open_def connect_loopback_def Let_def)
    have l: "unat (wp_count s) < 2" using c by (simp add: MAX_WS_SESSIONS_def word_le_nat_alt)
    then have u: "unat (wp_count s + 1) = unat (wp_count s) + 1" by (simp add: unat_word_ariths)
    have "session_ok (new_session browser_fd fd)" by (simp add: session_ok_def new_session_def prefix_of_def)
    moreover have "ws_loop_fd (new_session browser_fd fd) = fd" by (simp add: new_session_def)
    ultimately show ?thesis using assms(1) fd(2) s' l u by (auto simp: ws_inv_def)
  qed
qed

lemma free_end_inv:
  assumes "ws_inv s" "i < length (wp_sessions s)"
  shows "ws_inv (free_end i s)"
proof -
  define xs where "xs = wp_sessions s"
  have split: "xs = take i xs @ xs ! i # drop (Suc i) xs" using assms(2) by (simp add: xs_def id_take_nth_drop)
  have d: "distinct (map ws_loop_fd (take i xs @ xs ! i # drop (Suc i) xs))" using assms(1) split by (simp add: ws_inv_def xs_def)
  have f: "set (wp_fds s) = set (map ws_loop_fd (take i xs @ xs ! i # drop (Suc i) xs))" using assms(1) split by (simp add: ws_inv_def xs_def)
  have "0 < length (wp_sessions s)" using assms(2) by linarith
  then have "0 < unat (wp_count s)" using assms(1) by (simp add: ws_inv_def)
  then have u: "unat (wp_count s - 1) = unat (wp_count s) - 1" by (metis gr_implies_not0 unat_eq_zero unat_minus_one)
  have "set (remove1 (ws_loop_fd (xs ! i)) (wp_fds s)) = set (map ws_loop_fd (take i xs @ drop (Suc i) xs))"
    using assms(1) f d by (auto simp: ws_inv_def set_remove1_eq)
  moreover have "list_all session_ok (take i xs @ drop (Suc i) xs)"
    using assms(1) by (auto simp: ws_inv_def xs_def list_all_iff dest: in_set_takeD in_set_dropD)
  moreover have "distinct (map ws_loop_fd (take i xs @ drop (Suc i) xs))" using d by auto
  ultimately show ?thesis using assms u
    by (simp add: ws_inv_def free_end_def close_fd_def Let_def xs_def distinct_remove1) linarith
qed

lemma step_inv: "ws_step s t \<Longrightarrow> ws_inv s \<Longrightarrow> ws_inv t"
proof (induction rule: ws_step.induct)
  case (st_open env s browser_fd s' ok)
  then show ?case using open_inv by blast
next
  case (st_frame i s len payload sends x ok)
  then have "session_ok (wp_sessions s ! i)" by (simp add: ws_inv_def list_all_length)
  from session_ok_ops(4) [OF this st_frame.hyps(2,3)] loop_fd_frame [OF st_frame.hyps(3)] show ?case using st_frame by (intro upd_inv) simp_all
next
  case (st_pump i s got send_ok)
  then have "session_ok (wp_sessions s ! i)" by (simp add: ws_inv_def list_all_length)
  from session_ok_ops(1) [OF this] show ?case using st_pump by (intro upd_inv) simp_all
next
  case (st_leave i s x c)
  then have "session_ok (wp_sessions s ! i)" by (simp add: ws_inv_def list_all_length)
  from session_ok_ops(2) [OF this] loop_fd_ops(2) [of "wp_sessions s ! i"] show ?case using st_leave by (simp add: upd_inv)
next
  case (st_free_begin i s)
  then have "session_ok (wp_sessions s ! i)" by (simp add: ws_inv_def list_all_length)
  from session_ok_ops(3) [OF this] show ?case using st_free_begin by (intro upd_inv) simp_all
next
  case (st_free_end i s)
  then show ?case by (intro free_end_inv)
qed

text \<open>C40: The bridge neither leaks nor loses. In every state of the two tasks, at most two sessions exist and the counter is their number;
  exactly their loopback sockets are open, one each, so no failed opening and no teardown leaves a socket behind; while the pump runs
  everything the API server sent has gone to the browser in order, and while a session is not being closed everything the browser
  sent has gone to the API server in order (otherwise an initial part of it).\<close>

theorem ws_bridge_consistent:
  assumes "ws_reachable s"
  shows "unat (wp_count s) = length (wp_sessions s) \<and> length (wp_sessions s) \<le> 2 \<and>
    distinct (wp_fds s) \<and> length (wp_fds s) = length (wp_sessions s) \<and> set (wp_fds s) = ws_loop_fd ` set (wp_sessions s) \<and>
    (\<forall>x\<in>set (wp_sessions s). prefix_of (ws_to_browser x) (ws_from_loop x) \<and> (ws_pump x = Pump_running \<longrightarrow> ws_to_browser x = ws_from_loop x) \<and>
       prefix_of (ws_to_loop x) (ws_from_browser x) \<and> (\<not> ws_closing x \<longrightarrow> ws_to_loop x = ws_from_browser x))"
proof -
  have "ws_inv s" using assms
  proof induction
    case ws_init
    show ?case by (simp add: ws_inv_def ws_initial_def)
  next
    case (ws_next s t)
    then show ?case by (blast intro: step_inv)
  qed
  moreover from this have "length (wp_fds s) = length (wp_sessions s)"
    by (metis distinct_card length_map ws_inv_def)
  ultimately show ?thesis by (auto simp: ws_inv_def list_all_iff session_ok_def)
qed

lemma upd_nth [simp]: "i < length (wp_sessions s) \<Longrightarrow> wp_sessions (upd i x s) ! i = x" "length (wp_sessions (upd i x s)) = length (wp_sessions s)"
  by (simp_all add: upd_def)

text \<open>The teardown ends: once a session is being closed, its own pump needs at most one more turn of its loop and the exit behind it, and
  then the session is gone, its socket closed and its place free for another.\<close>

theorem ws_teardown_ends:
  assumes "i < length (wp_sessions s)" "ws_closing (wp_sessions s ! i)"
  shows "\<exists>t. ws_step\<^sup>*\<^sup>* s t \<and> wp_sessions t = take i (wp_sessions s) @ drop (Suc i) (wp_sessions s) \<and> wp_count t = wp_count s - 1 \<and>
    wp_fds t = remove1 (ws_loop_fd (wp_sessions s ! i)) (wp_fds s)"
proof -
  define x where "x = wp_sessions s ! i"
  define s1 where "s1 = upd i (pump_turn None True x) s"
  have 1: "ws_step s s1" unfolding s1_def x_def by (rule st_pump [OF assms(1)])
  define x1 where "x1 = pump_turn None True x"
  have x1: "ws_pump x1 \<noteq> Pump_running" "ws_closing x1" "ws_loop_fd x1 = ws_loop_fd x"
    using assms(2) by (auto simp: x1_def x_def pump_turn_def)
  define s2 where "s2 = (upd i (fst (pump_leave x1)) s1)\<lparr>wp_closes := wp_closes s1 @ (case snd (pump_leave x1) of Some fd \<Rightarrow> [fd] | None \<Rightarrow> [])\<rparr>"
  have 2: "ws_step s1 s2" unfolding s2_def by (rule st_leave) (use assms(1) in \<open>simp_all add: s1_def x1_def\<close>)
  have x2: "ws_pump (fst (pump_leave x1)) = Pump_gone" "ws_closing (fst (pump_leave x1))" using x1 by (cases "ws_pump x1"; simp add: pump_leave_def)+
  have n: "wp_sessions s2 ! i = fst (pump_leave x1)" "i < length (wp_sessions s2)" using assms(1) by (simp_all add: s2_def s1_def upd_def)
  have 3: "ws_step s2 (free_end i s2)" by (rule st_free_end) (use n x2 in simp_all)
  have "ws_step\<^sup>*\<^sup>* s (free_end i s2)" using 1 2 3 by (meson converse_rtranclp_into_rtranclp rtranclp.rtrancl_refl)
  moreover have "wp_sessions (free_end i s2) = take i (wp_sessions s) @ drop (Suc i) (wp_sessions s) \<and> wp_count (free_end i s2) = wp_count s - 1 \<and>
      wp_fds (free_end i s2) = remove1 (ws_loop_fd x) (wp_fds s)"
    using n x1(3) by (simp add: free_end_def close_fd_def Let_def) (simp add: s2_def s1_def upd_def)
  ultimately show ?thesis by (auto simp: x_def)
qed

theorem ws_bridge_consistent_witness:
  "\<exists>s. ws_reachable s \<and> wp_sessions s \<noteq> [] \<and> wp_count s = 1 \<and> length (wp_fds s) = length (wp_sessions s)"
proof -
  define env where "env = \<lparr>wo_socket = Some 5, wo_connect = True, wo_alloc = True, wo_semaphore = True, wo_task = True\<rparr>"
  define s where "s = fst (ws_open env 9 ws_initial)"
  have "ws_step ws_initial s" by (rule st_open [of env _ 9 _ True]) (simp_all add: s_def env_def ws_open_def ws_initial_def connect_loopback_def MAX_WS_SESSIONS_def)
  then have r: "ws_reachable s" by (blast intro: ws_reachable.intros)
  have "wp_sessions s \<noteq> []" "wp_count s = 1" by (simp_all add: s_def env_def ws_open_def ws_initial_def connect_loopback_def MAX_WS_SESSIONS_def)
  with r ws_bridge_consistent [OF r] show ?thesis by blast
qed

end
