(* ===== verification/Main_Boot.thy ===== *)
theory Main_Boot
  imports Ble_Httpd Ota Wifi_Sta Ws_Proxy
begin

text \<open>
  The boot of the device, \<^verbatim>\<open>main/main.cpp\<close>, with the service announcement of \<^verbatim>\<open>components/mdns_announce/mdns_announce.cpp\<close>: the guard
  that takes the clone out of a crash loop, the order in which the components read the store and start, and the
  routes they register at the shared HTTP server.
\<close>

section \<open>The boot guard\<close>

definition NBP_BOOT_NS :: string where "NBP_BOOT_NS = ''nbp_boot''"
definition NBP_BOOT_PENDING_KEY :: string where "NBP_BOOT_PENDING_KEY = ''pending''"

datatype reset_reason = RST_PANIC | RST_INT_WDT | RST_TASK_WDT | RST_WDT | RST_BROWNOUT | RST_POWERON | RST_SW | RST_OTHER

definition crash_class :: "reset_reason \<Rightarrow> bool" where
  "crash_class r \<longleftrightarrow> r \<in> {RST_PANIC, RST_INT_WDT, RST_TASK_WDT, RST_WDT, RST_BROWNOUT}"

text \<open>The flag is read through the handle opened for writing.\<close>

definition boot_was_unstable :: "nvs_env \<Rightarrow> reset_reason \<Rightarrow> nvs \<Rightarrow> nvs \<times> bool" where
  "boot_was_unstable ne reason n =
     (if \<not> ne_open_rw ne NBP_BOOT_NS then (n, False)
      else let pending = (case n NBP_BOOT_NS NBP_BOOT_PENDING_KEY of Some (NV_u8 v) \<Rightarrow> v | _ \<Rightarrow> 0);
               bad_boot = (crash_class reason \<and> pending \<noteq> 0)
           in (nvs_write_unchecked ne NBP_BOOT_NS [(NBP_BOOT_PENDING_KEY, NV_u8 1)] n, bad_boot))"

text \<open>The callback of the timer armed at the end of the boot.\<close>

definition boot_stable_mark :: "nvs_env \<Rightarrow> nvs \<Rightarrow> nvs" where
  "boot_stable_mark ne n = nvs_write_unchecked ne NBP_BOOT_NS [(NBP_BOOT_PENDING_KEY, NV_u8 0)] n"

definition clone_boot :: "nvs_env \<Rightarrow> bool \<Rightarrow> nvs \<Rightarrow> clone_target \<times> nvs" where
  "clone_boot ne force_disable n =
     (let t = config_load ne n
      in if force_disable \<and> ct_enabled t then fst (config_set ne (t\<lparr>ct_enabled := False\<rparr>) (t, n)) else (t, n))"

section \<open>Announcement\<close>

definition format_mac_lower_nosep :: "u8 list \<Rightarrow> nat \<Rightarrow> string" where
  "format_mac_lower_nosep mac cap = snprintf_text cap (concat (map hex_byte_lower (take 6 mac)))"

definition mdns_txt :: "u8 list \<Rightarrow> (string \<times> string) list" where
  "mdns_txt mac =
     [(''friendly_name'', FRIENDLY_NAME), (''version'', FAKE_ESPHOME_VERSION), (''config_hash'', ''00000000000000000000000000000000''),
      (''mac'', format_mac_lower_nosep mac 13), (''platform'', ''ESP32''), (''board'', MODEL), (''network'', ''wifi'')]"

section \<open>Routes\<close>

definition nat_endpoints :: "(string \<times> http_method) list" where
  "nat_endpoints = [(''/nat'', HTTP_GET), (''/nat'', HTTP_POST), (''/portmap'', HTTP_POST)]"

definition clone_endpoints :: "(string \<times> http_method) list" where
  "clone_endpoints = [(''/clone'', HTTP_GET), (''/clone'', HTTP_POST)]"

definition ws_endpoints :: "(string \<times> http_method) list" where
  "ws_endpoints = [(''/api'', HTTP_GET)]"

definition ota_endpoints :: "(string \<times> http_method) list" where
  "ota_endpoints = [(''/update'', HTTP_POST)]"

definition MAX_URI_HANDLERS :: nat where "MAX_URI_HANDLERS = 40"

text \<open>\<open>httpd_register_uri_handler\<close> refuses a route that is taken and any route when the table is full; the callers ignore the result.\<close>

definition register_route :: "string \<times> http_method \<Rightarrow> (string \<times> http_method) list \<Rightarrow> (string \<times> http_method) list" where
  "register_route r tbl = (if r \<in> set tbl \<or> length tbl \<ge> MAX_URI_HANDLERS then tbl else tbl @ [r])"

definition all_routes :: "(string \<times> http_method) list" where
  "all_routes = ota_endpoints @ map fst register_endpoints @ ws_endpoints @ nat_endpoints @ clone_endpoints"

section \<open>Boot\<close>

record boot_in =
  bi_nvs :: nvs_env
  bi_serial :: "(string \<times> string) list"
  bi_reason :: reset_reason
  bi_stats :: stats_env
  bi_compiled :: "string \<times> string"
  bi_mac :: "u8 list"
  bi_httpd_ok :: bool
  bi_wifi_events :: "wifi_event list"
  bi_nat :: nat_env
  bi_live :: "u32 \<times> u32"              \<comment> \<open>the configured interval and threshold of the watchdog\<close>

record device =
  de_nvs :: nvs
  de_stats :: stats_state
  de_wifi :: wifi_sta
  de_live :: liveness
  de_nat :: nat_state
  de_target :: clone_target
  de_mdns :: "(string \<times> string) list"
  de_routes :: "(string \<times> http_method) list"

datatype boot_result =
    Boot_restarted nvs
  | Boot_setup nvs bool
  | Boot_running device

definition app_main :: "boot_in \<Rightarrow> nvs \<Rightarrow> boot_result" where
  "app_main i n =
     (let ne = bi_nvs i; pv = poll_boot_window ne (bi_serial i) n
      in if pv_restarted pv then Boot_restarted (pv_nvs pv)
         else let (n, force_disable) = boot_was_unstable ne (bi_reason i) (pv_nvs pv);
                  st = stats_boot (bi_stats i) n
              in case start_and_wait_for_ip ne (bi_compiled i) (st_hostname st) (bi_mac i) (bi_httpd_ok i) (bi_wifi_events i) n of
                   (w, Provisioning ok) \<Rightarrow> Boot_setup n ok
                 | (w, Station_up) \<Rightarrow>
                     let lw = liveness_start ne n (liveness_initial (fst (bi_live i)) (snd (bi_live i)));
                         routes = (if bi_httpd_ok i then fold register_route all_routes [] else []);
                         nat = nat_start ne (bi_nat i) (nat_globals n);
                         (t, n) = clone_boot ne force_disable n
                     in Boot_running \<lparr>de_nvs = n, de_stats = st\<lparr>st_nvs := n\<rparr>, de_wifi = w, de_live = lw, de_nat = nat\<lparr>nr_nvs := n\<rparr>, de_target = t,
                          de_mdns = mdns_txt (bi_mac i), de_routes = routes\<rparr>)"

section \<open>Properties\<close>

lemma register_all:
  "distinct (tbl @ rs) \<Longrightarrow> length (tbl @ rs) \<le> MAX_URI_HANDLERS \<Longrightarrow> fold register_route rs tbl = tbl @ rs"
  by (induction rs arbitrary: tbl) (auto simp: register_route_def)

lemma all_routes_fit: "distinct all_routes" "length all_routes \<le> MAX_URI_HANDLERS"
  by (simp_all add: all_routes_def ota_endpoints_def ws_endpoints_def nat_endpoints_def clone_endpoints_def register_endpoints_def MAX_URI_HANDLERS_def)

text \<open>What the serial lines cannot touch: other namespaces, and the port-forwarding rules.\<close>

definition not_serial :: "string \<Rightarrow> string \<Rightarrow> bool" where
  "not_serial ns k \<longleftrightarrow> ns \<noteq> ''wifi'' \<and> ns \<noteq> ''nat'' \<or> k = ''portmap''"

lemma nvs_write_frame: "ns \<noteq> ns' \<or> k \<notin> fst ` set kvs \<Longrightarrow> fst (nvs_write ne ns kvs n) ns' k = n ns' k"
proof -
  have "ns \<noteq> ns' \<or> k \<notin> fst ` set kvs \<Longrightarrow> nvs_sets ne ns kvs n = Some n' \<Longrightarrow> n' ns' k = n ns' k" for n'
    by (induction kvs arbitrary: n) (auto simp: nvs_put_def split: if_splits)
  then show "ns \<noteq> ns' \<or> k \<notin> fst ` set kvs \<Longrightarrow> ?thesis" by (auto simp: nvs_write_def split: option.split)
qed

lemma stores_frame:
  assumes "not_serial ns k"
  shows "store_wifi_creds ne a b n = (n', ok) \<Longrightarrow> n' ns k = n ns k" "store_nat_config ne en a b c d n = (n', ok) \<Longrightarrow> n' ns k = n ns k"
  using nvs_write_frame [of "''wifi''" ns k "[(''ssid'', NV_str a), (''psk'', NV_str b)]" ne n] assms
    nvs_write_frame [of "''nat''" ns k "[(''enabled'', NV_u8 (if en then 1 else 0))] @ (if c then [(''ap_ssid'', NV_str a)] else []) @ (if d then [(''ap_psk'', NV_str b)] else [])" ne n]
  unfolding store_wifi_creds_def store_nat_config_def not_serial_def by (auto split: if_splits)

lemma handle_line_frame:
  assumes "not_serial ns k"
  shows "fst (handle_line ne line n) ns k = n ns k"
proof -
  note f = stores_frame [OF assms]
  have w: "fst (handle_wifi_line ne line n) ns k = n ns k" for n
    by (auto simp: handle_wifi_line_def Let_def split: option.split prod.split bool.split dest: f)
  have "fst (handle_nat_line ne line n) ns k = n ns k"
    by (auto simp: handle_nat_line_def Let_def split: option.split prod.split bool.split dest: f)
  then show ?thesis using w by (simp add: handle_line_def split_beta)
qed

text \<open>Whatever relation between stores every line keeps, the whole boot window keeps.\<close>

lemma poll_boot_rel:
  assumes r: "\<And>n. R n n" and t: "\<And>a b c. R a b \<Longrightarrow> R b c \<Longrightarrow> R a c" and l: "\<And>line n. R n (fst (handle_line ne line n))"
  shows "R n (pv_nvs (poll_boot_window ne turns n))"
proof -
  have a: "R (pv_nvs (snd s)) (pv_nvs (snd (append_rx ne byte s)))" for byte s
  proof -
    obtain line pv where s: "s = (line, pv)" by fastforce
    obtain n' q where h: "handle_line ne (c_string line) (pv_nvs pv) = (n', q)" by fastforce
    have "R (pv_nvs pv) n'" using l [of "pv_nvs pv" "c_string line"] h by simp
    then show ?thesis by (cases "lr_ack q") (simp_all add: s append_rx_def h Let_def r)
  qed
  have f: "R (pv_nvs (snd s)) (pv_nvs (snd (fold (append_rx ne) bs s)))" for bs s
  proof (induction bs arbitrary: s)
    case (Cons b bs)
    show ?case using t [OF a [of s b] Cons [of "append_rx ne b s"]] by simp
  qed (simp add: r)
  have u: "R (pv_nvs (snd (snd s))) (pv_nvs (snd (snd (poll_turn ne bytes s))))" for bytes s
  proof -
    obtain x y pv where s: "s = (x, y, pv)" using prod_cases3 by blast
    obtain x' pv1 where 1: "fold (append_rx ne) (fst bytes) (x, pv) = (x', pv1)" by fastforce
    obtain y' pv2 where 2: "fold (append_rx ne) (snd bytes) (y, pv1) = (y', pv2)" by fastforce
    have "R (pv_nvs pv) (pv_nvs pv1)" "R (pv_nvs pv1) (pv_nvs pv2)" using f [of "(x, pv)" "fst bytes"] f [of "(y, pv1)" "snd bytes"] 1 2 by simp_all
    from t [OF this] show ?thesis using 1 2 by (simp add: s poll_turn_def)
  qed
  have "R (pv_nvs (snd (snd s))) (pv_nvs (snd (snd (fold (poll_turn ne) turns s))))" for s
  proof (induction turns arbitrary: s)
    case (Cons b bs)
    show ?case using t [OF u [of s b] Cons [of "poll_turn ne b s"]] by simp
  qed (simp add: r)
  from this [of "([], [], \<lparr>pv_nvs = n, pv_acks = [], pv_restarted = False\<rparr>)"] show ?thesis by (simp add: poll_boot_window_def)
qed

lemma poll_boot_frame: "not_serial ns k \<Longrightarrow> pv_nvs (poll_boot_window ne turns n) ns k = n ns k"
  by (rule poll_boot_rel [where R = "\<lambda>n n'. n' ns k = n ns k"]) (simp_all add: handle_line_frame)

text \<open>What is loaded depends on the component's own keys only.\<close>

lemma config_load_keys: "(\<And>k. n CLONE_NS k = n' CLONE_NS k) \<Longrightarrow> config_load ne n = config_load ne n'"
  by (simp add: config_load_def get_u8_def get_u64_def get_str_def nvs_read_def)

lemma nvs_settings_keys: "(\<And>k. n NVS_NS k = n' NVS_NS k) \<Longrightarrow> nvs_settings n = nvs_settings n'"
  by (simp add: nvs_settings_def nvs_int_def nvs_u16_def stored_cpu_def stored_li_def stored_adv_def stored_scan_def)

lemma load_portmap_keys: "n NAT_NS ''portmap'' = n' NAT_NS ''portmap'' \<Longrightarrow> load_portmap ne n = load_portmap ne n'"
  by (simp add: load_portmap_def nvs_read_def)

lemma settings_of_nvs: "settings_of (st\<lparr>st_nvs := n\<rparr>) = settings_of st"
  by (simp add: settings_of_def)

definition pending :: "nvs \<Rightarrow> bool" where
  "pending n \<longleftrightarrow> (case n NBP_BOOT_NS NBP_BOOT_PENDING_KEY of Some (NV_u8 v) \<Rightarrow> v \<noteq> 0 | _ \<Rightarrow> False)"

lemma boot_ns: "NBP_BOOT_NS \<noteq> CLONE_NS" "NBP_BOOT_NS \<noteq> NVS_NS" "NBP_BOOT_NS \<noteq> NAT_NS" "CLONE_NS \<noteq> NBP_BOOT_NS" "CLONE_NS \<noteq> NVS_NS" "CLONE_NS \<noteq> NAT_NS"
  by (simp_all add: NBP_BOOT_NS_def CLONE_NS_def NVS_NS_def NAT_NS_def)

lemma not_serial_keys: "not_serial CLONE_NS k" "not_serial NVS_NS k" "not_serial NBP_BOOT_NS k" "not_serial NAT_NS ''portmap''"
  by (simp_all add: not_serial_def CLONE_NS_def NVS_NS_def NBP_BOOT_NS_def)

lemma unstable_works:
  assumes "nvs_works ne"
  shows "boot_was_unstable ne r n = (nvs_put NBP_BOOT_NS NBP_BOOT_PENDING_KEY (NV_u8 1) n, crash_class r \<and> pending n)"
proof -
  have "ne_open_rw ne NBP_BOOT_NS" using assms by (simp add: nvs_works_def)
  then show ?thesis using assms by (auto simp: boot_was_unstable_def pending_def split: option.splits nvs_val.splits)
qed

lemma clone_boot_works:
  assumes "nvs_works ne" "clone_boot ne f n = (t, n')"
  shows "t = (config_load ne n)\<lparr>ct_enabled := ct_enabled (config_load ne n) \<and> \<not> f\<rparr>" "config_load ne n' = t" "ns \<noteq> CLONE_NS \<Longrightarrow> n' ns = n ns"
proof -
  define c where "c = config_load ne n"
  have l: "length (ct_suffix (c\<lparr>ct_enabled := False\<rparr>)) \<le> 15" using config_load_suffix [of ne n] by (simp add: c_def)
  note s = config_set_load [OF assms(1) l, of c n]
  have d: "fst (config_set ne t (c, n)) = (t, n'') \<Longrightarrow> ns \<noteq> CLONE_NS \<Longrightarrow> n'' ns = n ns" for t n''
    using assms(1) by (auto simp: config_set_def nvs_put_def)
  have "t = c\<lparr>ct_enabled := ct_enabled c \<and> \<not> f\<rparr> \<and> config_load ne n' = t \<and> (ns \<noteq> CLONE_NS \<longrightarrow> n' ns = n ns)"
  proof (cases "f \<and> ct_enabled c")
    case True
    then have e: "fst (config_set ne (c\<lparr>ct_enabled := False\<rparr>) (c, n)) = (t, n')" using assms(2) by (simp add: clone_boot_def c_def [symmetric] Let_def)
    with s have t: "t = c\<lparr>ct_enabled := False\<rparr>" "config_load ne n' = t" by (metis fst_conv snd_conv)+
    with e have "fst (config_set ne t (c, n)) = (t, n')" by simp
    with d True t show ?thesis by simp
  next
    case False
    then have "t = c" "n' = n" using assms(2) by (auto simp: clone_boot_def c_def [symmetric] Let_def)
    with False show ?thesis by (cases c) (auto simp: c_def)
  qed
  then show "t = (config_load ne n)\<lparr>ct_enabled := ct_enabled (config_load ne n) \<and> \<not> f\<rparr>" "config_load ne n' = t" "ns \<noteq> CLONE_NS \<Longrightarrow> n' ns = n ns"
    by (simp_all add: c_def)
qed

text \<open>A boot that gets as far as running, in terms of the store it started from.\<close>

lemma boot_running:
  assumes "nvs_works (bi_nvs i)" "app_main i n = Boot_running d"
  obtains n1 where "boot_was_unstable (bi_nvs i) (bi_reason i) (pv_nvs (poll_boot_window (bi_nvs i) (bi_serial i) n)) = (n1, crash_class (bi_reason i) \<and> pending n)"
    "\<And>ns k. not_serial ns k \<Longrightarrow> ns \<noteq> NBP_BOOT_NS \<Longrightarrow> n1 ns k = n ns k" "n1 NBP_BOOT_NS NBP_BOOT_PENDING_KEY = Some (NV_u8 1)"
    "clone_boot (bi_nvs i) (crash_class (bi_reason i) \<and> pending n) n1 = (de_target d, de_nvs d)"
    "de_stats d = (stats_boot (bi_stats i) n1)\<lparr>st_nvs := de_nvs d\<rparr>" "de_nat d = (nat_start (bi_nvs i) (bi_nat i) (nat_globals n1))\<lparr>nr_nvs := de_nvs d\<rparr>"
    "de_routes d = (if bi_httpd_ok i then fold register_route all_routes [] else [])"
    "de_live d = liveness_start (bi_nvs i) n1 (liveness_initial (fst (bi_live i)) (snd (bi_live i)))"
proof -
  define m where "m = pv_nvs (poll_boot_window (bi_nvs i) (bi_serial i) n)"
  have m: "m ns k = n ns k" if "not_serial ns k" for ns k unfolding m_def by (rule poll_boot_frame [OF that])
  then have p: "pending m = pending n" using not_serial_keys(3) by (simp add: pending_def)
  define n1 where "n1 = nvs_put NBP_BOOT_NS NBP_BOOT_PENDING_KEY (NV_u8 1) m"
  have u: "boot_was_unstable (bi_nvs i) (bi_reason i) m = (n1, crash_class (bi_reason i) \<and> pending n)" by (simp add: unstable_works [OF assms(1)] n1_def p)
  obtain t n2 where c: "clone_boot (bi_nvs i) (crash_class (bi_reason i) \<and> pending n) n1 = (t, n2)" by fastforce
  have d: "t = de_target d" "n2 = de_nvs d" "de_stats d = (stats_boot (bi_stats i) n1)\<lparr>st_nvs := n2\<rparr>"
      "de_nat d = (nat_start (bi_nvs i) (bi_nat i) (nat_globals n1))\<lparr>nr_nvs := n2\<rparr>" "de_routes d = (if bi_httpd_ok i then fold register_route all_routes [] else [])"
      "de_live d = liveness_start (bi_nvs i) n1 (liveness_initial (fst (bi_live i)) (snd (bi_live i)))"
    using assms(2) u c by (auto simp: app_main_def Let_def m_def split: if_splits prod.splits wifi_outcome.splits)
  show ?thesis by (rule that [of n1]) (use u c d m in \<open>simp_all add: m_def [symmetric] n1_def\<close>)
qed

lemma boot_target:
  assumes "nvs_works (bi_nvs i)" "app_main i n = Boot_running d"
  shows "de_target d = (config_load (bi_nvs i) n)\<lparr>ct_enabled := ct_enabled (config_load (bi_nvs i) n) \<and> \<not> (crash_class (bi_reason i) \<and> pending n)\<rparr>"
    "config_load (bi_nvs i) (de_nvs d) = de_target d" "pending (de_nvs d)"
proof -
  obtain n1 where n1: "\<And>ns k. not_serial ns k \<Longrightarrow> ns \<noteq> NBP_BOOT_NS \<Longrightarrow> n1 ns k = n ns k" "n1 NBP_BOOT_NS NBP_BOOT_PENDING_KEY = Some (NV_u8 1)"
      "clone_boot (bi_nvs i) (crash_class (bi_reason i) \<and> pending n) n1 = (de_target d, de_nvs d)"
    by (rule boot_running [OF assms]) blast
  note c = clone_boot_works [OF assms(1) n1(3)]
  have "config_load (bi_nvs i) n1 = config_load (bi_nvs i) n" by (rule config_load_keys) (rule n1(1), simp_all add: not_serial_keys boot_ns)
  then show "de_target d = (config_load (bi_nvs i) n)\<lparr>ct_enabled := ct_enabled (config_load (bi_nvs i) n) \<and> \<not> (crash_class (bi_reason i) \<and> pending n)\<rparr>"
    using c(1) by simp
  show "config_load (bi_nvs i) (de_nvs d) = de_target d" by (rule c(2))
  have "de_nvs d NBP_BOOT_NS = n1 NBP_BOOT_NS" by (rule c(3)) (rule boot_ns)
  then show "pending (de_nvs d)" using n1(2) by (simp add: pending_def)
qed

lemma stable_works: "nvs_works ne \<Longrightarrow> boot_stable_mark ne n = nvs_put NBP_BOOT_NS NBP_BOOT_PENDING_KEY (NV_u8 0) n"
  by (simp add: boot_stable_mark_def)

text \<open>C33: The boot guard ends a crash loop and only that. Let a boot over any store get as far as running. If the device then
  resets for a crash before the timer fires, the next boot that gets as far as running has the clone disabled, with its
  target and options kept, and the change is in the store, so every later boot starts from it. If the timer fires first,
  the next boot, whatever its reset reason, runs with exactly the configuration in force before it.\<close>

theorem boot_guard_breaks_loop:
  assumes "nvs_works (bi_nvs i)" "app_main i n = Boot_running d" "bi_nvs i' = bi_nvs i"
  shows "(\<forall>d1. crash_class (bi_reason i') \<and> app_main i' (de_nvs d) = Boot_running d1 \<longrightarrow>
            de_target d1 = (de_target d)\<lparr>ct_enabled := False\<rparr> \<and> config_load (bi_nvs i) (de_nvs d1) = de_target d1) \<and>
         (\<forall>d2. app_main i' (boot_stable_mark (bi_nvs i) (de_nvs d)) = Boot_running d2 \<longrightarrow> de_target d2 = de_target d)"
proof (intro conjI allI impI)
  note b = boot_target [OF assms(1,2)]
  have w: "nvs_works (bi_nvs i')" using assms(1,3) by simp
  fix d1 assume a: "crash_class (bi_reason i') \<and> app_main i' (de_nvs d) = Boot_running d1"
  note b1 = boot_target [OF w conjunct2 [OF a]]
  show "de_target d1 = (de_target d)\<lparr>ct_enabled := False\<rparr>" using b1(1) b a assms(3) by simp
  show "config_load (bi_nvs i) (de_nvs d1) = de_target d1" using b1(2) assms(3) by simp
next
  note b = boot_target [OF assms(1,2)]
  have w: "nvs_works (bi_nvs i')" using assms(1,3) by simp
  define m where "m = boot_stable_mark (bi_nvs i) (de_nvs d)"
  have m: "m = nvs_put NBP_BOOT_NS NBP_BOOT_PENDING_KEY (NV_u8 0) (de_nvs d)" unfolding m_def by (rule stable_works [OF assms(1)])
  then have p: "\<not> pending m" by (simp add: pending_def nvs_put_def)
  have l: "config_load (bi_nvs i) m = config_load (bi_nvs i) (de_nvs d)"
    by (rule config_load_keys) (simp add: m nvs_put_def boot_ns)
  fix d2 assume a: "app_main i' (boot_stable_mark (bi_nvs i) (de_nvs d)) = Boot_running d2"
  show "de_target d2 = de_target d"
    using boot_target(1) [OF w a] p l b(2) assms(3) by (simp add: m_def)
qed

text \<open>C34: A boot restores the persistent state of every component and serves every route. Whatever came in on the serial
  line, the radio, log and power settings in force are those the store stood for, the port-forwarding rules are those
  stored, and, with the HTTP server up, all routes of all components are registered: none collides and the table of the
  server has room for them.\<close>

theorem boot_restores:
  assumes "nvs_works (bi_nvs i)" "nvs_works (se_nvs (bi_stats i))" "app_main i n = Boot_running d"
  shows "settings_of (de_stats d) = nvs_settings n \<and> nr_portmap (de_nat d) = load_portmap (bi_nvs i) n \<and>
         (bi_httpd_ok i \<longrightarrow> de_routes d = all_routes \<and> distinct (de_routes d))"
proof -
  obtain n1 where n1: "\<And>ns k. not_serial ns k \<Longrightarrow> ns \<noteq> NBP_BOOT_NS \<Longrightarrow> n1 ns k = n ns k"
      "de_stats d = (stats_boot (bi_stats i) n1)\<lparr>st_nvs := de_nvs d\<rparr>" "de_nat d = (nat_start (bi_nvs i) (bi_nat i) (nat_globals n1))\<lparr>nr_nvs := de_nvs d\<rparr>"
      "de_routes d = (if bi_httpd_ok i then fold register_route all_routes [] else [])"
    by (rule boot_running [OF assms(1,3)]) blast
  have "nvs_settings n1 = nvs_settings n" by (rule nvs_settings_keys) (rule n1(1), simp_all add: not_serial_keys boot_ns boot_ns [symmetric])
  then have "settings_of (de_stats d) = nvs_settings n" using boot_settings [OF assms(2), of n1] by (simp add: n1(2) settings_of_nvs)
  moreover have "nr_portmap (de_nat d) = load_portmap (bi_nvs i) n"
    using load_portmap_keys [of n1 n "bi_nvs i"] n1(1) [OF not_serial_keys(4)] boot_ns(3) by (simp add: n1(3) nat_start_portmap)
  moreover have "fold register_route all_routes [] = all_routes" using register_all [of "[]" all_routes] all_routes_fit by simp
  ultimately show ?thesis using all_routes_fit(1) by (simp add: n1(4))
qed

definition boot_example :: "reset_reason \<Rightarrow> boot_in" where
  "boot_example r = \<lparr>bi_nvs = good_nvs, bi_serial = [], bi_reason = r, bi_stats = good_env, bi_compiled = (''home'', ''secret123''),
     bi_mac = replicate 6 0, bi_httpd_ok = True, bi_wifi_events = [IP_EVENT_STA_GOT_IP], bi_nat = nat_good_env, bi_live = (30, 6)\<rparr>"

lemma boot_example_runs:
  assumes "\<And>k. n ''wifi'' k = None"
  obtains d where "app_main (boot_example r) n = Boot_running d" "\<And>k. de_nvs d ''wifi'' k = None"
proof -
  define n1 where "n1 = nvs_put NBP_BOOT_NS NBP_BOOT_PENDING_KEY (NV_u8 1) n"
  have u: "boot_was_unstable good_nvs r n = (n1, crash_class r \<and> pending n)" by (simp add: unstable_works [OF good_nvs_works] n1_def)
  obtain t n2 where c: "clone_boot good_nvs (crash_class r \<and> pending n) n1 = (t, n2)" by fastforce
  have w: "n1 ''wifi'' k = None" for k using assms by (simp add: n1_def nvs_put_def NBP_BOOT_NS_def)
  have "n2 ''wifi'' = n1 ''wifi''" by (rule clone_boot_works(3) [OF good_nvs_works c]) (simp add: CLONE_NS_def)
  then have w2: "n2 ''wifi'' k = None" for k by (simp add: w)
  have b: "boot_creds good_nvs (''home'', ''secret123'') n1 = (''home'', ''secret123'')"
    by (simp add: boot_creds_def read_creds_from_nvs_def NVS_WIFI_NS_def get_str_def nvs_read_def w)
  have "\<exists>w. start_and_wait_for_ip good_nvs (''home'', ''secret123'') h m True [IP_EVENT_STA_GOT_IP] n1 = (w, Station_up)" for h m
    by (simp add: start_and_wait_for_ip_def b Let_def wifi_handle_def on_wifi_event_def on_ip_event_def wifi_calls_def)
  then obtain w where "start_and_wait_for_ip good_nvs (''home'', ''secret123'') (st_hostname (stats_boot good_env n1)) (replicate 6 0) True [IP_EVENT_STA_GOT_IP] n1 = (w, Station_up)"
    by blast
  then have "\<exists>d. app_main (boot_example r) n = Boot_running d \<and> de_nvs d = n2"
    by (simp add: app_main_def boot_example_def poll_boot_window_def u c Let_def)
  then show ?thesis using that w2 by blast
qed

theorem boot_guard_breaks_loop_witness:
  "\<exists>d d1. app_main (boot_example RST_POWERON) (nvs_put CLONE_NS ''enabled'' (NV_u8 1) (\<lambda>_ _. None)) = Boot_running d \<and> ct_enabled (de_target d) \<and>
     app_main (boot_example RST_PANIC) (de_nvs d) = Boot_running d1 \<and> \<not> ct_enabled (de_target d1)"
proof -
  define n0 where "n0 = nvs_put CLONE_NS ''enabled'' (NV_u8 1) (\<lambda>_ _. None)"
  have "n0 ''wifi'' k = None" for k by (simp add: n0_def nvs_put_def CLONE_NS_def)
  then obtain d where d: "app_main (boot_example RST_POWERON) n0 = Boot_running d" "\<And>k. de_nvs d ''wifi'' k = None"
    using boot_example_runs [of n0] by blast
  obtain d1 where d1: "app_main (boot_example RST_PANIC) (de_nvs d) = Boot_running d1" using boot_example_runs [of "de_nvs d"] d(2) by blast
  have w: "nvs_works (bi_nvs (boot_example r))" "crash_class RST_PANIC" "bi_reason (boot_example r) = r" "bi_nvs (boot_example r) = good_nvs" for r
    by (simp_all add: boot_example_def good_nvs_works crash_class_def)
  have "ct_enabled (config_load good_nvs n0)" by (simp add: n0_def config_load_def get_u8_def get_u64_def get_str_def nvs_read_def nvs_put_def good_nvs_def Let_def)
  then have "ct_enabled (de_target d)" using boot_target(1) [OF w(1) d(1)] w(3,4) by (simp add: crash_class_def)
  moreover have "de_target d1 = (de_target d)\<lparr>ct_enabled := False\<rparr>"
    using boot_guard_breaks_loop [OF w(1) d(1), of "boot_example RST_PANIC"] d1 w by simp
  ultimately show ?thesis using d(1) d1 by (auto simp: n0_def)
qed

theorem boot_restores_witness:
  "\<exists>d. app_main (boot_example RST_POWERON) (\<lambda>_ _. None) = Boot_running d \<and> settings_of (de_stats d) = nvs_settings (\<lambda>_ _. None) \<and>
     de_routes d = all_routes"
proof -
  obtain d where d: "app_main (boot_example RST_POWERON) (\<lambda>_ _. None) = Boot_running d" using boot_example_runs [of "\<lambda>_ _. None"] by blast
  have "nvs_works (bi_nvs (boot_example RST_POWERON))" "nvs_works (se_nvs (bi_stats (boot_example RST_POWERON)))" "bi_httpd_ok (boot_example RST_POWERON)"
    by (simp_all add: boot_example_def good_env_def good_nvs_works)
  with boot_restores [OF this(1,2) d] d show ?thesis by simp
qed

end
