(* ===== verification/Store_Schema.thy ===== *)
theory Store_Schema
  imports Main_Boot
begin

text \<open>
  The schema of the non-volatile store. Every component keeps its values under keys of its own namespace, written by one
  operation and read by another, possibly in another file (the Wi-Fi listen interval is written by the settings
  and read by the station). \<open>schema\<close> says for each key which type and range the readers rely on. An operation
  keeps the contract \<open>store_client\<close> when it writes only within its namespaces, and there only what the schema allows; the
  contract is discharged below for every operation of the firmware that writes the store.
\<close>

section \<open>The schema\<close>

definition i8_in :: "int \<Rightarrow> int \<Rightarrow> nvs_val \<Rightarrow> bool" where
  "i8_in a b v = (case v of NV_i8 i \<Rightarrow> a \<le> i \<and> i \<le> b | _ \<Rightarrow> False)"

definition u8_flag :: "nvs_val \<Rightarrow> bool" where
  "u8_flag v = (case v of NV_u8 w \<Rightarrow> w = 0 \<or> w = 1 | _ \<Rightarrow> False)"

definition u16_in :: "u16 \<Rightarrow> u16 \<Rightarrow> nvs_val \<Rightarrow> bool" where
  "u16_in a b v = (case v of NV_u16 w \<Rightarrow> a \<le> w \<and> w \<le> b | _ \<Rightarrow> False)"

definition u32_in :: "u32 \<Rightarrow> u32 \<Rightarrow> nvs_val \<Rightarrow> bool" where
  "u32_in a b v = (case v of NV_u32 w \<Rightarrow> a \<le> w \<and> w \<le> b | _ \<Rightarrow> False)"

definition str_in :: "(string \<Rightarrow> bool) \<Rightarrow> nvs_val \<Rightarrow> bool" where
  "str_in P v = (case v of NV_str s \<Rightarrow> P s | _ \<Rightarrow> False)"

lemmas value_kinds = i8_in_def u8_flag_def u16_in_def u32_in_def str_in_def

definition stats_schema :: "string \<Rightarrow> nvs_val \<Rightarrow> bool" where
  "stats_schema k v =
     (if k = ''nimble_lvl'' then i8_in 0 5 v
      else if k = ''wifi_tx'' then i8_in 2 21 v
      else if k = ''ble_tx'' then i8_in (-12) 9 v
      else if k = ''cpu_freq'' then v \<in> {NV_i8 8, NV_i8 16, NV_i8 24}
      else if k = ''cpu_ls'' \<or> k = ''cpu_pd'' \<or> k = ''scan_act'' then i8_in 0 1 v
      else if k = ''wifi_li'' then i8_in 0 10 v
      else if k = ''adv_itvl'' then v = NV_u16 0 \<or> v = NV_u16 ADV_ITVL_OFF \<or> u16_in 20 10240 v
      else if k = ''scan_win'' \<or> k = ''scan_int'' then u16_in 20 10000 v
      else if k = ''hostname'' then str_in is_valid_hostname v
      else if k = ''ble_passkey'' then u32_in 0 999999 v
      else False)"

definition ap_psk_ok :: "string \<Rightarrow> bool" where
  "ap_psk_ok s \<longleftrightarrow> s = [] \<or> 8 \<le> length s \<and> length s \<le> 63"

definition ap_ssid_ok :: "string \<Rightarrow> bool" where
  "ap_ssid_ok s \<longleftrightarrow> s \<noteq> [] \<and> length s \<le> 32"

definition schema :: "string \<Rightarrow> string \<Rightarrow> nvs_val \<Rightarrow> bool" where
  "schema ns k v =
     (if ns = NVS_NS then stats_schema k v
      else if ns = CLONE_NS then
        (if k = ''addr'' then (case v of NV_u64 _ \<Rightarrow> True | _ \<Rightarrow> False)
         else if k = ''type'' then (case v of NV_u8 _ \<Rightarrow> True | _ \<Rightarrow> False)
         else if k = ''enabled'' then u8_flag v
         else if k = ''name_suffix'' then str_in (\<lambda>s. length s \<le> 15) v
         else False)
      else if ns = NAT_NS then
        (if k = ''enabled'' then u8_flag v
         else if k = ''ap_ssid'' then str_in ap_ssid_ok v
         else if k = ''ap_psk'' then str_in ap_psk_ok v
         else if k = ''portmap'' then (case v of NV_blob bs \<Rightarrow> length bs = 12 * PORTMAP_MAX | _ \<Rightarrow> False)
         else False)
      else if ns = NVS_WIFI_NS then
        (if k = ''ssid'' then str_in valid_ssid v else if k = ''psk'' then str_in valid_psk v else False)
      else if ns = LIVE_NS then
        (if k = ''en'' then u8_flag v else if k = ''intv'' then u32_in 5 3600 v else if k = ''thr'' then u32_in 1 60 v else False)
      else if ns = NBP_BOOT_NS then k = NBP_BOOT_PENDING_KEY \<and> u8_flag v
      else False)"

definition well_typed :: "nvs \<Rightarrow> bool" where
  "well_typed n \<longleftrightarrow> (\<forall>ns k v. n ns k = Some v \<longrightarrow> schema ns k v)"

lemma well_typed_empty: "well_typed (\<lambda>_ _. None)"
  by (simp add: well_typed_def)

lemmas namespaces = NVS_NS_def CLONE_NS_def NAT_NS_def NVS_WIFI_NS_def LIVE_NS_def NBP_BOOT_NS_def NBP_BOOT_PENDING_KEY_def

lemma schema_ns:
  "schema NVS_NS k v = stats_schema k v"
  "schema CLONE_NS ''addr'' (NV_u64 a)" "schema CLONE_NS ''type'' (NV_u8 b)" "schema CLONE_NS ''enabled'' v = u8_flag v"
  "schema CLONE_NS ''name_suffix'' v = str_in (\<lambda>s. length s \<le> 15) v"
  "schema NAT_NS ''enabled'' v = u8_flag v" "schema NAT_NS ''ap_ssid'' v = str_in ap_ssid_ok v" "schema NAT_NS ''ap_psk'' v = str_in ap_psk_ok v"
  "schema NAT_NS ''portmap'' (NV_blob bs) = (length bs = 12 * PORTMAP_MAX)"
  "schema NVS_WIFI_NS ''ssid'' v = str_in valid_ssid v" "schema NVS_WIFI_NS ''psk'' v = str_in valid_psk v"
  "schema LIVE_NS ''en'' v = u8_flag v" "schema LIVE_NS ''intv'' v = u32_in 5 3600 v" "schema LIVE_NS ''thr'' v = u32_in 1 60 v"
  "schema NBP_BOOT_NS NBP_BOOT_PENDING_KEY v = u8_flag v"
  by (simp_all add: schema_def namespaces)

section \<open>What an operation may write\<close>

definition writes :: "(string \<Rightarrow> bool) \<Rightarrow> nvs \<Rightarrow> nvs \<Rightarrow> bool" where
  "writes own n n' \<longleftrightarrow> (\<forall>ns k. n' ns k = n ns k \<or> own ns \<and> (\<exists>v. n' ns k = Some v \<and> schema ns k v))"

lemma writes_refl [simp, intro]: "writes own n n"
  by (simp add: writes_def)

lemma writes_trans: "writes own n m \<Longrightarrow> writes own m n' \<Longrightarrow> writes own n n'"
  unfolding writes_def by (metis (no_types))

lemma writes_mono: "writes own n n' \<Longrightarrow> (\<And>ns. own ns \<Longrightarrow> own' ns) \<Longrightarrow> writes own' n n'"
  unfolding writes_def by blast

lemma writes_put: "own ns \<Longrightarrow> schema ns k v \<Longrightarrow> writes own n (nvs_put ns k v n)"
  by (auto simp: writes_def nvs_put_def)

lemma writes_nvs_write:
  assumes "own ns" "list_all (\<lambda>(k, v). schema ns k v) kvs"
  shows "writes own n (fst (nvs_write ne ns kvs n))"
proof -
  have "nvs_sets ne ns kvs n = Some n' \<Longrightarrow> list_all (\<lambda>(k, v). schema ns k v) kvs \<Longrightarrow> writes own n n'" for n'
    by (induction kvs arbitrary: n) (auto split: if_splits intro: writes_trans [OF writes_put [of own, OF assms(1)]])
  then show ?thesis using assms by (auto simp: nvs_write_def split: option.split)
qed

lemma writes_nvs_unchecked:
  assumes "own ns" "list_all (\<lambda>(k, v). schema ns k v) kvs"
  shows "writes own n (nvs_write_unchecked ne ns kvs n)"
proof -
  have "list_all (\<lambda>(k, v). schema ns k v) kvs \<Longrightarrow> writes own n (nvs_tries ne ns kvs n)"
    by (induction kvs arbitrary: n) (auto, meson writes_trans writes_put assms(1))
  then show ?thesis using assms by (auto simp: nvs_write_unchecked_def)
qed

lemma writes_typed: "writes own n n' \<Longrightarrow> well_typed n \<Longrightarrow> well_typed n'"
  unfolding writes_def well_typed_def by (metis option.inject)

lemma writes_frame: "writes own n n' \<Longrightarrow> \<not> own ns \<Longrightarrow> n' ns k = n ns k"
  unfolding writes_def by blast

section \<open>The contract\<close>

text \<open>\<open>run a n\<close> is the store after the operation with input \<open>a\<close> (a request and the state it finds) over the store \<open>n\<close>.\<close>

locale store_client =
  fixes own :: "string \<Rightarrow> bool" and pre :: "'a \<Rightarrow> bool" and run :: "'a \<Rightarrow> nvs \<Rightarrow> nvs"
  assumes run_writes: "pre a \<Longrightarrow> writes own n (run a n)"
begin

lemma run_typed: "pre a \<Longrightarrow> well_typed n \<Longrightarrow> well_typed (run a n)"
  by (rule writes_typed [OF run_writes])

lemma run_frame: "pre a \<Longrightarrow> \<not> own ns \<Longrightarrow> run a n ns k = n ns k"
  by (rule writes_frame [OF run_writes])

lemma runs_writes: "list_all pre as \<Longrightarrow> writes own n (fold run as n)"
  by (induction as arbitrary: n) (auto intro: writes_trans run_writes)

end

section \<open>The settings\<close>

abbreviation "stats_ns \<equiv> (\<lambda>ns. ns = NVS_NS)"

lemma write_i8_writes: "stats_schema key (NV_i8 (to_int8 v)) \<Longrightarrow> writes stats_ns (st_nvs st) (st_nvs (fst (nvs_write_i8 env key v st)))"
  using writes_nvs_write [of stats_ns NVS_NS "[(key, NV_i8 (to_int8 v))]" "st_nvs st" "se_nvs env"]
  by (simp add: nvs_write_i8_def schema_ns split_beta)

lemma write_i8_eq: "nvs_write_i8 env key v st = (st', ok) \<Longrightarrow> stats_schema key (NV_i8 (to_int8 v)) \<Longrightarrow> writes stats_ns (st_nvs st) (st_nvs st')"
  using write_i8_writes [of key v st env] by simp

lemma stats_write: "nvs_write ne NVS_NS [(k, v)] n = (n', ok) \<Longrightarrow> stats_schema k v \<Longrightarrow> writes stats_ns n n'"
  using writes_nvs_write [of stats_ns NVS_NS "[(k, v)]" n ne] by (simp add: schema_ns)

lemma level_writes: "writes stats_ns (st_nvs st) (st_nvs (fst (handle_level_set env kv st)))"
  by (auto simp: handle_level_set_def Let_def ESP_LOG_NONE_def ESP_LOG_VERBOSE_def stats_schema_def value_kinds
      split: option.split prod.split bool.split intro!: write_i8_eq)

lemma txpower_writes:
  "txpower_wifi env kv st = (st', r) \<Longrightarrow> writes stats_ns (st_nvs st) (st_nvs st')"
  "txpower_ble env kv st = (st', q) \<Longrightarrow> writes stats_ns (st_nvs st) (st_nvs st')"
proof -
  have w: "writes stats_ns (st_nvs st) (st_nvs (fst (nvs_write_i8 env ''wifi_tx'' d s)))" if "st_nvs s = st_nvs st" "2 \<le> d" "d \<le> 21" for d s
    using write_i8_writes [of "''wifi_tx''" d s env] that by (simp add: stats_schema_def value_kinds)
  have b: "writes stats_ns (st_nvs st) (st_nvs (fst (nvs_write_i8 env ''ble_tx'' d s)))" if "st_nvs s = st_nvs st" "-12 \<le> d" "d \<le> 9" for d s
    using write_i8_writes [of "''ble_tx''" d s env] that by (simp add: stats_schema_def value_kinds)
  show "txpower_wifi env kv st = (st', r) \<Longrightarrow> writes stats_ns (st_nvs st) (st_nvs st')"
    by (auto simp: txpower_wifi_def apply_wifi_tx_dbm_def Let_def split_beta not_less split: option.splits if_splits intro!: w)
  show "txpower_ble env kv st = (st', q) \<Longrightarrow> writes stats_ns (st_nvs st) (st_nvs st')"
    by (auto simp: txpower_ble_def apply_ble_tx_dbm_def Let_def split_beta not_less split: option.splits if_splits intro!: b)
qed

lemma txpower_set_writes: "writes stats_ns (st_nvs st) (st_nvs (fst (handle_txpower_set env kv st)))"
  by (auto simp: handle_txpower_set_def split: prod.split sum.split intro: writes_trans dest: txpower_writes)

lemma cpufreq_writes:
  assumes "st_cpu_freq_mhz st \<in> {80, 160, 240}"
  shows "writes stats_ns (st_nvs st) (st_nvs (fst (handle_cpufreq_set env kv st)))"
proof -
  have f: "writes stats_ns (st_nvs s) (st_nvs (fst (nvs_write_i8 env ''cpu_freq'' (m div 10) s)))" if "m \<in> {80, 160, 240}" for m s
    using that by (intro write_i8_writes) (auto simp: stats_schema_def)
  have b: "writes stats_ns (st_nvs s) (st_nvs (fst (nvs_write_i8 env k (if x then 1 else 0) s)))" if "k = ''cpu_ls'' \<or> k = ''cpu_pd''" for k x s
    using that by (intro write_i8_writes) (auto simp: stats_schema_def value_kinds)
  have t: "writes stats_ns (st_nvs s) (st_nvs (fst (nvs_write_i8 env ''cpu_pd'' (if x then 1 else 0) (fst (nvs_write_i8 env ''cpu_ls'' (if y then 1 else 0)
      (fst (nvs_write_i8 env ''cpu_freq'' (m div 10) s)))))))" if "m \<in> {80, 160, 240}" for m x y s
    using f [OF that, of s] b [of "''cpu_ls''"] b [of "''cpu_pd''"] by (blast intro: writes_trans)
  define mhz where "mhz = (case kv ''mhz'' 8 of Some v \<Rightarrow> c_atoi v | None \<Rightarrow> st_cpu_freq_mhz st)"
  define pd where "pd = (case kv ''pdcpu'' 8 of Some v \<Rightarrow> c_atoi v \<noteq> 0 | None \<Rightarrow> st_cpu_pd st)"
  have st: "(case kv ''pdcpu'' 8 of Some v \<Rightarrow> st\<lparr>st_cpu_pd := (c_atoi v \<noteq> 0)\<rparr> | None \<Rightarrow> st) = st\<lparr>st_cpu_pd := pd\<rparr>"
    by (simp add: pd_def split: option.split)
  show ?thesis
  proof (cases "kv ''mhz'' 8 \<noteq> None \<and> mhz \<noteq> 80 \<and> mhz \<noteq> 160 \<and> mhz \<noteq> 240")
    case True
    then show ?thesis by (simp add: handle_cpufreq_set_def mhz_def)
  next
    case False
    then have ok: "mhz \<in> {80, 160, 240}" using assms by (auto simp: mhz_def)
    have "writes stats_ns (st_nvs s) (st_nvs (fst (let s = s\<lparr>st_cpu_freq_mhz := mhz\<rparr>; s = fst (nvs_write_i8 env ''cpu_freq'' (mhz div 10) s);
        s = fst (nvs_write_i8 env ''cpu_ls'' (if ls then 1 else 0) s); s = fst (nvs_write_i8 env ''cpu_pd'' (if st_cpu_pd s then 1 else 0) s) in (s, e))))"
      for s ls and e :: "string option"
      using t [OF ok, of "s\<lparr>st_cpu_freq_mhz := mhz\<rparr>"] by (simp only: Let_def fst_conv) simp
    note w = this
    define ls where "ls = (case kv ''ls'' 8 of Some v \<Rightarrow> c_atoi v \<noteq> 0 | None \<Rightarrow> st_light_sleep st)"
    obtain s0 where a: "apply_cpu_freq_mhz env mhz ls (st\<lparr>st_cpu_pd := pd\<rparr>) = (s0, se_pm_ok env)" "st_nvs s0 = st_nvs st"
      by (simp add: apply_cpu_freq_mhz_def Let_def)
    show ?thesis
    proof (cases "kv ''mhz'' 8 = None \<and> kv ''ls'' 8 = None \<and> kv ''pdcpu'' 8 = None")
      case True
      then show ?thesis by (simp add: handle_cpufreq_set_def Let_def)
    next
      case F: False
      show ?thesis
        unfolding handle_cpufreq_set_def mhz_def [symmetric] ls_def [symmetric] st Let_def [of mhz] Let_def [of ls] Let_def [of "st\<lparr>st_cpu_pd := pd\<rparr>"]
          if_not_P [OF False] if_not_P [OF F] a(1)
        using w [of s0 ls None] a(2) by (cases "se_pm_ok env") simp_all
    qed
  qed
qed

lemma word_of_int_range:
  "a \<le> p \<Longrightarrow> p \<le> b \<Longrightarrow> 0 \<le> a \<Longrightarrow> b < 65536 \<Longrightarrow> word_of_int a \<le> (word_of_int p :: u16) \<and> (word_of_int p :: u16) \<le> word_of_int b"
  by (simp add: word_le_def uint_word_of_int_eq take_bit_int_eq_self)

lemma advitvl_writes: "writes stats_ns (st_nvs st) (st_nvs (fst (handle_advitvl_set env kv st)))"
proof -
  have "stats_schema ''adv_itvl'' (NV_u16 (word_of_int p))" if "p = 0 \<or> 20 \<le> p" "p \<le> 10240" "0 \<le> p" for p
    using that word_of_int_range [of 20 p 10240] by (auto simp: stats_schema_def value_kinds)
  moreover have "stats_schema ''adv_itvl'' (NV_u16 ADV_ITVL_OFF)" by (simp add: stats_schema_def)
  ultimately show ?thesis
    by (auto simp: handle_advitvl_set_def Let_def split: option.split prod.split bool.split intro!: stats_write)
qed

lemma wifips_writes: "writes stats_ns (st_nvs st) (st_nvs (fst (handle_wifips_set env kv st)))"
  by (auto simp: handle_wifips_set_def Let_def stats_schema_def value_kinds split: option.split prod.split bool.split intro!: write_i8_eq)

lemma hostname_writes: "writes stats_ns (st_nvs st) (st_nvs (fst (handle_hostname_set env kv st)))"
  by (auto simp: handle_hostname_set_def stats_schema_def value_kinds split: option.split prod.split bool.split intro!: stats_write)

lemma passkey_writes: "writes stats_ns (st_nvs st) (st_nvs (fst (stats_set_passkey env pin st)))"
  by (auto simp: stats_set_passkey_def stats_schema_def value_kinds not_less split: prod.split bool.split intro!: stats_write)

lemma scan_writes: "writes stats_ns (st_nvs st) (st_nvs (fst (handle_scan_set env kv st)))"
proof -
  have u: "u16_in 20 10000 (NV_u16 (word_of_int p))" if "20 \<le> p" "p \<le> 10000" for p
    using word_of_int_range [of 20 p 10000] that by (simp add: u16_in_def)
  have w: "20 \<le> uint x \<Longrightarrow> uint x \<le> 10000 \<Longrightarrow> u16_in 20 10000 (NV_u16 x)" for x using u [of "uint x"] by simp
  show ?thesis
    by (auto simp: handle_scan_set_def Let_def schema_ns stats_schema_def not_less u w i8_in_def split: option.split intro!: writes_nvs_unchecked)
qed

lemma setting_writes:
  assumes "st_cpu_freq_mhz st \<in> {80, 160, 240}"
  shows "writes stats_ns (st_nvs st) (st_nvs (fst (handle_setting env s kv st)))"
  using assms
  by (cases s) (simp_all add: handle_setting_def level_writes txpower_set_writes cpufreq_writes advitvl_writes wifips_writes hostname_writes
      passkey_writes scan_writes handle_trace_set_def Let_def)

text \<open>An input is the request and the state that finds it.\<close>

definition settings_run :: "stats_env \<times> setting \<times> query \<times> stats_state \<Rightarrow> nvs \<Rightarrow> nvs" where
  "settings_run = (\<lambda>(env, s, kv, st) n. st_nvs (fst (handle_setting env s kv (st\<lparr>st_nvs := n\<rparr>))))"

interpretation sett: store_client stats_ns "\<lambda>(env, s, kv, st). st_cpu_freq_mhz st \<in> {80, 160, 240}" settings_run
proof
  fix a :: "stats_env \<times> setting \<times> query \<times> stats_state" and n
  assume p: "case a of (env, s, kv, st) \<Rightarrow> st_cpu_freq_mhz st \<in> {80, 160, 240}"
  obtain env s kv st where a: "a = (env, s, kv, st)" by (metis prod_cases4)
  show "writes stats_ns n (settings_run a n)" using setting_writes [of "st\<lparr>st_nvs := n\<rparr>" env s kv] p by (simp add: a settings_run_def)
qed

section \<open>The clone's configuration\<close>

definition config_run :: "nvs_env \<times> clone_target \<times> clone_target \<Rightarrow> nvs \<Rightarrow> nvs" where
  "config_run = (\<lambda>(ne, t, snapshot) n. snd (fst (config_set ne t (snapshot, n))))"

interpretation conf: store_client "\<lambda>ns. ns = CLONE_NS" "\<lambda>(ne, t, snapshot). length (ct_suffix t) \<le> 15" config_run
proof
  fix a :: "nvs_env \<times> clone_target \<times> clone_target" and n
  assume p: "case a of (ne, t, snapshot) \<Rightarrow> length (ct_suffix t) \<le> 15"
  obtain ne t snapshot where a: "a = (ne, t, snapshot)" by (metis prod_cases3)
  show "writes (\<lambda>ns. ns = CLONE_NS) n (config_run a n)"
    using p writes_nvs_write [of "\<lambda>ns. ns = CLONE_NS" CLONE_NS "[(''addr'', NV_u64 (ct_address t)), (''type'', NV_u8 (ct_type t)),
        (''enabled'', NV_u8 (if ct_enabled t then 1 else 0)), (''name_suffix'', NV_str (ct_suffix t))]" n ne]
    by (auto simp: a config_run_def config_set_def schema_ns value_kinds split: prod.split bool.split)
qed

section \<open>The router\<close>

definition ap_creds_ok :: "nat_state \<Rightarrow> bool" where
  "ap_creds_ok s \<longleftrightarrow> ap_ssid_ok (nr_ssid s) \<and> ap_psk_ok (nr_psk s)"

abbreviation "nat_ns \<equiv> (\<lambda>ns. ns = NAT_NS)"

lemma save_creds_writes: "ap_creds_ok s \<Longrightarrow> writes nat_ns (nr_nvs s) (nr_nvs (save_ap_creds ne s))"
  by (auto simp: save_ap_creds_def ap_creds_ok_def schema_ns value_kinds intro!: writes_nvs_unchecked)

lemma save_enabled_writes: "writes nat_ns (nr_nvs s) (nr_nvs (save_enabled ne b s))"
  by (auto simp: save_enabled_def schema_ns value_kinds intro!: writes_nvs_unchecked)

lemma save_portmap_writes: "length (nr_portmap s) = PORTMAP_MAX \<Longrightarrow> writes nat_ns (nr_nvs s) (nr_nvs (save_portmap ne s))"
  by (auto simp: save_portmap_def schema_ns portmap_bytes_length intro!: writes_nvs_unchecked)

lemma nat_post_writes:
  assumes "ap_creds_ok s"
  shows "writes nat_ns (nr_nvs s) (nr_nvs (fst (nat_post ne env q s))) \<and> ap_creds_ok (fst (nat_post ne env q s))"
proof -
  have c: "nr_nvs (configure_ap env s) = nr_nvs s" "ap_creds_ok (configure_ap env s) = ap_creds_ok s" for s
    using nat_coreD [OF core_platform(2), of env s] by (simp_all add: ap_creds_ok_def)
  have u: "nr_nvs (ap_up env s) = nr_nvs s" "ap_creds_ok (ap_up env s) = ap_creds_ok s" for s
    using nat_coreD [OF core_ap_up, of env s] by (simp_all add: ap_creds_ok_def)
  have d: "nr_nvs (ap_down s) = nr_nvs s" "ap_creds_ok (ap_down s) = ap_creds_ok s" for s
    using nat_coreD [OF core_ap_down, of s] by (simp_all add: ap_creds_ok_def)
  have t: "writes nat_ns (nr_nvs s) (nr_nvs (nat_toggle ne env en s)) \<and> ap_creds_ok (nat_toggle ne env en s) = ap_creds_ok s" for en s
    using save_enabled_writes [of "ap_up env s" ne True] save_enabled_writes [of "ap_down s" ne False] u d
    by (auto simp: nat_toggle_def Let_def ap_creds_ok_def save_enabled_def split: option.split)
  have s: "writes nat_ns (nr_nvs s) (nr_nvs (save_ap_creds ne s)) \<and> ap_creds_ok (save_ap_creds ne s)" if "ap_creds_ok s" for s
    using save_creds_writes [OF that] that by (simp add: ap_creds_ok_def save_ap_creds_def)
  have k: "ap_creds_ok (fst (nat_set_ssid x s)) \<and> nr_nvs (fst (nat_set_ssid x s)) = nr_nvs s"
      "ap_creds_ok (fst (nat_set_psk x s)) \<and> nr_nvs (fst (nat_set_psk x s)) = nr_nvs s" if "ap_creds_ok s" for x s
    using that by (auto simp: nat_set_ssid_def nat_set_psk_def ap_creds_ok_def ap_ssid_ok_def ap_psk_ok_def split: option.split)
  show ?thesis
  proof (cases "q 160")
    case None
    then show ?thesis using assms by (simp add: nat_post_def)
  next
    case (Some kv)
    obtain s1 e1 where 1: "nat_set_ssid (kv ''ssid'' 33) s = (s1, e1)" by fastforce
    obtain s2 e2 where 2: "nat_set_psk (kv ''psk'' 64) s1 = (s2, e2)" by fastforce
    have o1: "ap_creds_ok s1" "nr_nvs s1 = nr_nvs s" using k(1) [OF assms, of "kv ''ssid'' 33"] 1 by simp_all
    have o2: "ap_creds_ok s2" "nr_nvs s2 = nr_nvs s" using k(2) [OF o1(1), of "kv ''psk'' 64"] 2 o1(2) by simp_all
    note o = o1 o2
    define s3 where "s3 = (if kv ''ssid'' 33 \<noteq> None \<or> kv ''psk'' 64 \<noteq> None then let s = save_ap_creds ne s2 in if nr_enabled s then configure_ap env s else s else s2)"
    have 3: "writes nat_ns (nr_nvs s) (nr_nvs s3) \<and> ap_creds_ok s3" using s [OF o(3)] o c by (auto simp: s3_def Let_def)
    then have "writes nat_ns (nr_nvs s) (nr_nvs (nat_toggle ne env (kv ''enabled'' 8) s3)) \<and> ap_creds_ok (nat_toggle ne env (kv ''enabled'' 8) s3)"
      using t [of s3 "kv ''enabled'' 8"] by (blast intro: writes_trans)
    moreover have "nat_post ne env q s = (if kv ''enabled'' 8 = None \<and> kv ''ssid'' 33 = None \<and> kv ''psk'' 64 = None then (s, Http_error 400 ''need enabled=, ssid= or psk='')
        else case e1 of Some e \<Rightarrow> (s1, Http_error 400 e) | None \<Rightarrow> (case e2 of Some e \<Rightarrow> (s2, Http_error 400 e) | None \<Rightarrow> (nat_toggle ne env (kv ''enabled'' 8) s3, json_ok)))"
      by (simp only: nat_post_def Some option.case Let_def 1 2 s3_def prod.case)
    ultimately show ?thesis using o assms by (auto split: option.split)
  qed
qed

lemma portmap_post_writes:
  assumes "pm_ok (nr_portmap s)"
  shows "writes nat_ns (nr_nvs s) (nr_nvs (fst (portmap_post aton ne q s)))"
proof -
  have c: "nr_nvs (call c s) = nr_nvs s" for c s by (simp add: call_def)
  have p: "writes nat_ns (nr_nvs s) (nr_nvs (save_portmap ne (s\<lparr>nr_portmap := tbl\<rparr>)))" if "length tbl = PORTMAP_MAX" for tbl
    using save_portmap_writes [of "s\<lparr>nr_portmap := tbl\<rparr>" ne] that by simp
  have l: "length (nr_portmap s) = PORTMAP_MAX" using assms by (simp add: pm_ok_def)
  have d: "writes nat_ns (nr_nvs s) (nr_nvs (portmap_delete ne key s))" for key
    using l by (auto simp: portmap_delete_def c split: option.split intro!: p)
  have a: "writes nat_ns (nr_nvs s) (nr_nvs s')" if h: "portmap_add ne key dest s = Some s'" for key dest s'
  proof -
    obtain tbl where t: "portmap_put key dest (nr_portmap s) = Some tbl"
        "s' = (let s = save_portmap ne (s\<lparr>nr_portmap := tbl\<rparr>) in if nr_sta_ip s \<noteq> 0 then call (Portmap_add (fst key) (nr_sta_ip s) (snd key) (fst dest) (snd dest)) s else s)"
      using h unfolding portmap_add_def map_option_eq_Some by blast
    have "length tbl = PORTMAP_MAX" using t(1) l by (auto simp: portmap_put_def split: option.splits)
    from p [OF this] show ?thesis by (simp add: t(2) Let_def c)
  qed
  show ?thesis by (auto simp: portmap_post_def split: option.split sum.split intro!: d a)
qed

definition nat_run :: "(string \<Rightarrow> u32 option) \<times> nvs_env \<times> nat_event \<times> nat_state \<Rightarrow> nvs \<Rightarrow> nvs" where
  "nat_run = (\<lambda>(aton, ne, ev, s) n. nr_nvs (nat_event_step aton ne ev (s\<lparr>nr_nvs := n\<rparr>)))"

definition nat_pre :: "nat_state \<Rightarrow> bool" where
  "nat_pre s \<longleftrightarrow> ap_creds_ok s \<and> pm_ok (nr_portmap s)"

text \<open>Everything but a restart; the restart reads the store only, but takes new credentials from it.\<close>

lemma nat_event_writes:
  assumes "nat_pre s"
  shows "writes nat_ns (nr_nvs s) (nr_nvs (nat_event_step aton ne ev s))"
proof (cases ev)
  case (Ev_nat_post env q)
  then show ?thesis using nat_post_writes [of s ne env q] assms by (simp add: nat_pre_def)
next
  case (Ev_portmap_post q)
  then show ?thesis using portmap_post_writes [of s aton ne q] assms by (simp add: nat_pre_def)
next
  case (Ev_got_ip env ip)
  have d: "nr_nvs (set_ap_dns env s) = nr_nvs s" for s using nat_coreD(3) [OF core_platform(3), of env s] by simp
  show ?thesis using Ev_got_ip by (simp add: on_sta_got_ip_def Let_def d)
next
  case Ev_ota_pause
  have "nr_nvs (ap_down s) = nr_nvs s" for s using nat_coreD(3) [OF core_ap_down, of s] by simp
  then show ?thesis using Ev_ota_pause by (simp add: nat_pause_for_ota_def Let_def)
next
  case (Ev_ota_resume env)
  have "nr_nvs (ap_up env s) = nr_nvs s" for s using nat_coreD(3) [OF core_ap_up, of env s] by simp
  then show ?thesis using Ev_ota_resume by (simp add: nat_resume_after_ota_def Let_def)
next
  case (Ev_forward n dest)
  then show ?thesis by (auto simp: nbp_ip4_canforward_def split: option.split)
next
  case (Ev_reboot env)
  have "nr_nvs (ap_up env s) = nr_nvs s" for s using nat_coreD(3) [OF core_ap_up, of env s] by simp
  moreover have "nr_nvs (load_ap_creds ne (nat_globals n)) = n" for n
    by (auto simp: load_ap_creds_def nat_globals_def Let_def split: option.split)
  ultimately show ?thesis using Ev_reboot by (simp add: nat_start_def Let_def split: option.split)
qed

interpretation rout: store_client nat_ns "\<lambda>(aton, ne, ev, s). nat_pre s" nat_run
proof
  fix a :: "(string \<Rightarrow> u32 option) \<times> nvs_env \<times> nat_event \<times> nat_state" and n
  assume p: "case a of (aton, ne, ev, s) \<Rightarrow> nat_pre s"
  obtain aton ne ev s where a: "a = (aton, ne, ev, s)" by (metis prod_cases4)
  show "writes nat_ns n (nat_run a n)" using nat_event_writes [of "s\<lparr>nr_nvs := n\<rparr>" aton ne ev] p
    by (simp add: a nat_run_def nat_pre_def ap_creds_ok_def)
qed

section \<open>Watchdog, boot guard, setup form\<close>

definition live_run :: "nvs_env \<times> int \<times> int \<times> int \<times> liveness \<Rightarrow> nvs \<Rightarrow> nvs" where
  "live_run = (\<lambda>(ne, en, intv, thr, l) n. snd (fst (set_params ne en intv thr (l, n))))"

lemma set_params_writes:
  assumes "live_params_ok l" "set_params ne en intv thr (l, n) = ((l', n'), e)"
  shows "writes (\<lambda>ns. ns = LIVE_NS) n n' \<and> live_params_ok l'"
proof -
  have r: "word_of_int a \<le> (word_of_int p :: u32) \<and> (word_of_int p :: u32) \<le> word_of_int b" if "a \<le> p" "p \<le> b" "0 \<le> a" "b < 65536" for a p b
    using that by (simp add: word_le_def uint_word_of_int_eq take_bit_int_eq_self)
  have ok: "live_params_ok l'" using assms r [of 5 _ 3600] r [of 1 _ 60]
    by (auto simp: set_params_def live_params_ok_def Let_def split: if_splits)
  have "n' = n \<or> n' = save_nvs ne l' n" using assms(2) by (auto simp: set_params_def Let_def split: if_splits)
  moreover have "writes (\<lambda>ns. ns = LIVE_NS) n (save_nvs ne l' n)"
    unfolding save_nvs_def using ok by (intro writes_nvs_unchecked) (auto simp: schema_ns value_kinds live_params_ok_def)
  ultimately show ?thesis using ok by auto
qed

interpretation live_wdt: store_client "\<lambda>ns. ns = LIVE_NS" "\<lambda>(ne, en, intv, thr, l). live_params_ok l" live_run
proof
  fix a :: "nvs_env \<times> int \<times> int \<times> int \<times> liveness" and n
  assume p: "case a of (ne, en, intv, thr, l) \<Rightarrow> live_params_ok l"
  obtain ne en intv thr l where a: "a = (ne, en, intv, thr, l)" by (metis prod_cases5)
  obtain l' n' e where s: "set_params ne en intv thr (l, n) = ((l', n'), e)" by (metis prod.exhaust)
  show "writes (\<lambda>ns. ns = LIVE_NS) n (live_run a n)" using set_params_writes [OF _ s] p s by (simp add: a live_run_def)
qed

definition guard_run :: "nvs_env \<times> reset_reason option \<Rightarrow> nvs \<Rightarrow> nvs" where
  "guard_run = (\<lambda>(ne, r) n. case r of Some reason \<Rightarrow> fst (boot_was_unstable ne reason n) | None \<Rightarrow> boot_stable_mark ne n)"

interpretation guard: store_client "\<lambda>ns. ns = NBP_BOOT_NS" "\<lambda>_. True" guard_run
proof
  fix a :: "nvs_env \<times> reset_reason option" and n
  have w: "writes (\<lambda>ns. ns = NBP_BOOT_NS) n (nvs_write_unchecked ne NBP_BOOT_NS [(NBP_BOOT_PENDING_KEY, NV_u8 b)] n)" if "b = 0 \<or> b = 1" for ne b
    using that by (intro writes_nvs_unchecked) (auto simp: schema_ns value_kinds)
  show "writes (\<lambda>ns. ns = NBP_BOOT_NS) n (guard_run a n)"
    using w [of 1] w [of 0] by (auto simp: guard_run_def boot_was_unstable_def boot_stable_mark_def Let_def split: prod.split option.split)
qed

definition form_run :: "nvs_env \<times> recv_result list \<Rightarrow> nvs \<Rightarrow> nvs" where
  "form_run = (\<lambda>(ne, rs) n. fst (ap_wifi_post ne rs n))"

interpretation form: store_client "\<lambda>ns. ns = NVS_WIFI_NS" "\<lambda>_. True" form_run
proof
  fix a :: "nvs_env \<times> recv_result list" and n
  show "writes (\<lambda>ns. ns = NVS_WIFI_NS) n (form_run a n)"
    using form_creds_valid
    by (auto simp: form_run_def ap_wifi_post_def schema_ns value_kinds split: prod.split sum.split intro!: writes_nvs_unchecked)
qed

section \<open>The serial line\<close>

abbreviation "serial_ns \<equiv> (\<lambda>ns. ns = NVS_WIFI_NS \<or> ns = NAT_NS)"

lemma line_writes: "writes serial_ns n (fst (handle_line ne line n))"
proof -
  have w: "writes serial_ns n n'" if "store_wifi_creds ne ssid psk n = (n', ok)" "valid_ssid ssid" "valid_psk psk" for ssid psk n' ok n
    using that writes_nvs_write [of serial_ns NVS_WIFI_NS "[(''ssid'', NV_str ssid), (''psk'', NV_str psk)]" n ne]
    by (simp add: store_wifi_creds_def NVS_WIFI_NS_def [symmetric] schema_ns value_kinds)
  have t: "writes serial_ns n n'" if "store_nat_config ne en ssid psk us up n = (n', ok)" "us \<longrightarrow> valid_ssid ssid" "up \<longrightarrow> valid_ap_psk psk" for en ssid psk us up n' ok n
    using that writes_nvs_write [of serial_ns NAT_NS "[(''enabled'', NV_u8 (if en then 1 else 0))] @ (if us then [(''ap_ssid'', NV_str ssid)] else []) @ (if up then [(''ap_psk'', NV_str psk)] else [])" n ne]
    by (auto simp: store_nat_config_def NAT_NS_def [symmetric] schema_ns value_kinds valid_ssid_def valid_ap_psk_def ap_ssid_ok_def ap_psk_ok_def split: if_splits)
  have nl: "writes serial_ns n n'" if "handle_nat_line ne line n = (n', r)" for n n' r
    using that by (auto simp: handle_nat_line_def refused_def not_handled_def Let_def valid_ssid_def valid_ap_psk_def not_less
        split: if_splits option.splits prod.splits bool.splits dest!: decode_b64_sound t)
  have wl: "writes serial_ns n n'" if "handle_wifi_line ne line n = (n', r)" for n n' r
    using that by (auto simp: handle_wifi_line_def refused_def not_handled_def Let_def valid_ssid_def valid_psk_def not_less
        split: if_splits option.splits prod.splits bool.splits dest!: decode_b64_sound w)
  obtain m r where m: "handle_nat_line ne line n = (m, r)" by fastforce
  obtain m' r' where m': "handle_wifi_line ne line m = (m', r')" by fastforce
  show ?thesis using nl [OF m] wl [OF m'] by (auto simp: handle_line_def m m' intro: writes_trans)
qed

definition serial_run :: "nvs_env \<times> (string \<times> string) list \<Rightarrow> nvs \<Rightarrow> nvs" where
  "serial_run = (\<lambda>(ne, turns) n. pv_nvs (poll_boot_window ne turns n))"

interpretation serial: store_client serial_ns "\<lambda>_. True" serial_run
proof
  fix a :: "nvs_env \<times> (string \<times> string) list" and n
  show "writes serial_ns n (serial_run a n)"
    unfolding serial_run_def split_beta
    by (rule poll_boot_rel [where R = "writes serial_ns"]) (auto intro: writes_trans line_writes)
qed

end
