(* ===== verification/Device.thy ===== *)
theory Device
  imports Store_Schema
begin

text \<open>
  The running device: the components behind the one HTTP server and the Bluetooth dashboard, over the one store, and the
  device's life from the first power-on through setup, running, resets and restarts. The settings, the watchdog,
  the clone and the router keep copies in memory of what they store; here they share the store, so a request to one
  finds what a request to another wrote.
\<close>

section \<open>State and requests\<close>

text \<open>The state both dashboards share (with settings, watchdog and clone) and the router. The store is the settings' one.\<close>

record running =
  rn_web :: ble_web
  rn_nat :: nat_state

abbreviation rn_stats :: "running \<Rightarrow> stats_state" where "rn_stats r \<equiv> wb_stats (bw_web (rn_web r))"
abbreviation rn_live :: "running \<Rightarrow> liveness" where "rn_live r \<equiv> wb_live (bw_web (rn_web r))"
abbreviation rn_target :: "running \<Rightarrow> clone_target" where "rn_target r \<equiv> cl_target (bw_clone (rn_web r))"

definition store :: "running \<Rightarrow> nvs" where
  "store r = st_nvs (rn_stats r)"

definition put_store :: "nvs \<Rightarrow> running \<Rightarrow> running" where
  "put_store n r = (let b = rn_web r; w = bw_web b in r\<lparr>rn_web := b\<lparr>bw_web := w\<lparr>wb_stats := (wb_stats w)\<lparr>st_nvs := n\<rparr>\<rparr>\<rparr>\<rparr>)"

text \<open>A step of the router over the shared store.\<close>

definition nat_on :: "(nat_state \<Rightarrow> nat_state) \<Rightarrow> running \<Rightarrow> running" where
  "nat_on f r = (let s = f ((rn_nat r)\<lparr>nr_nvs := store r\<rparr>) in put_store (nr_nvs s) (r\<lparr>rn_nat := s\<rparr>))"

text \<open>A request to the HTTP server on the routes of the dashboard, the router and the clone, which are those that read or change what
  is joined here (the bridge does neither, and an update is the two events below, or a reset when it succeeds). The reply is \<open>None\<close> on
  any other route.\<close>

definition httpd_request ::
  "string \<Rightarrow> string \<Rightarrow> (string \<Rightarrow> u32 option) \<Rightarrow> nat_env \<Rightarrow> web_in \<Rightarrow> http_method \<Rightarrow> string \<Rightarrow> running \<Rightarrow> running \<times> http_resp option" where
  "httpd_request html svg aton venv i m uri r =
     (let ne = se_nvs (wi_env i); b = rn_web r; s = (rn_nat r)\<lparr>nr_nvs := store r\<rparr>
      in if (uri, m) = (''/nat'', HTTP_GET) then (r, nat_get venv s)
         else if (uri, m) = (''/nat'', HTTP_POST) then
           (nat_on (\<lambda>s. fst (nat_post ne venv (wi_query i) s)) r, Some (snd (nat_post ne venv (wi_query i) s)))
         else if (uri, m) = (''/portmap'', HTTP_POST) then
           (nat_on (\<lambda>s. fst (portmap_post aton ne (wi_query i) s)) r, Some (snd (portmap_post aton ne (wi_query i) s)))
         else if (uri, m) = (''/clone'', HTTP_GET) then (r, Some (clone_get (bw_app b)))
         else if (uri, m) = (''/clone'', HTTP_POST) then
           (case clone_post (wi_env i) (wi_query i) (bw_app b) of (a, p) \<Rightarrow> (r\<lparr>rn_web := bw_put_app a b\<rparr>, Some p))
         else case web_serve html svg i m uri (bw_web b) of
                None \<Rightarrow> (r, None)
              | Some (w, p) \<Rightarrow> (r\<lparr>rn_web := b\<lparr>bw_web := w\<rparr>\<rparr>, Some p))"

datatype dev_event =
    Dv_http string string nat_env web_in http_method string
  | Dv_ble "string \<Rightarrow> query" web_in string string
  | Dv_got_ip nat_env u32
  | Dv_forward "u16 option" u32
  | Dv_update_begins
  | Dv_update_failed nat_env
  | Dv_stable

fun device_step :: "stats_env \<Rightarrow> (string \<Rightarrow> u32 option) \<Rightarrow> dev_event \<Rightarrow> running \<Rightarrow> running" where
  "device_step env aton (Dv_http html svg venv i m uri) r = fst (httpd_request html svg aton venv i m uri r)"
| "device_step env aton (Dv_ble qkv i meth line) r = r\<lparr>rn_web := fst (dispatch i qkv meth line RESP_BUF_BYTES (rn_web r))\<rparr>"
| "device_step env aton (Dv_got_ip venv ip) r = nat_on (on_sta_got_ip venv ip) r"
| "device_step env aton (Dv_forward n dest) r = nat_on (\<lambda>s. fst (nbp_ip4_canforward n dest s)) r"
| "device_step env aton Dv_update_begins r = nat_on nat_pause_for_ota r"
| "device_step env aton (Dv_update_failed venv) r = nat_on (nat_resume_after_ota venv) r"
| "device_step env aton Dv_stable r = put_store (boot_stable_mark (se_nvs env) (store r)) r"

text \<open>The environment of a request is that of the device.\<close>

fun event_ok :: "stats_env \<Rightarrow> dev_event \<Rightarrow> bool" where
  "event_ok env (Dv_http html svg venv i m uri) = (wi_env i = env)"
| "event_ok env (Dv_ble qkv i meth line) = (wi_env i = env)"
| "event_ok env _ = True"

section \<open>The life of a device\<close>

text \<open>What the boot leaves running; the clone's supervisor starts from its initial state.\<close>

definition running_of :: "boot_in \<Rightarrow> device \<Rightarrow> running" where
  "running_of i d =
     \<lparr>rn_web = \<lparr>bw_web = \<lparr>wb_stats = de_stats d, wb_live = de_live d, wb_bthome = [], wb_cpu = \<lparr>cpu_prev_us = 0, cpu_prev_idle0 = 0, cpu_prev_idle1 = 0\<rparr>, wb_reads = 0, wb_writes = 0, wb_notifies = 0\<rparr>,
        bw_clone = (clone_initial (bi_nvs i) (de_nvs d))\<lparr>cl_target := de_target d, cl_ble := st_ble (de_stats d)\<rparr>\<rparr>,
      rn_nat = de_nat d\<rparr>"

datatype phase = Off nvs | Setup nvs bool | Run running

definition power_on :: "boot_in \<Rightarrow> nvs \<Rightarrow> phase" where
  "power_on i n =
     (case app_main i n of Boot_restarted n' \<Rightarrow> Off n' | Boot_setup n' served \<Rightarrow> Setup n' served | Boot_running d \<Rightarrow> Run (running_of i d))"

definition boot_ok :: "stats_env \<Rightarrow> u32 \<times> u32 \<Rightarrow> boot_in \<Rightarrow> bool" where
  "boot_ok env lv i \<longleftrightarrow> bi_nvs i = se_nvs env \<and> bi_stats i = env \<and> bi_live i = lv"

inductive life :: "stats_env \<Rightarrow> u32 \<times> u32 \<Rightarrow> (string \<Rightarrow> u32 option) \<Rightarrow> phase \<Rightarrow> bool" for env lv aton where
  life_new: "life env lv aton (Off (\<lambda>_ _. None))"
| life_boot: "life env lv aton (Off n) \<Longrightarrow> boot_ok env lv i \<Longrightarrow> life env lv aton (power_on i n)"
| life_setup: "life env lv aton (Setup n True) \<Longrightarrow> ap_wifi_post (se_nvs env) rs n = (n', p, restart) \<Longrightarrow> life env lv aton (if restart then Off n' else Setup n' True)"
| life_unplugged: "life env lv aton (Setup n served) \<Longrightarrow> life env lv aton (Off n)"
| life_run: "life env lv aton (Run r) \<Longrightarrow> event_ok env ev \<Longrightarrow> life env lv aton (Run (device_step env aton ev r))"
| life_reset: "life env lv aton (Run r) \<Longrightarrow> life env lv aton (Off (store r))"

fun phase_store :: "phase \<Rightarrow> nvs" where
  "phase_store (Off n) = n"
| "phase_store (Setup n served) = n"
| "phase_store (Run r) = store r"

section \<open>What holds while the device runs\<close>

definition params_of :: "liveness \<Rightarrow> bool \<times> u32 \<times> u32" where
  "params_of l = (lw_enabled l, lw_interval_s l, lw_threshold l)"

definition stored_params :: "nvs_env \<Rightarrow> u32 \<times> u32 \<Rightarrow> nvs \<Rightarrow> bool \<times> u32 \<times> u32" where
  "stored_params ne lv n = params_of (load_nvs ne n (liveness_initial (fst lv) (snd lv)))"

definition dev_inv :: "stats_env \<Rightarrow> u32 \<times> u32 \<Rightarrow> running \<Rightarrow> bool" where
  "dev_inv env lv r \<longleftrightarrow>
     synced (rn_stats r) \<and> rn_target r = config_load (se_nvs env) (store r) \<and>
     nat_inv (se_nvs env) ((rn_nat r)\<lparr>nr_nvs := store r\<rparr>) \<and> ap_creds_ok (rn_nat r) \<and>
     live_params_ok (rn_live r) \<and> params_of (rn_live r) = stored_params (se_nvs env) lv (store r) \<and> well_typed (store r)"

text \<open>Each part of the invariant depends on its own namespace of the store.\<close>

lemma stored_params_keys: "(\<And>k. n LIVE_NS k = n' LIVE_NS k) \<Longrightarrow> stored_params ne lv n = stored_params ne lv n'"
  by (simp add: stored_params_def load_nvs_def get_u8_def get_u32_def nvs_read_def)

lemma nat_inv_keys:
  assumes "\<And>k. n NAT_NS k = n' NAT_NS k"
  shows "nat_inv ne (s\<lparr>nr_nvs := n\<rparr>) = nat_inv ne (s\<lparr>nr_nvs := n'\<rparr>)"
proof -
  have "load_portmap ne n = load_portmap ne n'" by (rule load_portmap_keys) (rule assms)
  moreover have "rules (s\<lparr>nr_nvs := m\<rparr>) = rules s" "live (s\<lparr>nr_nvs := m\<rparr>) = live s" for m by (simp_all add: rules_def live_def)
  ultimately show ?thesis by (simp add: nat_inv_def core_inv_def live_matches_def)
qed

lemma ns_distinct:
  "CLONE_NS \<noteq> NVS_NS" "LIVE_NS \<noteq> NVS_NS" "NAT_NS \<noteq> NVS_NS" "NVS_NS \<noteq> CLONE_NS" "LIVE_NS \<noteq> CLONE_NS" "NAT_NS \<noteq> CLONE_NS"
  "NVS_NS \<noteq> NAT_NS" "CLONE_NS \<noteq> NAT_NS" "LIVE_NS \<noteq> NAT_NS" "NVS_NS \<noteq> LIVE_NS" "CLONE_NS \<noteq> LIVE_NS" "NAT_NS \<noteq> LIVE_NS"
  "NVS_NS \<noteq> NBP_BOOT_NS" "CLONE_NS \<noteq> NBP_BOOT_NS" "NAT_NS \<noteq> NBP_BOOT_NS" "LIVE_NS \<noteq> NBP_BOOT_NS"
  by (simp_all add: namespaces)

lemma synced_keys: "(\<And>k. n NVS_NS k = st_nvs st NVS_NS k) \<Longrightarrow> synced (st\<lparr>st_nvs := n\<rparr>) = synced st"
  using nvs_settings_keys [of n "st_nvs st"] by (simp add: synced_def)

lemma store_simps [simp]: "store (put_store n r) = n" "rn_stats (put_store n r) = (rn_stats r)\<lparr>st_nvs := n\<rparr>" "rn_live (put_store n r) = rn_live r"
  "rn_target (put_store n r) = rn_target r" "rn_nat (put_store n r) = rn_nat r"
  by (simp_all add: store_def put_store_def Let_def)

text \<open>A step that writes within \<open>own\<close> keeps the parts of the invariant it does not own.\<close>

lemma dev_inv_frame:
  assumes "dev_inv env lv r" "writes own (store r) n"
  shows "\<not> own NVS_NS \<Longrightarrow> synced ((rn_stats r)\<lparr>st_nvs := n\<rparr>)" "\<not> own CLONE_NS \<Longrightarrow> config_load (se_nvs env) n = rn_target r"
    "\<not> own NAT_NS \<Longrightarrow> nat_inv (se_nvs env) ((rn_nat r)\<lparr>nr_nvs := n\<rparr>)" "\<not> own LIVE_NS \<Longrightarrow> stored_params (se_nvs env) lv n = params_of (rn_live r)"
    "well_typed n"
proof -
  have k: "n ns k = store r ns k" if "\<not> own ns" for ns k using writes_frame [OF assms(2) that] .
  show "\<not> own NVS_NS \<Longrightarrow> synced ((rn_stats r)\<lparr>st_nvs := n\<rparr>)"
    using assms(1) k synced_keys [of n "rn_stats r"] by (simp add: dev_inv_def store_def)
  show "\<not> own CLONE_NS \<Longrightarrow> config_load (se_nvs env) n = rn_target r"
    using assms(1) config_load_keys [of n "store r" "se_nvs env"] k by (simp add: dev_inv_def)
  show "\<not> own NAT_NS \<Longrightarrow> nat_inv (se_nvs env) ((rn_nat r)\<lparr>nr_nvs := n\<rparr>)"
    using assms(1) nat_inv_keys [of n "store r" "se_nvs env" "rn_nat r"] k by (simp add: dev_inv_def)
  show "\<not> own LIVE_NS \<Longrightarrow> stored_params (se_nvs env) lv n = params_of (rn_live r)"
    using assms(1) stored_params_keys [of n "store r" "se_nvs env" lv] k by (simp add: dev_inv_def)
  show "well_typed n" using assms writes_typed by (auto simp: dev_inv_def)
qed

lemma dev_inv_cpu: "dev_inv env lv r \<Longrightarrow> st_cpu_freq_mhz (rn_stats r) \<in> {80, 160, 240}"
  using stored_cpu_valid [of "store r"] synced_fields(5) [of "rn_stats r"] by (auto simp: dev_inv_def store_def) (metis fst_conv)+

lemma dev_inv_stats:
  assumes "dev_inv env lv r" "synced st" "writes stats_ns (store r) (st_nvs st)"
  shows "dev_inv env lv (r\<lparr>rn_web := (rn_web r)\<lparr>bw_web := (bw_web (rn_web r))\<lparr>wb_stats := st\<rparr>\<rparr>\<rparr>)"
  using dev_inv_frame(2-5) [OF assms(1,3)] assms by (simp add: dev_inv_def store_def ns_distinct)

lemma setting_dev_inv:
  assumes "nvs_works (se_nvs env)" "se_pm_ok env" "dev_inv env lv r"
  shows "dev_inv env lv (r\<lparr>rn_web := (rn_web r)\<lparr>bw_web := (bw_web (rn_web r))\<lparr>wb_stats := fst (handle_setting env s kv (rn_stats r))\<rparr>\<rparr>\<rparr>)"
proof (rule dev_inv_stats [OF assms(3)])
  show "synced (fst (handle_setting env s kv (rn_stats r)))" by (rule synced_setting [OF assms(1,2)]) (use assms(3) in \<open>simp add: dev_inv_def\<close>)
  show "writes stats_ns (store r) (st_nvs (fst (handle_setting env s kv (rn_stats r))))"
    unfolding store_def by (rule setting_writes [OF dev_inv_cpu [OF assms(3)]])
qed

lemma nat_event_creds:
  assumes "ap_creds_ok s" "\<And>env. ev \<noteq> Ev_reboot env"
  shows "ap_creds_ok (nat_event_step aton ne ev s)"
proof -
  have c: "ap_creds_ok s' = ap_creds_ok s''" if "nat_core s' = nat_core s''" for s' s'' using nat_coreD(5,6) [OF that] by (simp add: ap_creds_ok_def)
  have u: "ap_creds_ok (ap_up env s) = ap_creds_ok s" for env s using c [OF core_ap_up, of env s] by (simp add: ap_creds_ok_def)
  have d: "ap_creds_ok (ap_down s) = ap_creds_ok s" for s using c [OF core_ap_down, of s] by (simp add: ap_creds_ok_def)
  have n: "ap_creds_ok (set_ap_dns env s) = ap_creds_ok s" for env s by (rule c) simp
  show ?thesis
  proof (cases ev)
    case (Ev_nat_post env q)
    then show ?thesis using nat_post_writes [OF assms(1), of ne env q] by simp
  next
    case (Ev_portmap_post q)
    have p: "ap_creds_ok (portmap_delete ne key s)" for key
      using assms(1) by (simp add: portmap_delete_def ap_creds_ok_def call_def save_portmap_def split: option.split)
    have "ap_creds_ok s'" if h: "portmap_add ne key dest s = Some s'" for key dest s'
    proof -
      have c: "ap_creds_ok (call x s) = ap_creds_ok s" "ap_creds_ok (save_portmap ne s) = ap_creds_ok s" "ap_creds_ok (s\<lparr>nr_portmap := tbl\<rparr>) = ap_creds_ok s" for x s tbl
        by (simp_all add: ap_creds_ok_def call_def save_portmap_def)
      obtain tbl where "s' = (let s = save_portmap ne (s\<lparr>nr_portmap := tbl\<rparr>) in if nr_sta_ip s \<noteq> 0 then call (Portmap_add (fst key) (nr_sta_ip s) (snd key) (fst dest) (snd dest)) s else s)"
        using h unfolding portmap_add_def map_option_eq_Some by blast
      then show ?thesis using assms(1) by (simp add: Let_def c)
    qed
    then show ?thesis using Ev_portmap_post p assms(1) by (auto simp: portmap_post_def split: option.split sum.split)
  next
    case (Ev_got_ip env ip)
    then show ?thesis using assms(1) n by (simp add: on_sta_got_ip_def Let_def) (simp add: ap_creds_ok_def)
  next
    case Ev_ota_pause
    then show ?thesis using assms(1) d by (simp add: nat_pause_for_ota_def Let_def) (simp add: ap_creds_ok_def)
  next
    case (Ev_ota_resume env)
    then show ?thesis using assms(1) u by (simp add: nat_resume_after_ota_def Let_def ap_creds_ok_def)
  next
    case (Ev_forward k dest)
    then show ?thesis using assms(1) by (simp add: nbp_ip4_canforward_def ap_creds_ok_def split: option.split)
  qed (simp add: assms(2))
qed

lemma nat_dev_inv:
  assumes "dev_inv env lv r" "\<And>venv. ev \<noteq> Ev_reboot venv"
  shows "dev_inv env lv (nat_on (nat_event_step aton (se_nvs env) ev) r)"
proof -
  define s where "s = (rn_nat r)\<lparr>nr_nvs := store r\<rparr>"
  define s' where "s' = nat_event_step aton (se_nvs env) ev s"
  have i: "nat_inv (se_nvs env) s" "ap_creds_ok s" using assms(1) by (simp_all add: s_def dev_inv_def ap_creds_ok_def)
  then have i': "nat_inv (se_nvs env) s'" "ap_creds_ok s'" by (simp_all add: s'_def event_inv nat_event_creds [OF _ assms(2)])
  have "nat_pre s" using i by (simp add: nat_pre_def nat_inv_def core_inv_def)
  then have "writes nat_ns (store r) (nr_nvs s')" using nat_event_writes [of s aton "se_nvs env" ev] by (simp add: s'_def s_def)
  note f = dev_inv_frame(1,2,4,5) [OF assms(1) this]
  have "nat_on (nat_event_step aton (se_nvs env) ev) r = put_store (nr_nvs s') (r\<lparr>rn_nat := s'\<rparr>)" by (simp add: nat_on_def s'_def s_def Let_def)
  moreover have "dev_inv env lv (put_store (nr_nvs s') (r\<lparr>rn_nat := s'\<rparr>))"
    using f i' assms(1) by (simp add: dev_inv_def ns_distinct)
  ultimately show ?thesis by simp
qed

lemma stable_dev_inv: "dev_inv env lv r \<Longrightarrow> dev_inv env lv (put_store (boot_stable_mark (se_nvs env) (store r)) r)"
  using guard.run_writes [of "store r" "(se_nvs env, None)"] dev_inv_frame [of env lv r "\<lambda>ns. ns = NBP_BOOT_NS" "boot_stable_mark (se_nvs env) (store r)"]
  by (simp add: dev_inv_def ns_distinct guard_run_def)

lemma live_dev_inv:
  assumes "nvs_works (se_nvs env)" "dev_inv env lv r" "set_params (se_nvs env) en intv thr (rn_live r, store r) = ((l, n), e)"
  shows "dev_inv env lv (r\<lparr>rn_web := (rn_web r)\<lparr>bw_web := (bw_web (rn_web r))\<lparr>wb_live := l, wb_stats := (rn_stats r)\<lparr>st_nvs := n\<rparr>\<rparr>\<rparr>\<rparr>)"
proof -
  have w: "writes (\<lambda>ns. ns = LIVE_NS) (store r) n" "live_params_ok l" using set_params_writes [OF _ assms(3)] assms(2) by (simp_all add: dev_inv_def)
  have "l = rn_live r \<and> n = store r \<or> n = save_nvs (se_nvs env) l (store r)" using assms(3) by (auto simp: set_params_def Let_def split: if_splits)
  then have "params_of l = stored_params (se_nvs env) lv n"
  proof
    assume n: "n = save_nvs (se_nvs env) l (store r)"
    show ?thesis using assms(1) w(2) by (auto simp: n save_nvs_def stored_params_def load_nvs_def get_u8_def get_u32_def params_of_def live_params_ok_def Let_def)
  qed (use assms(2) in \<open>simp add: dev_inv_def\<close>)
  then show ?thesis using dev_inv_frame(1-3,5) [OF assms(2) w(1)] w(2) assms(2) by (simp add: dev_inv_def store_def ns_distinct)
qed

lemma clone_dev_inv:
  assumes "nvs_works (se_nvs env)" "se_pm_ok env" "dev_inv env lv r" "handle_clone_set env q (bw_app (rn_web r)) = (a, res)"
  shows "dev_inv env lv (r\<lparr>rn_web := bw_put_app a (rn_web r)\<rparr>)"
proof -
  let ?a = "bw_app (rn_web r)" and ?own = "\<lambda>ns. ns = NVS_NS \<or> ns = CLONE_NS"
  have a: "ca_stats ?a = rn_stats r" "cl_target (ca_sys ?a) = rn_target r" "radio_stats ?a = rn_stats r" by (simp_all add: bw_app_def radio_stats_def)
  have i: "synced (rn_stats r)" "config_load (se_nvs env) (store r) = rn_target r" using assms(3) by (simp_all add: dev_inv_def)
  then have l: "length (ct_suffix (rn_target r)) \<le> 15" using config_load_suffix [of "se_nvs env" "store r"] by simp
  have t: "config_load (se_nvs env) (st_nvs (ca_stats a)) = cl_target (ca_sys a)"
    using clone_set_persists [OF assms(1) _ assms(4)] i l a by (simp add: store_def)
  have "synced (ca_stats a) \<and> writes ?own (store r) (st_nvs (ca_stats a))"
  proof (cases "\<exists>kv nxt changed. q = Some kv \<and> clone_params kv (rn_target r) = Inr (nxt, changed)")
    case False
    then have "a = ?a" using assms(4) a by (cases q) (auto simp: handle_clone_set_def split: sum.splits prod.splits)
    then show ?thesis using i(1) a by (simp add: store_def)
  next
    case True
    then obtain kv nxt changed where q: "q = Some kv" "clone_params kv (rn_target r) = Inr (nxt, changed)" by blast
    have suffix: "length (ct_suffix nxt) \<le> 15"
      using q(2) l by (auto simp: clone_params_def suffix_copy_def Let_def split: option.splits sum.splits prod.splits if_splits)
    obtain st e where k: "clone_passkey env kv (rn_stats r) = (st, e)" by fastforce
    have st: "synced st" "writes stats_ns (store r) (st_nvs st)"
      using k i(1) synced_passkey [OF assms(1), of "rn_stats r"] passkey_writes [of "rn_stats r" env]
      by (auto simp: clone_passkey_def store_def Let_def split: option.splits if_splits) (metis fst_conv)+
    have w: "writes (\<lambda>ns. ns = CLONE_NS) (st_nvs st) (snd (fst (config_set (se_nvs env) nxt (rn_target r, st_nvs st))))"
      using conf.run_writes [of "(se_nvs env, nxt, rn_target r)" "st_nvs st"] suffix by (simp add: config_run_def)
    define m where "m = snd (fst (config_set (se_nvs env) nxt (rn_target r, st_nvs st)))"
    have sm: "synced (st\<lparr>st_nvs := m\<rparr>)" using st(1) synced_keys [of m st] writes_frame [OF w] by (simp add: m_def ns_distinct)
    have wm: "writes ?own (store r) m" using writes_trans [OF writes_mono [OF st(2)] writes_mono [OF w]] by (simp add: m_def)
    have "st_nvs (ca_stats a) = st_nvs st \<and> ca_stats a = st \<or> ca_stats a = st\<lparr>st_nvs := m\<rparr>"
      using assms(4) q k a by (auto simp: handle_clone_set_def put_stats_def m_def split: option.splits prod.splits bool.splits)
    then show ?thesis using st sm wm writes_mono [OF st(2), of ?own] by auto
  qed
  then show ?thesis using dev_inv_frame(3-5) [OF assms(3)] t assms(3) by (auto simp: dev_inv_def store_def bw_put_app_def ns_distinct)
qed

text \<open>What a request to the settings' routes can do, over either transport.\<close>

definition web_effect :: "stats_env \<Rightarrow> web_state \<Rightarrow> web_state \<Rightarrow> bool" where
  "web_effect env w w' \<longleftrightarrow>
     wb_live w' = wb_live w \<and> (wb_stats w' = wb_stats w \<or> wb_stats w' = schedule_reboot (wb_stats w) \<or> (\<exists>s kv. wb_stats w' = fst (handle_setting env s kv (wb_stats w)))) \<or>
     wb_stats w' = wb_stats w \<and> wb_live w' = force_fail_test (wb_live w) \<or>
     (\<exists>en intv thr n e. set_params (se_nvs env) en intv thr (wb_live w, st_nvs (wb_stats w)) = ((wb_live w', n), e) \<and> wb_stats w' = (wb_stats w)\<lparr>st_nvs := n\<rparr>)"

lemma post_setting_effect: "web_effect (wi_env i) w (fst (post_setting cap s i w))"
proof (cases "wi_query i cap")
  case (Some kv)
  then have "wb_live (fst (post_setting cap s i w)) = wb_live w \<and> wb_stats (fst (post_setting cap s i w)) = fst (handle_setting (wi_env i) s kv (wb_stats w))"
    by (simp add: post_setting_def split_beta)
  then show ?thesis unfolding web_effect_def by blast
qed (simp add: post_setting_def web_effect_def)

lemma trace_effect: "web_effect env w (w\<lparr>wb_stats := fst (handle_trace_set env kv (wb_stats w))\<rparr>)"
proof -
  have "fst (handle_trace_set env kv (wb_stats w)) = fst (handle_setting env Set_trace kv (wb_stats w))" by (simp add: handle_setting_def)
  then show ?thesis unfolding web_effect_def by auto
qed

lemma liveness_effect: "web_effect (wi_env i) w (fst (liveness_post i w))"
proof (cases "wi_query i 96")
  case (Some kv)
  define en :: int where "en = (case kv ''enabled'' 12 of Some v \<Rightarrow> if c_atoi v \<noteq> 0 then 1 else 0 | None \<Rightarrow> -1)"
  define intv where "intv = (case kv ''interval'' 12 of Some v \<Rightarrow> c_atoi v | None \<Rightarrow> -1)"
  define thr where "thr = (case kv ''threshold'' 12 of Some v \<Rightarrow> c_atoi v | None \<Rightarrow> -1)"
  obtain l n e where p: "set_params (se_nvs (wi_env i)) en intv thr (wb_live w, st_nvs (wb_stats w)) = ((l, n), e)" by (metis prod.exhaust)
  define tst where "tst = (case kv ''test'' 12 of Some v \<Rightarrow> c_atoi v \<noteq> 0 | None \<Rightarrow> False)"
  have f: "fst (liveness_post i w) = (if tst then w\<lparr>wb_live := force_fail_test (wb_live w)\<rparr> else w\<lparr>wb_live := l, wb_stats := (wb_stats w)\<lparr>st_nvs := n\<rparr>\<rparr>)"
    unfolding liveness_post_def Some option.case en_def [symmetric] intv_def [symmetric] thr_def [symmetric] tst_def [symmetric] Let_def p by simp
  show ?thesis
  proof (cases tst)
    case False
    then have "set_params (se_nvs (wi_env i)) en intv thr (wb_live w, st_nvs (wb_stats w)) = ((wb_live (fst (liveness_post i w)), n), e)"
        "wb_stats (fst (liveness_post i w)) = (wb_stats w)\<lparr>st_nvs := n\<rparr>" using p f by simp_all
    then show ?thesis unfolding web_effect_def by blast
  qed (simp add: f web_effect_def)
qed (simp add: liveness_post_def web_effect_def)

lemma endpoint_effect: "web_effect (wi_env i) w (fst (run_endpoint html svg i e w))"
proof -
  have s: "web_effect (wi_env i) w (fst (build_stats_json 320 i w))" by (simp add: build_stats_json_def web_effect_def Let_def split_beta)
  have t: "web_effect (wi_env i) w (fst (trace_post i w))" by (simp add: trace_post_def Let_def split_beta trace_effect)
  have b: "web_effect (wi_env i) w (fst (reboot_post w))" by (simp add: reboot_post_def web_effect_def)
  have i: "web_effect (wi_env i) w w" by (simp add: web_effect_def)
  show ?thesis by (cases e) (simp_all add: run_endpoint_def post_setting_effect liveness_effect i t b split_beta s)
qed

lemma reboot_synced [simp]: "synced (schedule_reboot st) = synced st" "st_nvs (schedule_reboot st) = st_nvs st"
  by (simp_all add: synced_def schedule_reboot_def settings_of_def)

lemma effect_dev_inv:
  assumes w: "nvs_works (se_nvs env)" "se_pm_ok env" and "dev_inv env lv r" "web_effect env (bw_web (rn_web r)) w'"
  shows "dev_inv env lv (r\<lparr>rn_web := (rn_web r)\<lparr>bw_web := w'\<rparr>\<rparr>)"
proof -
  have c: "dev_inv env lv (r\<lparr>rn_web := (rn_web r)\<lparr>bw_web := w1\<rparr>\<rparr>) = dev_inv env lv (r\<lparr>rn_web := (rn_web r)\<lparr>bw_web := w2\<rparr>\<rparr>)"
    if "wb_stats w1 = wb_stats w2" "params_of (wb_live w1) = params_of (wb_live w2)" for w1 w2
    using that by (simp add: dev_inv_def store_def live_params_ok_def params_of_def)
  have same: "dev_inv env lv (r\<lparr>rn_web := (rn_web r)\<lparr>bw_web := bw_web (rn_web r)\<rparr>\<rparr>)" using assms(3) by simp
  from assms(4) show ?thesis unfolding web_effect_def
  proof (elim disjE conjE exE)
    assume "wb_live w' = rn_live r" "wb_stats w' = rn_stats r"
    then show ?thesis using c [of w' "bw_web (rn_web r)"] same by simp
  next
    assume l: "wb_live w' = rn_live r" "wb_stats w' = schedule_reboot (rn_stats r)"
    have "dev_inv env lv (r\<lparr>rn_web := (rn_web r)\<lparr>bw_web := (bw_web (rn_web r))\<lparr>wb_stats := schedule_reboot (rn_stats r)\<rparr>\<rparr>\<rparr>)"
      by (rule dev_inv_stats [OF assms(3)]) (use assms(3) in \<open>simp_all add: reboot_synced dev_inv_def store_def\<close>)
    then show ?thesis using c [of w' "(bw_web (rn_web r))\<lparr>wb_stats := schedule_reboot (rn_stats r)\<rparr>"] l by simp
  next
    fix s kv assume l: "wb_live w' = rn_live r" "wb_stats w' = fst (handle_setting env s kv (rn_stats r))"
    then show ?thesis using c [of w' "(bw_web (rn_web r))\<lparr>wb_stats := wb_stats w'\<rparr>"] setting_dev_inv [OF w assms(3), of s kv] by simp
  next
    assume "wb_stats w' = rn_stats r" "wb_live w' = force_fail_test (rn_live r)"
    then show ?thesis using c [of w' "bw_web (rn_web r)"] same by (simp add: force_fail_test_def params_of_def)
  next
    fix en intv thr n e
    assume l: "set_params (se_nvs env) en intv thr (rn_live r, st_nvs (rn_stats r)) = ((wb_live w', n), e)" "wb_stats w' = (rn_stats r)\<lparr>st_nvs := n\<rparr>"
    then show ?thesis using c [of w' "(bw_web (rn_web r))\<lparr>wb_live := wb_live w', wb_stats := wb_stats w'\<rparr>"]
        live_dev_inv [OF w(1) assms(3), of en intv thr "wb_live w'" n e] by (simp add: store_def)
  qed
qed

lemma dispatch_effect:
  fixes i qkv meth line cap b
  defines "b' \<equiv> fst (dispatch i qkv meth line cap b)"
  shows "web_effect (wi_env i) (bw_web b) (bw_web b') \<and> bw_clone b' = bw_clone b \<or>
         (\<exists>q a res. handle_clone_set (wi_env i) q (bw_app b) = (a, res) \<and> b' = bw_put_app a b)"
proof -
  have s: "web_effect (wi_env i) (bw_web b) (bw_web (fst (set_over_ble i kv s cap b))) \<and> bw_clone (fst (set_over_ble i kv s cap b)) = bw_clone b" for kv s
  proof -
    have "fst (set_over_ble i kv s cap b) = b\<lparr>bw_web := (bw_web b)\<lparr>wb_stats := fst (handle_setting (wi_env i) s kv (wb_stats (bw_web b)))\<rparr>\<rparr>"
      by (simp add: set_over_ble_def split_beta)
    then show ?thesis unfolding web_effect_def by auto
  qed
  have j: "web_effect (wi_env i) (bw_web b) (fst (build_stats_json cap i (bw_web b)))" by (simp add: build_stats_json_def web_effect_def Let_def split_beta)
  have t: "web_effect (wi_env i) (bw_web b) ((bw_web b)\<lparr>wb_stats := fst (handle_trace_set (wi_env i) kv (wb_stats (bw_web b)))\<rparr>)" for kv by (rule trace_effect)
  have r: "web_effect (wi_env i) w (w\<lparr>wb_stats := schedule_reboot (wb_stats w)\<rparr>)" "web_effect (wi_env i) w w" for w by (simp_all add: web_effect_def)
  define path where "path = takeWhile (\<lambda>c. c \<noteq> CHR ''?'') line"
  define kv where "kv = qkv (drop 1 (dropWhile (\<lambda>c. c \<noteq> CHR ''?'') line))"
  show ?thesis
  proof (cases "meth = ''POST'' \<and> path = ''/clone''")
    case True
    obtain a res where h: "handle_clone_set (wi_env i) (Some kv) (bw_app b) = (a, res)" by fastforce
    have "b' = bw_put_app a b"
      unfolding b'_def dispatch_def path_def [symmetric] kv_def [symmetric] Let_def using True h by (simp split: sum.split)
    then show ?thesis using h by blast
  next
    case False
    define P where "P x \<longleftrightarrow> web_effect (wi_env i) (bw_web b) (bw_web (fst x)) \<and> bw_clone (fst x) = bw_clone b" for x :: "ble_web \<times> ble_reply"
    have c: "P x \<Longrightarrow> P y \<Longrightarrow> P (if d then x else y)" for d x y by simp
    have "P (dispatch i qkv meth line cap b)"
      unfolding dispatch_def path_def [symmetric] kv_def [symmetric] Let_def if_not_P [OF False]
      by (intro c) (simp_all add: P_def s j t r split_beta)
    then show ?thesis by (simp add: P_def b'_def)
  qed
qed

lemma clone_post_dev_inv:
  assumes "nvs_works (se_nvs env)" "se_pm_ok env" "dev_inv env lv r"
  shows "dev_inv env lv (r\<lparr>rn_web := bw_put_app (fst (clone_post env q (bw_app (rn_web r)))) (rn_web r)\<rparr>)"
proof (cases "q 160")
  case None
  have "handle_clone_set env None (bw_app (rn_web r)) = (bw_app (rn_web r), Inl ''missing query'')" by (simp add: handle_clone_set_def)
  from clone_dev_inv [OF assms this] None show ?thesis by (simp add: clone_post_def)
next
  case (Some kv)
  obtain a res where h: "handle_clone_set env (Some kv) (bw_app (rn_web r)) = (a, res)" by fastforce
  have "fst (clone_post env q (bw_app (rn_web r))) = a" using Some h by (simp add: clone_post_def split: sum.split)
  with clone_dev_inv [OF assms h] show ?thesis by simp
qed

lemma device_step_inv:
  assumes "nvs_works (se_nvs env)" "se_pm_ok env" "dev_inv env lv r" "event_ok env ev"
  shows "dev_inv env lv (device_step env aton ev r)"
proof (cases ev)
  case (Dv_http html svg venv i m uri)
  have e: "wi_env i = env" using assms(4) Dv_http by simp
  note n = nat_dev_inv [OF assms(3), where aton = aton]
  note np = n [of "Ev_nat_post venv (wi_query i)", simplified] and pp = n [of "Ev_portmap_post (wi_query i)", simplified]
  have w: "dev_inv env lv (r\<lparr>rn_web := (rn_web r)\<lparr>bw_web := w\<rparr>\<rparr>)" if "web_serve html svg i m uri (bw_web (rn_web r)) = Some (w, p)" for w p
    using that endpoint_effect [of i "bw_web (rn_web r)" html svg] effect_dev_inv [OF assms(1-3)]
    by (auto simp: web_serve_def e) (metis e fst_conv)
  show ?thesis
    using Dv_http np pp clone_post_dev_inv [OF assms(1-3), of "wi_query i"] w assms(3)
    by (simp add: httpd_request_def Let_def e split_beta nat_on_def split: option.split)
next
  case (Dv_ble qkv i meth line)
  have e: "wi_env i = env" using assms(4) Dv_ble by simp
  define b' where "b' = fst (dispatch i qkv meth line RESP_BUF_BYTES (rn_web r))"
  consider (web) "web_effect env (bw_web (rn_web r)) (bw_web b')" "bw_clone b' = bw_clone (rn_web r)"
    | (clone) q a res where "handle_clone_set env q (bw_app (rn_web r)) = (a, res)" "b' = bw_put_app a (rn_web r)"
    using dispatch_effect [where i = i and qkv = qkv and meth = meth and line = line and cap = RESP_BUF_BYTES and b = "rn_web r"] by (auto simp: e b'_def)
  then have "dev_inv env lv (r\<lparr>rn_web := b'\<rparr>)"
  proof cases
    case web
    then have "b' = (rn_web r)\<lparr>bw_web := bw_web b'\<rparr>" by simp
    then show ?thesis using effect_dev_inv [OF assms(1-3) web(1)] by metis
  next
    case clone
    then show ?thesis using clone_dev_inv [OF assms(1-3) clone(1)] by simp
  qed
  then show ?thesis using Dv_ble by (simp add: b'_def)
next
  case (Dv_got_ip venv ip)
  then show ?thesis using nat_dev_inv [OF assms(3), of "Ev_got_ip venv ip" aton] by (simp add: nat_on_def)
next
  case (Dv_forward n dest)
  then show ?thesis using nat_dev_inv [OF assms(3), of "Ev_forward n dest" aton] by (simp add: nat_on_def)
next
  case Dv_update_begins
  then show ?thesis using nat_dev_inv [OF assms(3), of Ev_ota_pause aton] by (simp add: nat_on_def)
next
  case (Dv_update_failed venv)
  then show ?thesis using nat_dev_inv [OF assms(3), of "Ev_ota_resume venv" aton] by (simp add: nat_on_def)
next
  case Dv_stable
  then show ?thesis using stable_dev_inv [OF assms(3)] by simp
qed

section \<open>From power-on\<close>

lemma load_ap_creds_ok:
  assumes "well_typed n"
  shows "ap_creds_ok (load_ap_creds ne (nat_globals n))"
proof -
  have "str_in ap_ssid_ok v" if "n NAT_NS ''ap_ssid'' = Some v" for v using assms that by (simp add: well_typed_def schema_ns(7) [symmetric])
  moreover have "str_in ap_psk_ok v" if "n NAT_NS ''ap_psk'' = Some v" for v using assms that by (simp add: well_typed_def schema_ns(8) [symmetric])
  ultimately show ?thesis
    by (auto simp: load_ap_creds_def nat_globals_def get_str_def nvs_read_def Let_def ap_creds_ok_def ap_ssid_ok_def ap_psk_ok_def AP_SSID_def AP_PASSWORD_def
        str_in_def split: option.split nvs_val.split)
qed

lemma nat_start_creds: "well_typed n \<Longrightarrow> ap_creds_ok (nat_start ne venv (nat_globals n))"
proof -
  assume "well_typed n"
  from load_ap_creds_ok [OF this, of ne] have l: "ap_creds_ok (load_ap_creds ne (nat_globals n))" .
  have "ap_creds_ok (ap_up venv s) = ap_creds_ok s" for s using nat_coreD(5,6) [OF core_ap_up, of venv s] by (simp add: ap_creds_ok_def)
  with l show ?thesis by (simp add: nat_start_def Let_def ap_creds_ok_def split: option.split)
qed

lemma start_params: "params_of (liveness_start ne n (liveness_initial a b)) = stored_params ne (a, b) n"
  "live_params_ok (liveness_initial a b) \<Longrightarrow> live_params_ok (liveness_start ne n (liveness_initial a b))"
  by (auto simp: liveness_start_def liveness_initial_def stored_params_def params_of_def load_nvs_def live_params_ok_def Let_def split: option.split)

definition off_inv :: "nvs_env \<Rightarrow> nvs \<Rightarrow> bool" where
  "off_inv ne n \<longleftrightarrow> well_typed n \<and> pm_ok (load_portmap ne n)"

lemma serial_inv: "off_inv ne n \<Longrightarrow> off_inv ne (pv_nvs (poll_boot_window ne turns n))"
  using serial.run_typed [of n "(ne, turns)"] load_portmap_keys [of "pv_nvs (poll_boot_window ne turns n)" n ne] poll_boot_frame [OF not_serial_keys(4), of ne turns n]
  by (simp add: off_inv_def serial_run_def)

lemma guard_inv: "off_inv ne n \<Longrightarrow> boot_was_unstable ne reason n = (n', f) \<Longrightarrow> off_inv ne n'"
  using guard.run_writes [of n "(ne, Some reason)"] load_portmap_keys [of n' n ne] writes_frame writes_typed
  by (auto simp: off_inv_def guard_run_def ns_distinct)

lemma boot_dev_inv:
  assumes "nvs_works (se_nvs env)" "boot_ok env lv i" "live_params_ok (liveness_initial (fst lv) (snd lv))" "off_inv (se_nvs env) n"
    and "app_main i n = Boot_running d"
  shows "dev_inv env lv (running_of i d)"
proof -
  let ?ne = "se_nvs env"
  have b: "bi_nvs i = ?ne" "bi_stats i = env" "bi_live i = lv" using assms(2) by (simp_all add: boot_ok_def)
  obtain n1 where u: "boot_was_unstable ?ne (bi_reason i) (pv_nvs (poll_boot_window ?ne (bi_serial i) n)) = (n1, crash_class (bi_reason i) \<and> pending n)"
    and n1: "clone_boot ?ne (crash_class (bi_reason i) \<and> pending n) n1 = (de_target d, de_nvs d)" "de_stats d = (stats_boot env n1)\<lparr>st_nvs := de_nvs d\<rparr>"
      "de_nat d = (nat_start ?ne (bi_nat i) (nat_globals n1))\<lparr>nr_nvs := de_nvs d\<rparr>" "de_live d = liveness_start ?ne n1 (liveness_initial (fst lv) (snd lv))"
    by (rule boot_running [OF _ assms(5), unfolded b, OF assms(1)]) blast
  have o: "off_inv ?ne n1" by (rule guard_inv [OF serial_inv [OF assms(4)] u])
  note c = clone_boot_works [OF assms(1) n1(1)]
  have k: "de_nvs d ns k = n1 ns k" if "ns \<noteq> CLONE_NS" for ns k using c(3) [OF that] by simp
  have t: "well_typed (de_nvs d)"
  proof -
    have "writes (\<lambda>ns. ns = CLONE_NS) n1 (de_nvs d)"
      using n1(1) conf.run_writes [of "(?ne, (config_load ?ne n1)\<lparr>ct_enabled := False\<rparr>, config_load ?ne n1)" n1] config_load_suffix [of ?ne n1]
      by (auto simp: clone_boot_def config_run_def Let_def split: if_splits)
    from writes_typed [OF this] o show ?thesis by (simp add: off_inv_def)
  qed
  have s: "synced (de_stats d)"
    using synced_boot [OF assms(1), of n1] synced_keys [of "de_nvs d" "stats_boot env n1"] boot_settings [OF assms(1), of n1] k by (simp add: n1(2) ns_distinct)
  have "nat_inv ?ne ((nat_start ?ne (bi_nat i) (nat_globals n1))\<lparr>nr_nvs := n1\<rparr>)"
  proof -
    have "nr_nvs (nat_start ?ne (bi_nat i) (nat_globals n1)) = n1"
    proof -
      have "nr_nvs (ap_up e s) = nr_nvs s" for e s using nat_coreD(3) [OF core_ap_up, of e s] by simp
      then show ?thesis by (auto simp: nat_start_def load_ap_creds_def nat_globals_def Let_def split: option.split)
    qed
    then have "(nat_start ?ne (bi_nat i) (nat_globals n1))\<lparr>nr_nvs := n1\<rparr> = nat_start ?ne (bi_nat i) (nat_globals n1)"
      by (intro nat_state.equality) simp_all
    then show ?thesis using start_inv [of ?ne n1 "bi_nat i"] o by (simp add: off_inv_def)
  qed
  then have "nat_inv ?ne ((nat_start ?ne (bi_nat i) (nat_globals n1))\<lparr>nr_nvs := de_nvs d\<rparr>)"
    using nat_inv_keys [of "de_nvs d" n1 ?ne "nat_start ?ne (bi_nat i) (nat_globals n1)"] k by (simp add: ns_distinct)
  moreover have "ap_creds_ok (de_nat d)" using nat_start_creds [of n1 ?ne "bi_nat i"] o by (simp add: n1(3) ap_creds_ok_def off_inv_def)
  moreover have "params_of (de_live d) = stored_params ?ne lv (de_nvs d)" "live_params_ok (de_live d)"
    using start_params [where ne = ?ne and n = n1 and a = "fst lv" and b = "snd lv"] stored_params_keys [of "de_nvs d" n1 ?ne lv] k assms(3)
    by (simp_all add: n1(4) ns_distinct)
  ultimately show ?thesis using s t c(2) by (simp add: dev_inv_def running_of_def store_def n1(2,3))
qed

lemma app_main_store:
  assumes "off_inv (bi_nvs i) n"
  shows "app_main i n = Boot_restarted n' \<Longrightarrow> off_inv (bi_nvs i) n'" "app_main i n = Boot_setup n' served \<Longrightarrow> off_inv (bi_nvs i) n'"
proof -
  define m where "m = pv_nvs (poll_boot_window (bi_nvs i) (bi_serial i) n)"
  have m: "off_inv (bi_nvs i) m" unfolding m_def by (rule serial_inv [OF assms])
  obtain n1 f where u: "boot_was_unstable (bi_nvs i) (bi_reason i) m = (n1, f)" by fastforce
  note g = guard_inv [OF m u]
  show "app_main i n = Boot_restarted n' \<Longrightarrow> off_inv (bi_nvs i) n'" "app_main i n = Boot_setup n' served \<Longrightarrow> off_inv (bi_nvs i) n'"
    using m g u by (auto simp: app_main_def Let_def m_def split: if_splits prod.splits wifi_outcome.splits)
qed

fun phase_inv :: "stats_env \<Rightarrow> u32 \<times> u32 \<Rightarrow> phase \<Rightarrow> bool" where
  "phase_inv env lv (Off n) = off_inv (se_nvs env) n"
| "phase_inv env lv (Setup n served) = off_inv (se_nvs env) n"
| "phase_inv env lv (Run r) = dev_inv env lv r"

lemma dev_inv_off: "dev_inv env lv r \<Longrightarrow> off_inv (se_nvs env) (store r)"
  by (simp add: dev_inv_def off_inv_def nat_inv_def core_inv_def)

lemma life_inv:
  assumes "life env lv aton p" "nvs_works (se_nvs env)" "se_pm_ok env" "live_params_ok (liveness_initial (fst lv) (snd lv))"
  shows "phase_inv env lv p"
  using assms(1)
proof (induction rule: life.induct)
  case life_new
  have "load_portmap (se_nvs env) (\<lambda>_ _. None) = replicate PORTMAP_MAX empty_entry" by (simp add: load_portmap_def nvs_read_def)
  then show ?case by (simp add: off_inv_def well_typed_empty pm_empty_ok)
next
  case (life_boot n i)
  then have o: "off_inv (se_nvs env) n" and b: "bi_nvs i = se_nvs env" by (simp_all add: boot_ok_def)
  show ?case using app_main_store [of i n] o b boot_dev_inv [OF assms(2) life_boot.hyps(2) assms(4) o]
    by (auto simp: power_on_def split: boot_result.split)
next
  case (life_setup n rs n' p restart)
  have "writes (\<lambda>ns. ns = NVS_WIFI_NS) n n'" using form.run_writes [of n "(se_nvs env, rs)"] life_setup.hyps(2) by (simp add: form_run_def)
  then have "off_inv (se_nvs env) n'" using life_setup.IH writes_typed load_portmap_keys [of n' n] writes_frame
    by (fastforce simp: off_inv_def NVS_WIFI_NS_def NAT_NS_def)
  then show ?case by simp
next
  case (life_run r ev)
  then show ?case using device_step_inv [OF assms(2,3)] by simp
qed (simp_all add: dev_inv_off)

section \<open>Properties\<close>



lemma example_life:
  obtains r r' where "life good_env (30, 6) web_aton (Run r)" "power_on (boot_example RST_PANIC) (store r) = Run r'"
proof -
  have b: "boot_ok good_env (30, 6) (boot_example reason)" for reason by (simp add: boot_ok_def boot_example_def good_env_def)
  obtain d where d: "app_main (boot_example RST_POWERON) (\<lambda>_ _. None) = Boot_running d" "\<And>k. de_nvs d ''wifi'' k = None"
    using boot_example_runs [of "\<lambda>_ _. None" RST_POWERON] by blast
  define r0 where "r0 = running_of (boot_example RST_POWERON) d"
  have l0: "life good_env (30, 6) web_aton (Run r0)" 
    using life.life_boot [OF life.life_new b [of RST_POWERON], of web_aton] d(1) by (simp add: power_on_def r0_def)
  define r where "r = device_step good_env web_aton Dv_stable r0"
  have l: "life good_env (30, 6) web_aton (Run r)" unfolding r_def by (rule life.life_run [OF l0]) simp
  have "nvs_works (bi_nvs (boot_example RST_POWERON))" by (simp add: boot_example_def good_nvs_works)
  then have "st_nvs (de_stats d) = de_nvs d" by (rule boot_running [OF _ d(1)]) simp
  then have "store r0 = de_nvs d" by (simp add: r0_def running_of_def store_def)
  then have "store r ''wifi'' k = None" for k using d(2) by (simp add: r_def good_env_def stable_works [OF good_nvs_works] NBP_BOOT_NS_def)
  then obtain d' where "app_main (boot_example RST_PANIC) (store r) = Boot_running d'" using boot_example_runs [of "store r" RST_PANIC] by blast
  then show ?thesis using that l by (simp add: power_on_def)
qed

lemma example_env: "nvs_works (se_nvs good_env)" "se_pm_ok good_env" "live_params_ok (liveness_initial (fst (30, 6)) (snd (30, 6)))"
  by (simp_all add: good_env_def good_nvs_works live_params_ok_def liveness_initial_def)



end
