(* ===== verification/Spec2Isabelle.thy ===== *)
theory Spec2Isabelle
  imports Frame_Codec Ble_Address Handshake Connection Bthome Scanner Gatt_Discovery Bt_Handlers Api_Server Ble_Backend
    Stats_Settings Stats_Web Devices_Json Liveness_Wdt Serial_Provision Clone Nat_Router
    Wifi_Sta Ble_Httpd Ota Ws_Proxy Main_Boot Store_Schema Device
begin

text \<open>
  A verification development of the firmware in this repository: an ESP32 program that makes the device a
  Bluetooth proxy for Home Assistant (the plaintext aioesphomeapi protocol on TCP port 6053), a repeater for
  one Bluetooth peripheral, a travel router, and a dashboard over HTTP and over Bluetooth for all of it. The model is a shallow
  embedding of the C++ under \<^verbatim>\<open>components/\<close> and \<^verbatim>\<open>main/\<close>, in the default build configuration with the optional
  components switched on. Theorem numbers (C1 and up) are those of the project's manifest.

  The program's parts. \<^verbatim>\<open>main/main.cpp\<close> reads the stored configuration and starts the components. \<^verbatim>\<open>api_server\<close> accepts up to four
  clients, reads frames, answers the handshake by itself and hands Bluetooth requests to \<^verbatim>\<open>bt_handlers\<close>, which act on the
  connection pool, the scanner and the GATT discovery of \<^verbatim>\<open>ble_backend\<close>; these call back with advertisements, GATT replies and
  changes of free slots, which \<open>send_async\<close> broadcasts. \<^verbatim>\<open>stats.cpp\<close> is the dashboard: settings, counters, log console and device
  list, served by the HTTP server that \<^verbatim>\<open>ota\<close> owns and shares with \<^verbatim>\<open>nat_router\<close>, \<^verbatim>\<open>ble_clone\<close> and \<^verbatim>\<open>ws_proxy\<close>; \<^verbatim>\<open>ble_httpd\<close> serves the same
  over a GATT service. \<^verbatim>\<open>wifi_sta\<close>, \<^verbatim>\<open>serial_provision\<close> and \<^verbatim>\<open>liveness_wdt\<close> get the device onto a network and keep it there. Settings of all components
  live in the non-volatile store, one namespace each.
\<close>

section \<open>The theories\<close>

text \<open>
  Ground. \<open>Nbp_Prelude\<close>: machine types (\<open>size_t\<close> has 32 bits), linear searches, bounded copies, the collections
  \<open>scan_simps\<close>, \<open>word_norm\<close> and \<open>call_simps\<close>. \<open>Interfaces\<close>: the contracts that several components share. \<open>Api_Proto\<close>: message ids, constants and
  message structures. \<open>Nimble\<close>: what the firmware reads from NimBLE's objects. \<open>Httpd\<close>: number parsing and printing, bounded text buffers
  and replies. \<open>Nvs\<close>: the store and its failures.

  The proxy (\<^verbatim>\<open>components/api_server\<close>, \<^verbatim>\<open>components/ble_backend\<close>). \<open>Frame_Codec\<close> (\<^verbatim>\<open>frame_codec.cpp\<close>): varints, the streaming reader, the header
  writer; C2 and C6 are the round trip and the equivalence with a reference parser, for any segmentation of the stream. \<open>Handshake\<close>
  (\<^verbatim>\<open>handshake.cpp\<close>), \<open>Api_Server\<close> (\<^verbatim>\<open>api_server.cpp\<close>): client table, dispatch, broadcast; every send loop returns. \<open>Ble_Address\<close>
  (\<^verbatim>\<open>address.cpp\<close>). \<open>Connection\<close> (\<^verbatim>\<open>connection.cpp\<close>): the slot pool as a step relation of API tasks and NimBLE callbacks with its invariant. \<open>Scanner\<close>
  (\<^verbatim>\<open>scanner.cpp\<close>), \<open>Bthome\<close> (\<^verbatim>\<open>bthome.cpp\<close>), \<open>Gatt_Discovery\<close> (\<^verbatim>\<open>gatt_discovery.cpp\<close>), \<open>Bt_Handlers\<close> (\<^verbatim>\<open>bt_handlers.cpp\<close>): requests, callbacks and
  subscriptions over the joined state, with the interleaving of two counter operations. \<open>Ble_Backend\<close> (\<^verbatim>\<open>ble_backend.cpp\<close>): advertising gates
  and the auto-off supervisor.

  The dashboard. \<open>Stats_Log\<close>, \<open>Stats_Settings\<close>, \<open>Stats_Web\<close> and \<open>Devices_Json\<close> are the four parts of \<^verbatim>\<open>stats.cpp\<close>: log ring,
  setters and loaders, getters with the endpoint table, device list. \<open>Ble_Httpd\<close> (\<^verbatim>\<open>ble_httpd.cpp\<close>) is the dispatcher over Bluetooth, with the
  equivalence of the two transports. \<open>Ota\<close> (\<^verbatim>\<open>ota.cpp\<close>): the firmware update. \<open>Ws_Proxy\<close> (\<^verbatim>\<open>ws_proxy.cpp\<close>): the WebSocket bridge as two interleaving
  tasks. \<open>Liveness_Wdt\<close> (\<^verbatim>\<open>liveness_wdt.cpp\<close>).

  Network and repeater. \<open>Wifi_Sta\<close> (\<^verbatim>\<open>wifi_sta.cpp\<close>), \<open>Serial_Provision\<close> (\<^verbatim>\<open>serial_provision.cpp\<close>), \<open>Dhcps_Hostname\<close> (\<^verbatim>\<open>dhcps_hostname.c\<close>), \<open>Nat_Router\<close>
  (\<^verbatim>\<open>nat_router.cpp\<close>). \<open>Clone_Config\<close>, \<open>Clone_Mirror\<close>, \<open>Clone_Upstream\<close> and \<open>Clone\<close> are the four files of \<^verbatim>\<open>components/ble_clone\<close>.

  The whole device. \<open>Main_Boot\<close> (\<^verbatim>\<open>main.cpp\<close>, \<^verbatim>\<open>mdns_announce.cpp\<close>) composes the components' loaders and starts as \<open>app_main\<close> does.
  \<open>Store_Schema\<close> states for each key of the store the type and range its readers rely on. \<open>Device\<close> joins the components behind the HTTP server and the
  Bluetooth dashboard over one store and follows a device from its first power-on through setup, requests, resets and reboots.
\<close>

section \<open>Interfaces\<close>

text \<open>
  \<open>slot_table\<close> is interpreted on the connection pool (\<open>ct\<close>) and the client descriptors (\<open>ft\<close>); \<open>lru_table\<close> on the scanner's device
  table (\<open>dt\<close>) and the BTHome cache (\<open>bc\<close>); \<open>ring_buffer\<close> on the log (\<open>lr\<close>) and the Wi-Fi history (\<open>hr\<close>); \<open>registry\<close> on host names
  (\<open>hn\<close>) and port mappings (\<open>pm\<close>). \<open>stream_reader\<close> is the documented contract of the frame reader's \<open>ReadFn\<close>, interpreted on segmented
  input (\<open>seg\<close>) and on the API server's own reader over a loop-back socket (\<open>sr\<close>); \<open>stream_writer\<close> that of \<open>send\<close>, interpreted on the loop-back
  network (\<open>ln\<close>). \<open>store_client\<close> says that an operation writes only its namespaces of the store, and there only values of the
  schema; it is interpreted on the operations of every component that writes the store (\<open>sett\<close>, \<open>conf\<close>, \<open>rout\<close>, \<open>live_wdt\<close>, \<open>guard\<close>,
  \<open>form\<close>, \<open>serial\<close>), and \<open>Device\<close> composes these facts.
\<close>

section \<open>Conventions\<close>

text \<open>
  State is passed explicitly; a table in static memory is a list of its fixed length, a count with a row array is the list of
  the rows in use. A flag that says whether a field is meaningful is an option. Calls into the platform are recorded in order, in
  the state or beside the result. What the platform answers (success of a call, clock, data received) is an input: a record of
  functions per component, or an argument. Integers have the width of the source where a wrap-around can matter; others are
  \<open>nat\<close> or \<open>int\<close> under the bounds the code keeps.

  Concurrency. A section under a mutex is one step; tasks and callbacks interleave as the rules of an \<open>inductive\<close> relation, and
  the invariants are proved by rule induction for every reachable state (\<open>conn_reachable\<close>, \<open>bt_reachable\<close>, \<open>bb_reachable\<close>,
  \<open>mirror_reachable\<close>, \<open>clone_reachable\<close>, \<open>nat_reach\<close>, \<open>ws_reachable\<close>, \<open>life\<close>).

  Loops. A loop over data recurses on the data, or has a measure (the bytes left, the requested length, the chunks left).
  No fuel is used anywhere, except that a loop with a bound in the source (six attempts to notify, five bytes of a varint)
  counts it down. The one loop that may run for ever, the send loop on a socket that accepts nothing, is a \<open>partial_function\<close>, and
  C1 and C8 prove that it returns under the contract of \<open>send\<close>. A handler that waits for input is given the inputs as a
  list, and \<open>None\<close> says that it is still waiting at the end of it.

  Bounds. The sizes are those of \<^verbatim>\<open>include/proxy_config.h\<close> and the defaults of \<^verbatim>\<open>main/Kconfig.projbuild\<close>: 4 clients, 4 connections,
  batches of 16 advertisements, messages of 2048 bytes, 16 port rules, 2 WebSocket sessions. A write outside a buffer is
  \<open>None\<close>, and the properties show that it does not happen where the code relies on that.
\<close>

section \<open>What is not modelled\<close>

text \<open>
  Third-party code is a parameter: NimBLE (connections, scanning, attributes), lwIP (sockets, address translation), ESP-IDF (store,
  flash, HTTP server, Wi-Fi driver, timers) and the nanopb codec, of which C1 to C8 use only what is documented. A connection
  returns or fails as its input says; radio timing is outside the model. \<^verbatim>\<open>publish.cpp\<close> holds two function pointers set once at boot, so the
  model calls what they point to. Initialisation calls that abort on failure, log lines, and the static assertions are left out.
  In \<open>Device\<close> the radio and the API server are not part of the joined state: they neither read the store after the boot nor
  write it. The web pages, the flasher, the build files and the Python scripts are not part of the program that runs on the device.

  What modelling showed about the code is listed in the manifest: among others, the setup form cuts a long
  percent-encoded password and stores the rest (\<open>long_form_cut\<close>), two counter operations can interleave so that the count
  of subscribers is wrong (\<open>subscription_race\<close>), and the setup network's name loses its address suffix for long host
  names (\<open>setup_ssid_collides\<close>).
\<close>

end
